(* ===== verification/Prelude.thy ===== *)
theory Prelude
  imports "HOL-Library.Word" "HOL-Library.Monad_Syntax"
begin

text \<open>
  Shared vocabulary of the development: bytes and byte strings, the checked memory in which
  the byte-level data structures live (an access outside the allocated block is \<^term>\<open>None\<close>,
  so a theorem that an operation returns \<^term>\<open>Some\<close> is also a theorem that it stays inside its
  allocation), the byte representation of machine integers in either host byte order, and the
  ranges of the C integer types. The generic list and arithmetic lemmas that several components
  use are collected here, most of them in the named collections \<open>mem_simps\<close> (reading and writing
  memory) and \<open>bytes_simps\<close> (byte representation of integers).
\<close>

unbundle bit_operations_syntax

named_theorems mem_simps
named_theorems bytes_simps
named_theorems crange

section \<open>Bytes and memory blocks\<close>

type_synonym byte = "8 word"
type_synonym bytes = "8 word list"

text \<open>A character constant of the source, as a byte; a string literal without its nul byte.\<close>

abbreviation ch :: "char \<Rightarrow> byte" where
  "ch c \<equiv> of_char c"

abbreviation cstr :: "string \<Rightarrow> bytes" where
  "cstr s \<equiv> map of_char s"

definition mread :: "bytes \<Rightarrow> int \<Rightarrow> nat \<Rightarrow> bytes option" where
  "mread m off n =
     (if 0 \<le> off \<and> off + int n \<le> int (length m) then Some (take n (drop (nat off) m)) else None)"

definition mwrite :: "bytes \<Rightarrow> int \<Rightarrow> bytes \<Rightarrow> bytes option" where
  "mwrite m off src =
     (if 0 \<le> off \<and> off + int (length src) \<le> int (length m)
      then Some (take (nat off) m @ src @ drop (nat off + length src) m) else None)"

text \<open>\<open>memmove\<close>: the source block is read before the destination is written, so the two may
  overlap.\<close>

definition memmove :: "bytes \<Rightarrow> int \<Rightarrow> int \<Rightarrow> nat \<Rightarrow> bytes option" where
  "memmove m dst src n = do { b \<leftarrow> mread m src n; mwrite m dst b }"

text \<open>\<open>realloc\<close> keeps the common prefix; what the added bytes hold is unspecified, so it is a
  parameter \<open>junk\<close> of every operation that reallocates.\<close>

definition zrealloc :: "(nat \<Rightarrow> byte) \<Rightarrow> bytes \<Rightarrow> nat \<Rightarrow> bytes" where
  "zrealloc junk m n = take n m @ map junk [length m..<n]"

lemma length_zrealloc [simp]: "length (zrealloc junk m n) = n"
  by (simp add: zrealloc_def)

lemma zrealloc_grow: "length m \<le> n \<Longrightarrow> zrealloc junk m n = m @ map junk [length m..<n]"
  by (simp add: zrealloc_def)

lemma zrealloc_shrink: "n \<le> length m \<Longrightarrow> zrealloc junk m n = take n m"
  by (simp add: zrealloc_def)

lemma mread_Some [mem_simps]:
  "mread m off n = Some b \<longleftrightarrow>
     0 \<le> off \<and> off + int n \<le> int (length m) \<and> b = take n (drop (nat off) m)"
  by (auto simp: mread_def)

lemma mread_app:
  "mread (a @ b @ c) (int (length a)) (length b) = Some b"
  by (simp add: mread_def)

lemma mwrite_app:
  "length b' = length b \<Longrightarrow> mwrite (a @ b @ c) (int (length a)) b' = Some (a @ b' @ c)"
  by (simp add: mwrite_def)

lemma length_mwrite: "mwrite m off src = Some m' \<Longrightarrow> length m' = length m"
  by (auto simp: mwrite_def split: if_splits)

lemma memmove_eq [mem_simps]:
  "src + n \<le> length m \<Longrightarrow> dst + n \<le> length m \<Longrightarrow>
   memmove m (int dst) (int src) n = Some (take dst m @ take n (drop src m) @ drop (dst + n) m)"
  by (simp add: memmove_def mread_def mwrite_def min_absorb2)

lemma memmove_right:
  "memmove (a @ b @ c) (int (length a + length c)) (int (length a)) (length b) =
     Some (a @ take (length c) (b @ c) @ b)"
  by (subst memmove_eq) auto

lemma memmove_left:
  "memmove (a @ b @ c) (int (length a)) (int (length a + length b)) (length c) =
     Some (a @ c @ drop (length c) (b @ c))"
  by (subst memmove_eq) auto

lemma mread_mwrite_same:
  "mwrite m off src = Some m' \<Longrightarrow> mread m' off (length src) = Some src"
  by (auto simp: mwrite_def mread_def min_def split: if_splits)

lemma uint_of_unat: "unat w = p \<Longrightarrow> uint w = int p"
  by auto

section \<open>Integers in memory\<close>

text \<open>The \<open>n\<close> bytes of a value, least significant first, and the value of a byte string.\<close>

fun le_bytes :: "nat \<Rightarrow> nat \<Rightarrow> bytes" where
  "le_bytes 0 v = []"
| "le_bytes (Suc n) v = of_nat v # le_bytes n (v div 256)"

fun le_val :: "bytes \<Rightarrow> nat" where
  "le_val [] = 0"
| "le_val (b # bs) = unat b + 256 * le_val bs"

text \<open>How a host of the given byte order (\<open>be\<close>: big endian) lays the bytes out.\<close>

definition host_bytes :: "bool \<Rightarrow> nat \<Rightarrow> nat \<Rightarrow> bytes" where
  "host_bytes be n v = (if be then rev (le_bytes n v) else le_bytes n v)"

definition host_val :: "bool \<Rightarrow> bytes \<Rightarrow> nat" where
  "host_val be bs = le_val (if be then rev bs else bs)"

text \<open>The bit pattern of a signed value on \<open>n\<close> bytes, and two's complement back.\<close>

definition upat :: "nat \<Rightarrow> int \<Rightarrow> nat" where
  "upat n v = nat (v mod 2 ^ (8 * n))"

definition spat :: "nat \<Rightarrow> nat \<Rightarrow> int" where
  "spat n u = (if u < 2 ^ (8 * n - 1) then int u else int u - 2 ^ (8 * n))"

lemma length_le_bytes [simp, bytes_simps]: "length (le_bytes n v) = n"
  by (induction n arbitrary: v) auto

lemma length_host_bytes [simp, bytes_simps]: "length (host_bytes be n v) = n"
  by (simp add: host_bytes_def)

lemma pow256: "(2::nat) ^ (8 * Suc n) = 256 * 2 ^ (8 * n)"
  by (simp add: power_add)

lemma le_val_le_bytes [simp, bytes_simps]: "le_val (le_bytes n v) = v mod 2 ^ (8 * n)"
proof (induction n arbitrary: v)
  case (Suc n)
  have "le_val (le_bytes (Suc n) v) = v mod 256 + 256 * (v div 256 mod 2 ^ (8 * n))"
    using Suc by (simp add: unat_of_nat)
  also have "\<dots> = v mod (256 * 2 ^ (8 * n))"
    by (simp add: mod_mult2_eq)
  finally show ?case by (simp only: pow256)
qed simp

lemma le_val_less [bytes_simps]: "le_val bs < 2 ^ (8 * length bs)"
proof (induction bs)
  case (Cons b bs)
  have "unat b < 256" using unsigned_less [of b] by simp
  moreover have "le_val bs + 1 \<le> 2 ^ (8 * length bs)" using Cons by simp
  ultimately have "unat b + 256 * le_val bs < 256 * 2 ^ (8 * length bs)" by linarith
  then show ?case by (simp only: le_val.simps length_Cons pow256)
qed simp

lemma le_bytes_le_val [simp, bytes_simps]: "length bs = n \<Longrightarrow> le_bytes n (le_val bs) = bs"
proof (induction bs arbitrary: n)
  case (Cons b bs)
  have b: "unat b < 256" using unsigned_less [of b] by simp
  have "(of_nat (unat b + 256 * le_val bs) :: byte) = b"
    using b by (simp only: word_unat_eq_iff unat_of_nat) simp
  then show ?case using Cons b by auto
qed simp

lemma le_bytes_zero [simp]: "le_bytes n 0 = replicate n 0"
  by (induction n) auto

lemma le_val_zero [simp]: "le_val (replicate n 0) = 0"
  by (induction n) auto

lemma inj_le_bytes: "le_bytes n u = le_bytes n v \<Longrightarrow> u < 2 ^ (8 * n) \<Longrightarrow> v < 2 ^ (8 * n) \<Longrightarrow> u = v"
  by (metis le_val_le_bytes mod_less)

lemma upat_less: "upat n v < 2 ^ (8 * n)"
  by (simp add: upat_def nat_less_iff)

text \<open>Range of the signed integer type of \<open>n\<close> bytes.\<close>

definition srange :: "nat \<Rightarrow> int \<Rightarrow> bool" where
  "srange n v \<longleftrightarrow> - (2 ^ (8 * n - 1)) \<le> v \<and> v < 2 ^ (8 * n - 1)"

lemma spat_upat [bytes_simps]:
  assumes "srange n v" and "0 < n"
  shows "spat n (upat n v) = v"
proof -
  have p: "(2::int) ^ (8 * n) = 2 * 2 ^ (8 * n - 1)"
    using assms(2) by (simp flip: power_Suc)
  show ?thesis
  proof (cases "0 \<le> v")
    case True
    then have "v mod 2 ^ (8 * n) = v"
      using assms(1) p by (simp add: srange_def)
    then show ?thesis
      using True assms(1) by (simp add: upat_def spat_def srange_def nat_less_iff)
  next
    case False
    have "v mod 2 ^ (8 * n) = (v + 2 ^ (8 * n)) mod 2 ^ (8 * n)" by simp
    also have "\<dots> = v + 2 ^ (8 * n)"
      using False assms(1) p by (intro mod_pos_pos_trivial) (auto simp: srange_def)
    finally have m: "v mod 2 ^ (8 * n) = v + 2 ^ (8 * n)" .
    then show ?thesis
      using False assms(1) p by (auto simp: upat_def spat_def srange_def nat_less_iff)
  qed
qed

lemma srange_mono: "srange m v \<Longrightarrow> m \<le> n \<Longrightarrow> srange n v"
proof -
  assume v: "srange m v" and "m \<le> n"
  then have "(2::int) ^ (8 * m - 1) \<le> 2 ^ (8 * n - 1)"
    by (intro power_increasing) auto
  with v show ?thesis unfolding srange_def by linarith
qed

section \<open>Conversions between the C integer types\<close>

text \<open>Storing a value in an \<open>int\<close> and reading an \<open>int\<close> as a \<open>size_t\<close>.\<close>

definition s32 :: "int \<Rightarrow> int" where
  "s32 x = spat 4 (upat 4 x)"

definition usize :: "int \<Rightarrow> nat" where
  "usize x = upat 8 x"

lemma s32_id [crange]: "- (2 ^ 31) \<le> x \<Longrightarrow> x < 2 ^ 31 \<Longrightarrow> s32 x = x"
  using spat_upat [of 4 x] by (simp add: s32_def srange_def)

lemma usize_id [crange]: "0 \<le> x \<Longrightarrow> x < 2 ^ 63 \<Longrightarrow> usize x = nat x"
  by (simp add: usize_def upat_def)

lemma mread_bind [simp]:
  "0 \<le> off \<Longrightarrow> off + int n \<le> int (length m) \<Longrightarrow> mread m off n = Some (take n (drop (nat off) m))"
  by (simp add: mread_def)

lemma mwrite_bind [simp]:
  "0 \<le> off \<Longrightarrow> off + int (length src) \<le> int (length m) \<Longrightarrow>
   mwrite m off src = Some (take (nat off) m @ src @ drop (nat off + length src) m)"
  by (simp add: mwrite_def)

end
