(* ===== verification/Endian.thy ===== *)
theory Endian
  imports Prelude
begin

text \<open>
  \<^verbatim>\<open>endianconv.c\<close> and \<^verbatim>\<open>endianconv.h\<close>: byte swapping of the integer a pointer refers to, and
  the \<open>ifbe\<close> variants, which the preprocessor turns into the swap on a big endian host and into
  nothing on a little endian one. The host byte order is a parameter \<open>be\<close>. The lemmas show that
  what the serialised data structures store is the little endian representation on either host.
\<close>

definition memrev16 :: "bytes \<Rightarrow> bytes" where
  "memrev16 x = (let t = x ! 0; x = x[0 := x ! 1]; x = x[1 := t] in x)"

definition memrev32 :: "bytes \<Rightarrow> bytes" where
  "memrev32 x =
     (let t = x ! 0; x = x[0 := x ! 3]; x = x[3 := t];
          t = x ! 1; x = x[1 := x ! 2]; x = x[2 := t] in x)"

definition memrev64 :: "bytes \<Rightarrow> bytes" where
  "memrev64 x =
     (let t = x ! 0; x = x[0 := x ! 7]; x = x[7 := t];
          t = x ! 1; x = x[1 := x ! 6]; x = x[6 := t];
          t = x ! 2; x = x[2 := x ! 5]; x = x[5 := t];
          t = x ! 3; x = x[3 := x ! 4]; x = x[4 := t] in x)"

definition intrev16 :: "bool \<Rightarrow> 16 word \<Rightarrow> 16 word" where
  "intrev16 be v = of_nat (host_val be (memrev16 (host_bytes be 2 (unat v))))"

definition intrev32 :: "bool \<Rightarrow> 32 word \<Rightarrow> 32 word" where
  "intrev32 be v = of_nat (host_val be (memrev32 (host_bytes be 4 (unat v))))"

definition intrev64 :: "bool \<Rightarrow> 64 word \<Rightarrow> 64 word" where
  "intrev64 be v = of_nat (host_val be (memrev64 (host_bytes be 8 (unat v))))"

definition memrev16ifbe :: "bool \<Rightarrow> bytes \<Rightarrow> bytes" where
  "memrev16ifbe be p = (if be then memrev16 p else p)"

definition memrev32ifbe :: "bool \<Rightarrow> bytes \<Rightarrow> bytes" where
  "memrev32ifbe be p = (if be then memrev32 p else p)"

definition memrev64ifbe :: "bool \<Rightarrow> bytes \<Rightarrow> bytes" where
  "memrev64ifbe be p = (if be then memrev64 p else p)"

definition intrev32ifbe :: "bool \<Rightarrow> 32 word \<Rightarrow> 32 word" where
  "intrev32ifbe be v = (if be then intrev32 be v else v)"

definition intrev64ifbe :: "bool \<Rightarrow> 64 word \<Rightarrow> 64 word" where
  "intrev64ifbe be v = (if be then intrev64 be v else v)"

section \<open>The swaps are reversals\<close>

lemma memrev16_rev: "length x = 2 \<Longrightarrow> memrev16 x = rev x"
  by (auto simp: numeral_eq_Suc length_Suc_conv memrev16_def)

lemma memrev32_rev: "length x = 4 \<Longrightarrow> memrev32 x = rev x"
  by (auto simp: numeral_eq_Suc length_Suc_conv memrev32_def)

lemma memrev64_rev: "length x = 8 \<Longrightarrow> memrev64 x = rev x"
  by (auto simp: numeral_eq_Suc length_Suc_conv memrev64_def)

lemmas memrev_rev = memrev16_rev memrev32_rev memrev64_rev

lemma memrevifbe_load [bytes_simps]:
  "length x = 2 \<Longrightarrow> host_val be (memrev16ifbe be x) = le_val x"
  "length x = 4 \<Longrightarrow> host_val be (memrev32ifbe be x) = le_val x"
  "length x = 8 \<Longrightarrow> host_val be (memrev64ifbe be x) = le_val x"
  by (simp_all add: memrev16ifbe_def memrev32ifbe_def memrev64ifbe_def host_val_def memrev_rev)

lemma memrevifbe_store [bytes_simps]:
  "memrev16ifbe be (host_bytes be 2 v) = le_bytes 2 v"
  "memrev32ifbe be (host_bytes be 4 v) = le_bytes 4 v"
  "memrev64ifbe be (host_bytes be 8 v) = le_bytes 8 v"
  by (simp_all add: memrev16ifbe_def memrev32ifbe_def memrev64ifbe_def host_bytes_def memrev_rev)

section \<open>Swapping a value twice gives the value\<close>

lemma host_val_bytes: "host_val be (host_bytes be n v) = v mod 2 ^ (8 * n)"
  by (simp add: host_val_def host_bytes_def)

lemma host_bytes_val: "length bs = n \<Longrightarrow> host_bytes be n (host_val be bs) = bs"
  by (simp add: host_val_def host_bytes_def)

lemma host_val_less: "length bs = n \<Longrightarrow> host_val be bs < 2 ^ (8 * n)"
  using le_val_less [of "if be then rev bs else bs"] by (auto simp: host_val_def)

lemma intrev32_bytes: "host_bytes be 4 (unat (intrev32 be v)) = rev (host_bytes be 4 (unat v))"
proof -
  let ?x = "rev (host_bytes be 4 (unat v))"
  have "host_val be ?x < 2 ^ 32"
    using host_val_less [of ?x 4 be] by simp
  then have "unat (intrev32 be v) = host_val be ?x"
    by (simp add: intrev32_def memrev_rev unat_of_nat)
  then show ?thesis by (simp add: host_bytes_val)
qed

lemma intrev32_invol [simp]: "intrev32 be (intrev32 be v) = v"
proof -
  have "unat v < 2 ^ 32" using unsigned_less [of v] by simp
  then have "host_val be (rev (rev (host_bytes be 4 (unat v)))) = unat v"
    by (simp add: host_val_bytes)
  moreover have "intrev32 be (intrev32 be v) =
      of_nat (host_val be (rev (host_bytes be 4 (unat (intrev32 be v)))))"
    by (simp add: intrev32_def [of be "intrev32 be v"] memrev_rev)
  ultimately show ?thesis by (simp add: intrev32_bytes)
qed

lemma intrev32ifbe_invol [simp]: "intrev32ifbe be (intrev32ifbe be v) = v"
  by (simp add: intrev32ifbe_def)

lemma intrev32ifbe_0 [simp]: "intrev32ifbe be 0 = 0"
  by (simp add: intrev32ifbe_def intrev32_def memrev_rev host_val_def host_bytes_def)

text \<open>In memory, the swapped field is the little endian representation on either host.\<close>

lemma intrev32ifbe_bytes: "host_bytes be 4 (unat (intrev32ifbe be v)) = le_bytes 4 (unat v)"
  by (simp add: intrev32ifbe_def intrev32_bytes) (simp add: host_bytes_def)

end
