(* ===== verification/Set_Spec.thy ===== *)
theory Set_Spec
  imports Prelude
begin

text \<open>
  The contract of a set container as its clients use it: an abstraction to a mathematical set, an
  invariant, and partial operations that return \<^term>\<open>None\<close> where the code would leave its
  allocation. \<open>ok\<close> are the values the container can hold and \<open>cap\<close> the number of members up to
  which its machine arithmetic is exact. The lemmas of the locale are about whole histories of
  operations.
\<close>

datatype 'a set_op = SAdd 'a | SRem 'a

fun op_val :: "'a set_op \<Rightarrow> 'a" where
  "op_val (SAdd v) = v"
| "op_val (SRem v) = v"

text \<open>A history on the container, with the flag each operation reports, and on a set.\<close>

fun run_ops ::
  "('s \<Rightarrow> 'a \<Rightarrow> ('s \<times> bool) option) \<Rightarrow> ('s \<Rightarrow> 'a \<Rightarrow> ('s \<times> bool) option) \<Rightarrow> 's \<Rightarrow> 'a set_op list
   \<Rightarrow> ('s \<times> bool list) option" where
  "run_ops add rem s [] = Some (s, [])"
| "run_ops add rem s (SAdd v # ops) = do {
     (s, b) \<leftarrow> add s v; (s, bs) \<leftarrow> run_ops add rem s ops; Some (s, b # bs) }"
| "run_ops add rem s (SRem v # ops) = do {
     (s, b) \<leftarrow> rem s v; (s, bs) \<leftarrow> run_ops add rem s ops; Some (s, b # bs) }"

fun spec_ops :: "'a set \<Rightarrow> 'a set_op list \<Rightarrow> 'a set \<times> bool list" where
  "spec_ops S [] = (S, [])"
| "spec_ops S (SAdd v # ops) =
     (let (S', bs) = spec_ops (insert v S) ops in (S', (v \<notin> S) # bs))"
| "spec_ops S (SRem v # ops) =
     (let (S', bs) = spec_ops (S - {v}) ops in (S', (v \<in> S) # bs))"

locale set_impl =
  fixes inv :: "'s \<Rightarrow> bool" and abs :: "'s \<Rightarrow> 'a set"
    and ok :: "'a \<Rightarrow> bool" and cap :: nat
    and add :: "'s \<Rightarrow> 'a \<Rightarrow> ('s \<times> bool) option"
    and rem :: "'s \<Rightarrow> 'a \<Rightarrow> ('s \<times> bool) option"
    and mem :: "'s \<Rightarrow> 'a \<Rightarrow> bool option"
  assumes add_spec: "inv s \<Longrightarrow> ok v \<Longrightarrow> card (abs s) + 1 < cap \<Longrightarrow>
      \<exists>s'. add s v = Some (s', v \<notin> abs s) \<and> inv s' \<and> abs s' = insert v (abs s)"
    and rem_spec: "inv s \<Longrightarrow> ok v \<Longrightarrow>
      \<exists>s'. rem s v = Some (s', v \<in> abs s) \<and> inv s' \<and> abs s' = abs s - {v}"
    and mem_spec: "inv s \<Longrightarrow> ok v \<Longrightarrow> mem s v = Some (v \<in> abs s)"
    and abs_finite: "inv s \<Longrightarrow> finite (abs s)"
begin

lemma run_ops_refines:
  assumes "inv s" and "\<forall>x \<in> set ops. ok (op_val x)"
    and "card (abs s) + length ops < cap"
  shows "\<exists>s'. run_ops add rem s ops = Some (s', snd (spec_ops (abs s) ops)) \<and>
     inv s' \<and> abs s' = fst (spec_ops (abs s) ops)"
  using assms
proof (induction ops arbitrary: s)
  case Nil
  then show ?case by simp
next
  case (Cons x ops)
  show ?case
  proof (cases x)
    case (SAdd v)
    with Cons.prems add_spec [of s v] obtain s' where
      s': "add s v = Some (s', v \<notin> abs s)" "inv s'" "abs s' = insert v (abs s)" by auto
    have "card (abs s') \<le> card (abs s) + 1"
      using s'(3) abs_finite Cons.prems(1) by (simp add: card_insert_if)
    with Cons.IH [of s'] Cons.prems s' SAdd show ?thesis by (auto simp: split_beta)
  next
    case (SRem v)
    with Cons.prems rem_spec [of s v] obtain s' where
      s': "rem s v = Some (s', v \<in> abs s)" "inv s'" "abs s' = abs s - {v}" by auto
    have "card (abs s') \<le> card (abs s)"
      using s'(3) by (simp add: card_Diff1_le)
    with Cons.IH [of s'] Cons.prems s' SRem show ?thesis by (auto simp: split_beta)
  qed
qed

lemma mem_after_add:
  assumes "inv s" "ok v" "ok w" "card (abs s) + 1 < cap" "add s v = Some (s', b)"
  shows "mem s' w = Some (w = v \<or> w \<in> abs s)"
  using add_spec [of s v] mem_spec [of s' w] assms by auto

lemma mem_after_rem:
  assumes "inv s" "ok v" "ok w" "rem s v = Some (s', b)"
  shows "mem s' w = Some (w \<noteq> v \<and> w \<in> abs s)"
  using rem_spec [of s v] mem_spec [of s' w] assms by auto

end

end
