(* ===== verification/Intset.thy ===== *)
theory Intset
  imports Endian Set_Spec
begin

text \<open>
  \<^verbatim>\<open>intset.c\<close>, \<^verbatim>\<open>intset.h\<close>: a set of 64 bit signed integers as a sorted array of 16, 32 or 64
  bit integers behind an eight byte header. The header fields and the array are kept little
  endian in memory on every host (\<open>intrev32ifbe\<close>, \<open>memrev*ifbe\<close>); \<open>be\<close> is the byte order of the
  host. Reads and writes of the array go through the checked memory of Prelude. C's \<open>int\<close> and
  \<open>int64_t\<close> locals are \<^typ>\<open>int\<close>; \<open>search_indices_in_int_range\<close> shows that the indices stay
  in the range of \<open>int\<close> for the sizes the theorems admit. The array slots added by
  \<open>zrealloc\<close> are unspecified (\<open>junk\<close>). Allocation failure aborts the process and is not modelled.
\<close>

record intset =
  encoding :: "32 word"
  ilength :: "32 word"
  contents :: bytes

definition INTSET_ENC_INT16 :: nat where "INTSET_ENC_INT16 = 2"
definition INTSET_ENC_INT32 :: nat where "INTSET_ENC_INT32 = 4"
definition INTSET_ENC_INT64 :: nat where "INTSET_ENC_INT64 = 8"

lemmas enc_defs = INTSET_ENC_INT16_def INTSET_ENC_INT32_def INTSET_ENC_INT64_def

definition intsetValueEncoding :: "int \<Rightarrow> nat" where
  "intsetValueEncoding v =
     (if v < - (2 ^ 31) \<or> v > 2 ^ 31 - 1 then INTSET_ENC_INT64
      else if v < - (2 ^ 15) \<or> v > 2 ^ 15 - 1 then INTSET_ENC_INT32
      else INTSET_ENC_INT16)"

text \<open>The fields read back through \<open>intrev32ifbe\<close>.\<close>

definition is_enc :: "bool \<Rightarrow> intset \<Rightarrow> nat" where
  "is_enc be is = unat (intrev32ifbe be (encoding is))"

definition is_len :: "bool \<Rightarrow> intset \<Rightarrow> nat" where
  "is_len be is = unat (intrev32ifbe be (ilength is))"

definition intsetGetEncoded :: "bool \<Rightarrow> intset \<Rightarrow> int \<Rightarrow> nat \<Rightarrow> int option" where
  "intsetGetEncoded be is pos enc =
     (if enc = INTSET_ENC_INT64 then do {
        v64 \<leftarrow> mread (contents is) (8 * pos) 8;
        Some (spat 8 (host_val be (memrev64ifbe be v64))) }
      else if enc = INTSET_ENC_INT32 then do {
        v32 \<leftarrow> mread (contents is) (4 * pos) 4;
        Some (spat 4 (host_val be (memrev32ifbe be v32))) }
      else do {
        v16 \<leftarrow> mread (contents is) (2 * pos) 2;
        Some (spat 2 (host_val be (memrev16ifbe be v16))) })"

definition intsetGet_at :: "bool \<Rightarrow> intset \<Rightarrow> int \<Rightarrow> int option" where
  "intsetGet_at be is pos = intsetGetEncoded be is pos (is_enc be is)"

text \<open>A store through an integer pointer truncates the value to the element type; the slot is
  then swapped in place on a big endian host.\<close>

definition intsetSet :: "bool \<Rightarrow> intset \<Rightarrow> int \<Rightarrow> int \<Rightarrow> intset option" where
  "intsetSet be is pos value =
     (if is_enc be is = INTSET_ENC_INT64 then do {
        c \<leftarrow> mwrite (contents is) (8 * pos) (host_bytes be 8 (upat 8 value));
        slot \<leftarrow> mread c (8 * pos) 8;
        c \<leftarrow> mwrite c (8 * pos) (memrev64ifbe be slot);
        Some (is\<lparr>contents := c\<rparr>) }
      else if is_enc be is = INTSET_ENC_INT32 then do {
        c \<leftarrow> mwrite (contents is) (4 * pos) (host_bytes be 4 (upat 4 value));
        slot \<leftarrow> mread c (4 * pos) 4;
        c \<leftarrow> mwrite c (4 * pos) (memrev32ifbe be slot);
        Some (is\<lparr>contents := c\<rparr>) }
      else do {
        c \<leftarrow> mwrite (contents is) (2 * pos) (host_bytes be 2 (upat 2 value));
        slot \<leftarrow> mread c (2 * pos) 2;
        c \<leftarrow> mwrite c (2 * pos) (memrev16ifbe be slot);
        Some (is\<lparr>contents := c\<rparr>) })"

definition intsetNew :: "bool \<Rightarrow> intset" where
  "intsetNew be =
     \<lparr>encoding = intrev32ifbe be (of_nat INTSET_ENC_INT16), ilength = 0, contents = []\<rparr>"

text \<open>\<open>size\<close> is a \<open>uint32_t\<close>: the product wraps around.\<close>

definition intsetResize :: "(nat \<Rightarrow> byte) \<Rightarrow> bool \<Rightarrow> intset \<Rightarrow> 32 word \<Rightarrow> intset" where
  "intsetResize junk be is len =
     (let size = len * intrev32ifbe be (encoding is)
      in is\<lparr>contents := zrealloc junk (contents is) (unat size)\<rparr>)"

text \<open>The loop of \<open>intsetSearch\<close>: it returns the final \<open>min\<close>, \<open>mid\<close> and \<open>cur\<close>. Both
  operands of \<open>(min+max)/2\<close> are non-negative there, so the division of C is \<open>div\<close>.\<close>

function intsetSearch_loop ::
  "bool \<Rightarrow> intset \<Rightarrow> int \<Rightarrow> int \<Rightarrow> int \<Rightarrow> int \<Rightarrow> int \<Rightarrow> (int \<times> int \<times> int) option" where
  "intsetSearch_loop be is value mn mx mid cur =
     (if mx \<ge> mn then
        (let mid = (mn + mx) div 2 in
         case intsetGet_at be is mid of
           None \<Rightarrow> None
         | Some cur \<Rightarrow>
             if value > cur then intsetSearch_loop be is value (mid + 1) mx mid cur
             else if value < cur then intsetSearch_loop be is value mn (mid - 1) mid cur
             else Some (mn, mid, cur))
      else Some (mn, mid, cur))"
  by pat_completeness auto
termination
  by (relation "measure (\<lambda>(be, is, value, mn, mx, mid, cur). nat (mx - mn + 1))") auto

declare intsetSearch_loop.simps [simp del]

text \<open>The result of \<open>intsetSearch\<close> with the value it stores through \<open>pos\<close>.\<close>

definition intsetSearch :: "bool \<Rightarrow> intset \<Rightarrow> int \<Rightarrow> (bool \<times> int) option" where
  "intsetSearch be is value =
     (let len = int (is_len be is) in
      if len = 0 then Some (False, 0)
      else do {
        lst \<leftarrow> intsetGet_at be is (len - 1);
        if value > lst then Some (False, len)
        else do {
          fst0 \<leftarrow> intsetGet_at be is 0;
          if value < fst0 then Some (False, 0)
          else do {
            (mn, mid, cur) \<leftarrow> intsetSearch_loop be is value 0 (len - 1) (-1) (-1);
            Some (if value = cur then (True, mid) else (False, mn)) } } })"

text \<open>\<open>while(length--)\<close> of \<open>intsetUpgradeAndAdd\<close>.\<close>

fun intsetUpgrade_loop :: "bool \<Rightarrow> intset \<Rightarrow> nat \<Rightarrow> int \<Rightarrow> nat \<Rightarrow> intset option" where
  "intsetUpgrade_loop be is 0 prepend curenc = Some is"
| "intsetUpgrade_loop be is (Suc n) prepend curenc = do {
     v \<leftarrow> intsetGetEncoded be is (int n) curenc;
     is \<leftarrow> intsetSet be is (int n + prepend) v;
     intsetUpgrade_loop be is n prepend curenc }"

definition intsetUpgradeAndAdd ::
  "(nat \<Rightarrow> byte) \<Rightarrow> bool \<Rightarrow> intset \<Rightarrow> int \<Rightarrow> intset option" where
  "intsetUpgradeAndAdd junk be is value =
     (let curenc = is_enc be is;
          newenc = intsetValueEncoding value;
          len = is_len be is;
          prepend = (if value < 0 then 1 else 0);
          is = is\<lparr>encoding := intrev32ifbe be (of_nat newenc)\<rparr>;
          is = intsetResize junk be is (intrev32ifbe be (ilength is) + 1)
      in do {
        is \<leftarrow> intsetUpgrade_loop be is len prepend curenc;
        is \<leftarrow> (if prepend \<noteq> 0 then intsetSet be is 0 value
               else intsetSet be is (int (is_len be is)) value);
        Some (is\<lparr>ilength := intrev32ifbe be (intrev32ifbe be (ilength is) + 1)\<rparr>) })"

definition intsetMoveTail :: "bool \<Rightarrow> intset \<Rightarrow> 32 word \<Rightarrow> 32 word \<Rightarrow> intset option" where
  "intsetMoveTail be is from to =
     (let bytes = intrev32ifbe be (ilength is) - from;
          encoding = is_enc be is in
      do {
        c \<leftarrow> (if encoding = INTSET_ENC_INT64 then
                memmove (contents is) (8 * uint to) (8 * uint from) (unat (bytes * 8))
              else if encoding = INTSET_ENC_INT32 then
                memmove (contents is) (4 * uint to) (4 * uint from) (unat (bytes * 4))
              else
                memmove (contents is) (2 * uint to) (2 * uint from) (unat (bytes * 2)));
        Some (is\<lparr>contents := c\<rparr>) })"

text \<open>The set after the call and the value stored through \<open>success\<close>. \<open>pos\<close> is the
  \<open>uint32_t\<close> local the search fills in.\<close>

definition intsetAdd ::
  "(nat \<Rightarrow> byte) \<Rightarrow> bool \<Rightarrow> intset \<Rightarrow> int \<Rightarrow> (intset \<times> bool) option" where
  "intsetAdd junk be is value =
     (if intsetValueEncoding value > is_enc be is then do {
        is \<leftarrow> intsetUpgradeAndAdd junk be is value;
        Some (is, True) }
      else do {
        (found, p) \<leftarrow> intsetSearch be is value;
        if found then Some (is, False)
        else let pos = (of_int p :: 32 word);
                 is = intsetResize junk be is (intrev32ifbe be (ilength is) + 1)
             in do {
               is \<leftarrow> (if pos < intrev32ifbe be (ilength is)
                      then intsetMoveTail be is pos (pos + 1) else Some is);
               is \<leftarrow> intsetSet be is (uint pos) value;
               Some (is\<lparr>ilength := intrev32ifbe be (intrev32ifbe be (ilength is) + 1)\<rparr>, True) } })"

definition intsetRemove ::
  "(nat \<Rightarrow> byte) \<Rightarrow> bool \<Rightarrow> intset \<Rightarrow> int \<Rightarrow> (intset \<times> bool) option" where
  "intsetRemove junk be is value =
     (if intsetValueEncoding value \<le> is_enc be is then do {
        (found, p) \<leftarrow> intsetSearch be is value;
        if found then
          let pos = (of_int p :: 32 word);
              len = intrev32ifbe be (ilength is)
          in do {
            is \<leftarrow> (if pos < len - 1 then intsetMoveTail be is (pos + 1) pos else Some is);
            Some ((intsetResize junk be is (len - 1))\<lparr>ilength := intrev32ifbe be (len - 1)\<rparr>, True) }
        else Some (is, False) }
      else Some (is, False))"

definition intsetFind :: "bool \<Rightarrow> intset \<Rightarrow> int \<Rightarrow> bool option" where
  "intsetFind be is value =
     (if intsetValueEncoding value \<le> is_enc be is
      then map_option fst (intsetSearch be is value) else Some False)"

text \<open>\<open>rand()\<close> is the parameter \<open>r\<close>; the remainder by an empty set's length traps.\<close>

definition intsetRandom :: "bool \<Rightarrow> intset \<Rightarrow> nat \<Rightarrow> int option" where
  "intsetRandom be is r =
     (if is_len be is = 0 then None else intsetGet_at be is (int (r mod is_len be is)))"

definition intsetGet :: "bool \<Rightarrow> intset \<Rightarrow> nat \<Rightarrow> int option option" where
  "intsetGet be is pos =
     (if pos < is_len be is then map_option Some (intsetGet_at be is (int pos)) else Some None)"

definition intsetLen :: "bool \<Rightarrow> intset \<Rightarrow> nat" where
  "intsetLen be is = is_len be is"

text \<open>The product of the two \<open>uint32_t\<close> fields wraps before it is added to the header size.\<close>

definition intsetBlobLen :: "bool \<Rightarrow> intset \<Rightarrow> nat" where
  "intsetBlobLen be is =
     8 + unat (intrev32ifbe be (ilength is) * intrev32ifbe be (encoding is))"

section \<open>What an intset represents\<close>

text \<open>The bytes of the array, element by element, and the relation between an intset in memory
  and the list of its members. An element count below \<open>2 ^ 28\<close> keeps every \<open>int\<close> index and
  every \<open>uint32_t\<close> byte count of the code in range, at any encoding.\<close>

definition enc_elem :: "nat \<Rightarrow> int \<Rightarrow> bytes" where
  "enc_elem e v = le_bytes e (upat e v)"

definition enc_all :: "nat \<Rightarrow> int list \<Rightarrow> bytes" where
  "enc_all e xs = concat (map (enc_elem e) xs)"

definition intset_max :: nat where "intset_max = 2 ^ 28"

definition intset_rep :: "bool \<Rightarrow> intset \<Rightarrow> int list \<Rightarrow> bool" where
  "intset_rep be is xs \<longleftrightarrow>
     is_enc be is \<in> {INTSET_ENC_INT16, INTSET_ENC_INT32, INTSET_ENC_INT64} \<and>
     is_len be is = length xs \<and> length xs < intset_max \<and>
     contents is = enc_all (is_enc be is) xs \<and>
     (\<forall>x \<in> set xs. srange (is_enc be is) x) \<and> sorted_wrt (<) xs"

lemma length_enc_elem [simp]: "length (enc_elem e v) = e"
  by (simp add: enc_elem_def)

lemma length_enc_all [simp]: "length (enc_all e xs) = e * length xs"
  by (induction xs) (auto simp: enc_all_def)

lemma enc_all_simps [simp]:
  "enc_all e [] = []"
  "enc_all e (x # xs) = enc_elem e x @ enc_all e xs"
  "enc_all e (xs @ ys) = enc_all e xs @ enc_all e ys"
  by (simp_all add: enc_all_def)

lemma enc_all_split:
  "i < length xs \<Longrightarrow>
   enc_all e xs = enc_all e (take i xs) @ enc_elem e (xs ! i) @ enc_all e (drop (Suc i) xs)"
  by (metis Cons_nth_drop_Suc append_take_drop_id enc_all_simps(2,3))

section \<open>Element access\<close>

lemma intsetGetEncoded_slot:
  assumes "e \<in> {2, 4, 8}" and "srange e v"
    and "contents is = a @ enc_elem e v @ b" and "length a = e * i"
  shows "intsetGetEncoded be is (int i) e = Some v"
proof -
  have "mread (contents is) (int e * int i) e = Some (enc_elem e v)"
    using assms(3,4) mread_app [of a "enc_elem e v" b] by simp
  moreover have "spat e (le_val (enc_elem e v)) = v"
    using assms(1,2) spat_upat [of e v] upat_less [of e v] by (auto simp: enc_elem_def)
  ultimately show ?thesis
    using assms(1) by (auto simp: intsetGetEncoded_def enc_defs memrevifbe_load)
qed

lemma intsetSet_slot:
  assumes "is_enc be is = e" and "e \<in> {2, 4, 8}"
    and "contents is = a @ s @ b" and "length s = e" and "length a = e * i"
  shows "intsetSet be is (int i) v = Some (is\<lparr>contents := a @ enc_elem e v @ b\<rparr>)"
proof -
  have w: "mwrite (a @ t @ b) (int e * int i) t' = Some (a @ t' @ b)"
    if "length t = e" "length t' = e" for t t'
    using that assms(5) mwrite_app [of t' t a b] by simp
  have r: "mread (a @ t @ b) (int e * int i) e = Some t" if "length t = e" for t
    using that assms(5) mread_app [of a t b] by simp
  have "e = 2 \<or> e = 4 \<or> e = 8" using assms(2) by auto
  then show ?thesis
    using assms(1,3,4) w r
    by (elim disjE) (auto simp: intsetSet_def enc_defs memrevifbe_store enc_elem_def)
qed

lemma intset_rep_get:
  assumes "intset_rep be is xs" and "i < length xs"
  shows "intsetGet_at be is (int i) = Some (xs ! i)"
  unfolding intsetGet_at_def
  by (rule intsetGetEncoded_slot [OF _ _ _ _, where a = "enc_all (is_enc be is) (take i xs)"
        and b = "enc_all (is_enc be is) (drop (Suc i) xs)"])
     (use assms in \<open>auto simp: intset_rep_def enc_defs enc_all_split min_def\<close>)

section \<open>Binary search\<close>

text \<open>The position the search computes: how many members are smaller.\<close>

definition lbi :: "int \<Rightarrow> int list \<Rightarrow> nat" where
  "lbi v xs = length (takeWhile (\<lambda>x. x < v) xs)"

lemma lbi_le: "lbi v xs \<le> length xs"
  by (simp add: lbi_def length_takeWhile_le)

lemma nth_less_lbi:
  "sorted_wrt (<) xs \<Longrightarrow> i < length xs \<Longrightarrow> xs ! i < v \<longleftrightarrow> i < lbi v xs"
proof (induction xs arbitrary: i)
  case (Cons x xs)
  have le: "x \<le> (x # xs) ! i"
    using Cons.prems by (cases i) (auto dest!: nth_mem)
  show ?case
  proof (cases "x < v")
    case True
    with Cons show ?thesis by (cases i) (auto simp: lbi_def)
  next
    case False
    with le have "\<not> (x # xs) ! i < v" by linarith
    with False show ?thesis by (simp add: lbi_def)
  qed
qed simp

lemma nth_lbi: "sorted_wrt (<) xs \<Longrightarrow> v \<in> set xs \<Longrightarrow> lbi v xs < length xs \<and> xs ! lbi v xs = v"
  by (induction xs) (auto simp: lbi_def)

lemma lbi_unique:
  assumes "sorted_wrt (<) xs" "i < length xs" "xs ! i = v"
  shows "lbi v xs = i"
proof -
  have "v \<in> set xs" using assms(2,3) by auto
  with assms(1) have l: "lbi v xs < length xs" "xs ! lbi v xs = v" by (auto dest: nth_lbi)
  show ?thesis
    using assms l by (metis less_irrefl linorder_neqE_nat sorted_wrt_nth_less)
qed

lemma takeWhile_lbi: "take (lbi v xs) xs = takeWhile (\<lambda>x. x < v) xs"
  and dropWhile_lbi: "drop (lbi v xs) xs = dropWhile (\<lambda>x. x < v) xs"
  by (simp_all add: lbi_def takeWhile_eq_take [symmetric] dropWhile_eq_drop [symmetric])

lemma insort_lbi: "insort v xs = take (lbi v xs) xs @ v # drop (lbi v xs) xs"
  unfolding takeWhile_lbi dropWhile_lbi by (induction xs) auto

lemma remove1_lbi:
  "sorted_wrt (<) xs \<Longrightarrow> v \<in> set xs \<Longrightarrow>
   remove1 v xs = take (lbi v xs) xs @ drop (Suc (lbi v xs)) xs"
  by (induction xs) (auto simp: lbi_def)

lemma intsetSearch_loop_correct:
  assumes "intset_rep be is xs" and "0 \<le> mn" and "mx < int (length xs)"
    and "mn \<le> int (lbi v xs)" and "int (lbi v xs) \<le> mx + 1"
    and "v \<in> set xs \<Longrightarrow> int (lbi v xs) \<le> mx" and "mx < mn \<Longrightarrow> cur \<noteq> v"
  shows "\<exists>mn' mid' cur'. intsetSearch_loop be is v mn mx mid cur = Some (mn', mid', cur') \<and>
     (if v \<in> set xs then cur' = v \<and> mid' = int (lbi v xs) else cur' \<noteq> v \<and> mn' = int (lbi v xs))"
  using assms
proof (induction be "is" v mn mx mid cur rule: intsetSearch_loop.induct)
  case (1 be "is" v mn mx mid cur)
  note rep = "1.prems"(1)
  have srt: "sorted_wrt (<) xs" using rep by (simp add: intset_rep_def)
  show ?case
  proof (cases "mn \<le> mx")
    case False
    then have "v \<notin> set xs" and "cur \<noteq> v" and "mn = int (lbi v xs)"
      using "1.prems" by linarith+
    with False show ?thesis by (simp add: intsetSearch_loop.simps)
  next
    case True
    define m where "m = (mn + mx) div 2"
    have m: "0 \<le> m" "mn \<le> m" "m \<le> mx" "nat m < length xs"
      using True "1.prems" by (auto simp: m_def)
    define c where "c = xs ! nat m"
    have get: "intsetGet_at be is m = Some c"
      using intset_rep_get [OF rep m(4)] m(1) by (simp add: c_def)
    have unf: "intsetSearch_loop be is v mn mx mid cur =
       (if v > c then intsetSearch_loop be is v (m + 1) mx m c
        else if v < c then intsetSearch_loop be is v mn (m - 1) m c else Some (mn, m, c))"
      using True get by (subst intsetSearch_loop.simps) (simp add: m_def Let_def)
    have cl: "c < v \<longleftrightarrow> m < int (lbi v xs)"
      using nth_less_lbi [OF srt m(4), of v] m(1) by (auto simp: c_def)
    have ce: "c = v \<Longrightarrow> int (lbi v xs) = m \<and> v \<in> set xs"
      using lbi_unique [OF srt m(4)] m(1,4) by (auto simp: c_def)
    have cn: "v \<in> set xs \<Longrightarrow> int (lbi v xs) = m \<Longrightarrow> c = v"
      using nth_lbi [OF srt] m(1) by (auto simp: c_def)
    consider "c < v" | "v < c" | "c = v" by linarith
    then show ?thesis
    proof cases
      case 1
      then have eq: "intsetSearch_loop be is v mn mx mid cur =
          intsetSearch_loop be is v (m + 1) mx m c" using unf by simp
      show ?thesis unfolding eq
        by (rule "1.IH"(1) [OF True m_def get 1 rep]) (use "1.prems" m cl 1 in auto)
    next
      case 2
      then have eq: "intsetSearch_loop be is v mn mx mid cur =
          intsetSearch_loop be is v mn (m - 1) m c" using unf by simp
      have lm: "\<not> m < int (lbi v xs)" using cl 2 by simp
      show ?thesis unfolding eq
        by (rule "1.IH"(2) [OF True m_def get _ 2 rep]) (use "1.prems" m lm cn 2 in force)+
    next
      case 3
      with unf ce show ?thesis by auto
    qed
  qed
qed

lemma intsetSearch_correct:
  assumes rep: "intset_rep be is xs"
  shows "intsetSearch be is v = Some (v \<in> set xs, int (lbi v xs))"
proof (cases "xs = []")
  case True
  with rep show ?thesis by (simp add: intsetSearch_def intset_rep_def lbi_def)
next
  case False
  define n where "n = length xs"
  have n: "0 < n" "is_len be is = n" and srt: "sorted_wrt (<) xs"
    using False rep by (auto simp: n_def intset_rep_def)
  have lst: "intsetGet_at be is (int n - 1) = Some (xs ! (n - 1))"
    using intset_rep_get [OF rep, of "n - 1"] n(1) by (simp add: n_def int_ops)
  have hd0: "intsetGet_at be is 0 = Some (xs ! 0)"
    using intset_rep_get [OF rep, of 0] n(1) by (simp add: n_def)
  have l: "v > xs ! (n - 1) \<longleftrightarrow> n - 1 < lbi v xs"
    using nth_less_lbi [OF srt, of "n - 1" v] n(1) by (simp add: n_def)
  have mem: "v \<in> set xs \<Longrightarrow> lbi v xs < n \<and> xs ! lbi v xs = v"
    using nth_lbi [OF srt] by (simp add: n_def)
  have z: "v < xs ! 0 \<Longrightarrow> lbi v xs = 0 \<and> v \<notin> set xs"
    using nth_less_lbi [OF srt, of 0 v] mem n(1) by (force simp: n_def)
  have le: "lbi v xs \<le> n" by (simp add: n_def lbi_le)
  consider "v > xs ! (n - 1)" | "\<not> v > xs ! (n - 1)" "v < xs ! 0"
    | "\<not> v > xs ! (n - 1)" "\<not> v < xs ! 0" by blast
  then show ?thesis
  proof cases
    case 1
    then have "lbi v xs = n" using l le by linarith
    with 1 mem n lst show ?thesis by (auto simp: intsetSearch_def)
  next
    case 2
    with z n lst hd0 show ?thesis by (auto simp: intsetSearch_def)
  next
    case 3
    then have "lbi v xs < n" using l n(1) by linarith
    then obtain mn' mid' cur' where
      "intsetSearch_loop be is v 0 (int n - 1) (-1) (-1) = Some (mn', mid', cur')"
      "if v \<in> set xs then cur' = v \<and> mid' = int (lbi v xs) else cur' \<noteq> v \<and> mn' = int (lbi v xs)"
      using intsetSearch_loop_correct [OF rep, of 0 "int n - 1" v "-1" "-1"] n(1)
      by (auto simp: n_def)
    with 3 n lst hd0 show ?thesis by (auto simp: intsetSearch_def split: if_splits)
  qed
qed

text \<open>The indices of the search stay in the range of \<open>int\<close>: the sum of the two bounds of any
  iteration, which lie between 0 and the element count, does not overflow.\<close>

lemma search_indices_in_int_range:
  assumes "intset_rep be is xs" and "0 \<le> mn" and "mn \<le> mx" and "mx < int (length xs)"
  shows "mn + mx < 2 ^ 31 \<and> 0 \<le> (mn + mx) div 2 \<and> (mn + mx) div 2 < int (length xs)"
  using assms by (auto simp: intset_rep_def intset_max_def)

section \<open>Header fields\<close>

lemma is_enc_simps [simp]:
  "is_enc be (is\<lparr>contents := c\<rparr>) = is_enc be is"
  "is_enc be (is\<lparr>ilength := l\<rparr>) = is_enc be is"
  "is_enc be (is\<lparr>encoding := intrev32ifbe be (of_nat e)\<rparr>) = unat (of_nat e :: 32 word)"
  by (simp_all add: is_enc_def)

lemma is_len_simps [simp]:
  "is_len be (is\<lparr>contents := c\<rparr>) = is_len be is"
  "is_len be (is\<lparr>encoding := e\<rparr>) = is_len be is"
  "is_len be (is\<lparr>ilength := intrev32ifbe be w\<rparr>) = unat w"
  by (simp_all add: is_len_def)

lemma unat_mult_small:
  fixes a b :: "32 word"
  assumes "unat a \<le> intset_max" and "unat b \<le> 8"
  shows "unat (a * b) = unat a * unat b"
proof -
  have "unat a * unat b \<le> 2 ^ 28 * 8"
    using mult_le_mono assms by (fastforce simp: intset_max_def)
  then have "unat a * unat b < 2 ^ LENGTH(32)" by simp
  then show ?thesis using unat_mult_lem by blast
qed

lemma unat_plus1_small:
  fixes a :: "32 word"
  assumes "unat a < intset_max"
  shows "unat (a + 1) = unat a + 1"
proof -
  have "unat a + unat (1 :: 32 word) < 2 ^ LENGTH(32)"
    using assms by (simp add: intset_max_def)
  then show ?thesis using unat_add_lem [of a 1] by simp
qed

lemma intsetResize_contents:
  assumes "unat len \<le> intset_max" and "is_enc be is \<le> 8"
  shows "intsetResize junk be is len =
     is\<lparr>contents := zrealloc junk (contents is) (unat len * is_enc be is)\<rparr>"
  using assms unat_mult_small [of len "intrev32ifbe be (encoding is)"]
  by (simp add: intsetResize_def is_enc_def)

section \<open>Upgrading the encoding\<close>

lemma valueEncoding_cases: "intsetValueEncoding v \<in> {2, 4, 8}"
  by (simp add: intsetValueEncoding_def enc_defs)

lemma valueEncoding_range: "srange 8 v \<Longrightarrow> srange (intsetValueEncoding v) v"
  by (auto simp: intsetValueEncoding_def srange_def enc_defs)

lemma valueEncoding_le: "e \<in> {2, 4, 8} \<Longrightarrow> srange e v \<Longrightarrow> intsetValueEncoding v \<le> e"
  by (auto simp: intsetValueEncoding_def srange_def enc_defs)

lemma valueEncoding_le_srange:
  "srange 8 v \<Longrightarrow> intsetValueEncoding v \<le> e \<Longrightarrow> srange e v"
  using srange_mono valueEncoding_range by blast

text \<open>The loop runs from the last element down, so the slot it writes never covers an element
  it has yet to read.\<close>

lemma intsetUpgrade_loop_correct:
  assumes "is_enc be is = e" and "e \<in> {2, 4, 8}" and "c \<in> {2, 4, 8}" and "c \<le> e"
    and "\<forall>x \<in> set xs. srange c x" and "n \<le> length xs" and "prepend \<le> 1"
    and "contents is = P @ enc_all e (drop n xs) @ T"
    and "length P = e * (n + prepend)" and "take (c * n) P = enc_all c (take n xs)"
  shows "\<exists>P'. intsetUpgrade_loop be is n (int prepend) c =
      Some (is\<lparr>contents := P' @ enc_all e xs @ T\<rparr>) \<and> length P' = e * prepend"
  using assms(1,6,8-)
proof (induction n arbitrary: "is" P)
  case 0
  then show ?case by (intro exI [of _ P]) (cases "is", auto)
next
  case (Suc n)
  have nx: "n < length xs" using Suc.prems by simp
  have ce: "c * Suc n \<le> e * (Suc n + prepend)"
    using assms(4) by (intro mult_le_mono) auto
  have "contents is = enc_all c (take (Suc n) xs) @ drop (c * Suc n) P @ enc_all e (drop (Suc n) xs) @ T"
    using Suc.prems(3,5) by (metis append.assoc append_take_drop_id)
  then have rd: "intsetGetEncoded be is (int n) c = Some (xs ! n)"
    by (intro intsetGetEncoded_slot [where a = "enc_all c (take n xs)"])
       (use assms(3,5) nx in \<open>auto simp: take_Suc_conv_app_nth\<close>)
  define Q where "Q = take (e * (n + prepend)) P"
  define S where "S = drop (e * (n + prepend)) P"
  have PQ: "P = Q @ S" by (simp add: Q_def S_def)
  have lQ: "length Q = e * (n + prepend)" using Suc.prems(4) by (simp add: Q_def algebra_simps)
  have lS: "length S = e" using Suc.prems(4) by (simp add: S_def algebra_simps)
  have wr: "intsetSet be is (int n + int prepend) (xs ! n) =
      Some (is\<lparr>contents := Q @ enc_elem e (xs ! n) @ enc_all e (drop (Suc n) xs) @ T\<rparr>)"
    using intsetSet_slot [OF Suc.prems(1) assms(2) _ lS lQ] Suc.prems(3) by (simp add: PQ)
  have dr: "enc_elem e (xs ! n) @ enc_all e (drop (Suc n) xs) @ T = enc_all e (drop n xs) @ T"
    using nx by (simp flip: Cons_nth_drop_Suc)
  have "c * n \<le> e * (n + prepend)" using assms(4) by (intro mult_le_mono) auto
  then have "take (c * n) Q = take (c * n) P" by (simp add: Q_def min_def)
  also have "\<dots> = take (c * n) (take (c * Suc n) P)" by simp
  also have "\<dots> = enc_all c (take n xs)"
    using Suc.prems(5) nx by (simp add: take_Suc_conv_app_nth)
  finally have tk: "take (c * n) Q = enc_all c (take n xs)" .
  have "\<exists>P'. intsetUpgrade_loop be (is\<lparr>contents := Q @ enc_all e (drop n xs) @ T\<rparr>) n (int prepend) c =
      Some (is\<lparr>contents := Q @ enc_all e (drop n xs) @ T\<rparr>\<lparr>contents := P' @ enc_all e xs @ T\<rparr>)
      \<and> length P' = e * prepend"
    by (rule Suc.IH [where P = Q]) (use Suc.prems(1) nx lQ tk in auto)
  then show ?case using rd wr dr by simp
qed

lemma intset_rep_enc: "intset_rep be is xs \<Longrightarrow> is_enc be is \<in> {2, 4, 8}"
  by (simp add: intset_rep_def enc_defs)

text \<open>A value that needs a wider encoding lies outside the range of the members.\<close>

lemma insort_out_of_range:
  assumes "\<forall>x \<in> set xs. srange e x" and "e \<in> {2, 4, 8}" and "intsetValueEncoding v > e"
  shows "insort v xs = (if v < 0 then v # xs else xs @ [v])"
proof -
  have "\<not> srange e v" using valueEncoding_le assms(2,3) by fastforce
  moreover have "(0::int) < 2 ^ (8 * e - 1)" by simp
  ultimately have "v < 0 \<Longrightarrow> \<forall>x \<in> set xs. v < x" "\<not> v < 0 \<Longrightarrow> \<forall>x \<in> set xs. x < v"
    using assms(1) unfolding srange_def by fastforce+
  then show ?thesis
    by (induction xs) (auto split: if_splits)
qed

lemma strict_insort: "sorted_wrt (<) xs \<Longrightarrow> v \<notin> set xs \<Longrightarrow> sorted_wrt (<) (insort (v::int) xs)"
  by (simp add: strict_sorted_iff sorted_insort distinct_insort)

text \<open>The resized block: the old elements at its start, and a free slot of the new size at the
  end the value goes to.\<close>

lemma upgrade_block:
  assumes "c \<le> e" and "p \<le> 1"
  obtains P T where "zrealloc junk (enc_all c xs) (e * (length xs + 1)) = P @ T"
    and "length P = e * (length xs + p)" and "length T = e * (1 - p)"
    and "take (c * length xs) P = enc_all c xs"
proof -
  define B where "B = zrealloc junk (enc_all c xs) (e * (length xs + 1))"
  have le: "e * (length xs + p) \<le> e * (length xs + 1)"
    using assms(2) by (intro mult_le_mono) auto
  have ce: "c * length xs \<le> e * (length xs + p)" using assms(1) by (intro mult_le_mono) auto
  have "B = enc_all c xs @ map junk [c * length xs..<e * (length xs + 1)]"
    using ce le by (subst B_def, subst zrealloc_grow) auto
  then have "take (c * length xs) (take (e * (length xs + p)) B) = enc_all c xs"
    using ce by (simp add: min_def)
  moreover have "length B = e * (length xs + 1)" by (simp add: B_def)
  moreover have "p = 0 \<or> p = 1" using assms(2) by auto
  ultimately show ?thesis
    using that [of "take (e * (length xs + p)) B" "drop (e * (length xs + p)) B"] le
    by (auto simp: B_def)
qed

lemma upgrade_run:
  assumes enc: "is_enc be is = e" "e \<in> {2, 4, 8}" "c \<in> {2, 4, 8}" "c \<le> e"
    and rs: "\<forall>x \<in> set xs. srange c x" and len: "is_len be is = length xs"
    and cont: "contents is = zrealloc junk (enc_all c xs) (e * (length xs + 1))"
  shows "do { is \<leftarrow> intsetUpgrade_loop be is (length xs) (if v < 0 then 1 else 0) c;
              if v < 0 then intsetSet be is 0 v else intsetSet be is (int (is_len be is)) v } =
         Some (is\<lparr>contents := enc_all e (if v < 0 then v # xs else xs @ [v])\<rparr>)"
proof -
  define p :: nat where "p = (if v < 0 then 1 else 0)"
  have p1: "p \<le> 1" by (simp add: p_def)
  from upgrade_block [OF enc(4) p1] obtain P T where PT:
    "contents is = P @ enc_all e (drop (length xs) xs) @ T" "length P = e * (length xs + p)"
    "length T = e * (1 - p)" "take (c * length xs) P = enc_all c (take (length xs) xs)"
    using cont by (metis append_Nil drop_all enc_all_simps(1) order_refl take_all)
  from intsetUpgrade_loop_correct [OF enc rs order_refl p1 PT(1,2,4)]
  obtain P' where lp: "intsetUpgrade_loop be is (length xs) (int p) c =
      Some (is\<lparr>contents := P' @ enc_all e xs @ T\<rparr>)" and lP': "length P' = e * p" by blast
  let ?is2 = "is\<lparr>contents := P' @ enc_all e xs @ T\<rparr>"
  have "v < 0 \<Longrightarrow> intsetSet be ?is2 0 v = Some (is\<lparr>contents := enc_all e (v # xs)\<rparr>)"
    using intsetSet_slot [of be ?is2 e "[]" P' "enc_all e xs @ T" 0 v] enc lP' PT(3)
    by (simp add: p_def)
  moreover have "\<not> v < 0 \<Longrightarrow> intsetSet be ?is2 (int (length xs)) v =
      Some (is\<lparr>contents := enc_all e (xs @ [v])\<rparr>)"
    using intsetSet_slot [of be ?is2 e "enc_all e xs" T "[]" "length xs" v] enc lP' PT(3)
    by (simp add: p_def)
  moreover have "(if v < 0 then 1 else 0) = int p" by (simp add: p_def)
  ultimately show ?thesis using lp len by simp
qed

lemma intset_rep_len:
  assumes "intset_rep be is xs"
  shows "unat (intrev32ifbe be (ilength is)) = length xs"
    and "unat (intrev32ifbe be (ilength is) + 1) = length xs + 1"
proof -
  show l: "unat (intrev32ifbe be (ilength is)) = length xs"
    using assms by (simp add: intset_rep_def is_len_def)
  then show "unat (intrev32ifbe be (ilength is) + 1) = length xs + 1"
    using assms unat_plus1_small [of "intrev32ifbe be (ilength is)"] by (simp add: intset_rep_def)
qed

lemma intsetUpgradeAndAdd_correct:
  assumes rep: "intset_rep be is xs" and v: "srange 8 v" and big: "intsetValueEncoding v > is_enc be is"
    and room: "length xs + 1 < intset_max"
  shows "\<exists>is'. intsetUpgradeAndAdd junk be is v = Some is' \<and> intset_rep be is' (insort v xs)"
proof -
  define e where "e = intsetValueEncoding v"
  define c where "c = is_enc be is"
  have ec: "e \<in> {2, 4, 8}" "c \<in> {2, 4, 8}" "c \<le> e"
    using valueEncoding_cases intset_rep_enc [OF rep] big by (auto simp: e_def c_def)
  have ue: "unat (of_nat e :: 32 word) = e" using ec(1) by auto
  have rs: "\<forall>x \<in> set xs. srange c x" "contents is = enc_all c xs" "is_len be is = length xs"
      "sorted_wrt (<) xs"
    using rep by (auto simp: intset_rep_def c_def)
  note ul = intset_rep_len [OF rep]
  define is1 where "is1 = is\<lparr>encoding := intrev32ifbe be (of_nat e),
      contents := zrealloc junk (enc_all c xs) (e * (length xs + 1))\<rparr>"
  have enc1: "is_enc be is1 = e" "is_len be is1 = length xs"
    using ue rs(3) by (simp_all add: is1_def is_enc_def is_len_def)
  have r1: "intsetResize junk be (is\<lparr>encoding := intrev32ifbe be (of_nat e)\<rparr>)
        (intrev32ifbe be (ilength is) + 1) = is1"
    using ul room ec(1) ue rs(2)
    by (subst intsetResize_contents) (auto simp: is1_def mult.commute)
  have "contents is1 = zrealloc junk (enc_all c xs) (e * (length xs + 1))" by (simp add: is1_def)
  note run = upgrade_run [OF enc1(1) ec rs(1) enc1(2) this, of v]
  have ins: "insort v xs = (if v < 0 then v # xs else xs @ [v])"
    using insort_out_of_range [OF rs(1) ec(2)] big by (simp add: c_def)
  have nin: "v \<notin> set xs"
    using valueEncoding_le [OF ec(2), of v] rs(1) big by (force simp: c_def)
  define is3 where "is3 = is1\<lparr>contents := enc_all e (insort v xs),
      ilength := intrev32ifbe be (intrev32ifbe be (ilength is) + 1)\<rparr>"
  have "intsetUpgradeAndAdd junk be is v = Some is3"
    using run r1 rs(3) ins
    by (auto simp: intsetUpgradeAndAdd_def Let_def c_def e_def [symmetric] is3_def is1_def bind_eq_Some_conv
        split: if_splits)
  moreover have "intset_rep be is3 (insort v xs)"
    using ec enc1 ul room rs(1,4) valueEncoding_range [OF v] srange_mono nin strict_insort
    by (auto simp: intset_rep_def is3_def enc_defs set_insort_key e_def)
  ultimately show ?thesis by blast
qed

section \<open>Insertion and deletion\<close>

lemma intsetMoveTail_eq:
  assumes "is_enc be is = e" and "e \<in> {2, 4, 8}" and "unat from \<le> is_len be is"
    and "is_len be is \<le> intset_max"
  shows "intsetMoveTail be is from to =
     map_option (\<lambda>c. is\<lparr>contents := c\<rparr>)
       (memmove (contents is) (int e * uint to) (int e * uint from) (e * (is_len be is - unat from)))"
proof -
  define b where "b = intrev32ifbe be (ilength is) - from"
  have b: "unat b = is_len be is - unat from"
    using assms(3) by (simp add: b_def is_len_def word_le_nat_alt unat_sub)
  have "unat b \<le> intset_max" using b assms(4) by simp
  then have "unat (b * 8) = 8 * unat b" "unat (b * 4) = 4 * unat b" "unat (b * 2) = 2 * unat b"
    by (simp_all add: unat_mult_small)
  moreover have "e = 2 \<or> e = 4 \<or> e = 8" using assms(2) by auto
  ultimately show ?thesis
    using b assms(1)
    by (elim disjE)
       (simp_all add: intsetMoveTail_def b_def [symmetric] enc_defs map_conv_bind_option comp_def)
qed

text \<open>After growing by one element and moving the tail, there is a free slot at the insert
  position.\<close>

lemma intset_open_slot:
  fixes junk
  assumes rep: "intset_rep be is xs" and p: "p \<le> length xs" and room: "length xs + 1 < intset_max"
  defines "e \<equiv> is_enc be is" and "L \<equiv> intrev32ifbe be (ilength is)"
  defines "is1 \<equiv> intsetResize junk be is (L + 1)"
  shows "\<exists>S. (if of_nat p < L then intsetMoveTail be is1 (of_nat p) (of_nat p + 1) else Some is1) =
      Some (is\<lparr>contents := enc_all e (take p xs) @ S @ enc_all e (drop p xs)\<rparr>) \<and> length S = e"
proof -
  note ul = intset_rep_len [OF rep, folded L_def]
  have e: "e \<in> {2, 4, 8}" using intset_rep_enc [OF rep] by (simp add: e_def)
  have up: "unat (of_nat p :: 32 word) = p" "unat (of_nat p + 1 :: 32 word) = p + 1"
    using p room unat_plus1_small [of "of_nat p"] by (simp_all add: unat_of_nat intset_max_def)
  define A where "A = enc_all e (take p xs)"
  define B where "B = enc_all e (drop p xs)"
  define J where "J = map junk [e * length xs..<(length xs + 1) * e]"
  have AB: "contents is = A @ B" "length A = e * p" "length B = e * (length xs - p)" "length J = e"
    using rep p by (auto simp: A_def B_def J_def e_def intset_rep_def simp flip: enc_all_simps(3))
  have pe: "e * p \<le> e * length xs" using p by simp
  have r1: "is1 = is\<lparr>contents := A @ B @ J\<rparr>"
    unfolding is1_def
    using ul room e AB p pe
    by (subst intsetResize_contents)
       (auto simp: J_def zrealloc_def diff_mult_distrib2 algebra_simps e_def)
  show ?thesis
  proof (cases "p < length xs")
    case True
    define S where "S = take e (B @ J)"
    have lS: "length S = e" using AB(4) by (simp add: S_def)
    have "memmove (A @ B @ J) (int (e * (p + 1))) (int (e * p)) (e * (length xs - p)) =
        Some (A @ S @ B)"
      using memmove_right [of A B J] AB(2-) by (simp add: algebra_simps S_def)
    then have "intsetMoveTail be is1 (of_nat p) (of_nat p + 1) = Some (is\<lparr>contents := A @ S @ B\<rparr>)"
      using True e rep uint_of_unat [OF up(1)] uint_of_unat [OF up(2)] up
      by (subst intsetMoveTail_eq [where e = e])
         (auto simp: r1 intset_rep_def algebra_simps e_def)
    then show ?thesis
      using True ul up lS by (auto simp: word_less_nat_alt A_def B_def)
  next
    case False
    then show ?thesis using p ul up AB(4) by (auto simp: word_less_nat_alt r1 A_def B_def)
  qed
qed

lemma intsetAdd_insert:
  assumes rep: "intset_rep be is xs" and v: "srange (is_enc be is) v" and nin: "v \<notin> set xs"
    and room: "length xs + 1 < intset_max"
  shows "\<exists>is'. intsetAdd junk be is v = Some (is', True) \<and> intset_rep be is' (insort v xs)"
proof -
  define e where "e = is_enc be is"
  define p where "p = lbi v xs"
  define L where "L = intrev32ifbe be (ilength is)"
  have e: "e \<in> {2, 4, 8}" using intset_rep_enc [OF rep] by (simp add: e_def)
  have ve: "\<not> intsetValueEncoding v > is_enc be is"
    using valueEncoding_le [OF e] v by (simp add: e_def not_less)
  have p: "p \<le> length xs" by (simp add: p_def lbi_le)
  have up: "uint (of_nat p :: 32 word) = int p"
    using p room by (intro uint_of_unat) (simp add: unat_of_nat intset_max_def)
  from intset_open_slot [OF rep p room] obtain S where
    S: "(if of_nat p < L then intsetMoveTail be (intsetResize junk be is (L + 1)) (of_nat p) (of_nat p + 1)
         else Some (intsetResize junk be is (L + 1))) =
       Some (is\<lparr>contents := enc_all e (take p xs) @ S @ enc_all e (drop p xs)\<rparr>)" "length S = e"
    unfolding e_def L_def by blast
  have st: "intsetSet be (is\<lparr>contents := enc_all e (take p xs) @ S @ enc_all e (drop p xs)\<rparr>)
      (uint (of_nat p :: 32 word)) v = Some (is\<lparr>contents := enc_all e (insort v xs)\<rparr>)"
    using intsetSet_slot [of be _ e "enc_all e (take p xs)" S "enc_all e (drop p xs)" p v] e S(2) up p
    by (simp add: insort_lbi p_def [symmetric] e_def)
  define is3 where "is3 = is\<lparr>contents := enc_all e (insort v xs), ilength := intrev32ifbe be (L + 1)\<rparr>"
  have il: "ilength (intsetResize junk be is (L + 1)) = ilength is"
    by (simp add: intsetResize_def)
  have "intsetAdd junk be is v = Some (is3, True)"
    using ve intsetSearch_correct [OF rep, of v] nin S(1) st il
    by (simp add: intsetAdd_def L_def [symmetric] p_def [symmetric] is3_def)
  moreover have "intset_rep be is3 (insort v xs)"
    using rep intset_rep_len [OF rep] room v nin strict_insort [of xs v]
    by (auto simp: intset_rep_def is3_def e_def set_insort_key L_def)
  ultimately show ?thesis by blast
qed

lemma intset_close_slot:
  assumes rep: "intset_rep be is xs" and p: "p < length xs"
  defines "e \<equiv> is_enc be is" and "L \<equiv> intrev32ifbe be (ilength is)"
  shows "\<exists>T. (if of_nat p < L - 1 then intsetMoveTail be is (of_nat p + 1) (of_nat p) else Some is) =
      Some (is\<lparr>contents := enc_all e (take p xs @ drop (Suc p) xs) @ T\<rparr>)" (is ?thesis1)
    and "unat (L - 1) = length xs - 1" (is ?thesis2)
proof -
  have rs: "contents is = enc_all e xs" "length xs < intset_max" "is_len be is = length xs"
    using rep by (auto simp: intset_rep_def e_def)
  have e: "e \<in> {2, 4, 8}" using intset_rep_enc [OF rep] by (simp add: e_def)
  have "1 \<le> L" using intset_rep_len [OF rep, folded L_def] p by (simp add: word_le_nat_alt)
  then show L1: ?thesis2
    using intset_rep_len [OF rep, folded L_def] by (simp add: unat_sub)
  have up: "unat (of_nat p :: 32 word) = p" "unat (of_nat p + 1 :: 32 word) = p + 1"
    using p rs(2) unat_plus1_small [of "of_nat p"] by (simp_all add: unat_of_nat intset_max_def)
  define A where "A = enc_all e (take p xs)"
  define B where "B = enc_all e (drop (Suc p) xs)"
  have AB: "contents is = A @ enc_elem e (xs ! p) @ B" "length A = e * p"
      "length B = e * (length xs - (p + 1))"
    using rs(1) p enc_all_split [OF p, of e] by (auto simp: A_def B_def)
  show ?thesis1
  proof (cases "p < length xs - 1")
    case True
    have "memmove (contents is) (int (e * p)) (int (e * (p + 1))) (e * (length xs - (p + 1))) =
        Some (A @ B @ drop (length B) (enc_elem e (xs ! p) @ B))"
      using memmove_left [of A "enc_elem e (xs ! p)" B] AB by (simp add: algebra_simps)
    then have "intsetMoveTail be is (of_nat p + 1) (of_nat p) =
        Some (is\<lparr>contents := A @ B @ drop (length B) (enc_elem e (xs ! p) @ B)\<rparr>)"
      using True e rs(2,3) uint_of_unat [OF up(1)] uint_of_unat [OF up(2)] up p
      by (subst intsetMoveTail_eq [where e = e]) (auto simp: e_def algebra_simps)
    then show ?thesis
      using True L1 up(1) by (auto simp: word_less_nat_alt A_def B_def)
  next
    case False
    then have "B = []" using p by (simp add: B_def)
    then show ?thesis
      using False L1 up(1) AB(1) by (cases "is") (auto simp: word_less_nat_alt A_def B_def)
  qed
qed

lemma strict_remove1: "sorted_wrt (<) xs \<Longrightarrow> sorted_wrt (<) (remove1 (v::int) xs)"
  by (simp add: strict_sorted_iff sorted_remove1)

lemma intsetRemove_delete:
  assumes rep: "intset_rep be is xs" and v: "v \<in> set xs"
  shows "\<exists>is'. intsetRemove junk be is v = Some (is', True) \<and> intset_rep be is' (remove1 v xs)"
proof -
  define e where "e = is_enc be is"
  define p where "p = lbi v xs"
  define L where "L = intrev32ifbe be (ilength is)"
  define C where "C = enc_all e (remove1 v xs)"
  have rs: "sorted_wrt (<) xs" "srange e v" "length xs < intset_max"
    using rep v by (auto simp: intset_rep_def e_def)
  have e: "e \<in> {2, 4, 8}" using intset_rep_enc [OF rep] by (simp add: e_def)
  have ve: "intsetValueEncoding v \<le> is_enc be is"
    using valueEncoding_le [OF e] rs(2) by (simp add: e_def)
  have p: "p < length xs" using nth_lbi [OF rs(1) v] by (simp add: p_def)
  have L1: "unat (L - 1) = length xs - 1"
    using intset_close_slot(2) [OF rep p] by (simp add: L_def)
  obtain T where T: "(if of_nat p < L - 1 then intsetMoveTail be is (of_nat p + 1) (of_nat p)
      else Some is) = Some (is\<lparr>contents := C @ T\<rparr>)"
    using intset_close_slot(1) [OF rep p] remove1_lbi [OF rs(1) v]
    by (auto simp: L_def C_def e_def p_def)
  have "length C = unat (L - 1) * e"
    using L1 v by (simp add: C_def length_remove1 mult.commute)
  then have rz: "intsetResize junk be (is\<lparr>contents := C @ T\<rparr>) (L - 1) = is\<lparr>contents := C\<rparr>"
    using L1 rs(3) e by (subst intsetResize_contents) (auto simp: e_def zrealloc_def)
  define is3 where "is3 = is\<lparr>contents := C, ilength := intrev32ifbe be (L - 1)\<rparr>"
  have "intsetRemove junk be is v = Some (is3, True)"
    using ve intsetSearch_correct [OF rep, of v] v T rz
    by (simp add: intsetRemove_def L_def [symmetric] p_def [symmetric] is3_def)
  moreover have "intset_rep be is3 (remove1 v xs)"
    using rep L1 v set_remove1_subset [of v xs] strict_remove1
    by (auto simp: intset_rep_def is3_def e_def C_def length_remove1)
  ultimately show ?thesis by blast
qed

section \<open>The operations on the list of members\<close>

text \<open>The members in array order, and the invariant of an intset.\<close>

definition intset_members :: "bool \<Rightarrow> intset \<Rightarrow> int list" where
  "intset_members be is = map (\<lambda>i. the (intsetGet_at be is (int i))) [0..<is_len be is]"

definition intset_inv :: "bool \<Rightarrow> intset \<Rightarrow> bool" where
  "intset_inv be is \<longleftrightarrow> intset_rep be is (intset_members be is)"

lemma intset_rep_members:
  assumes "intset_rep be is xs"
  shows "intset_members be is = xs"
proof (rule nth_equalityI)
  show l: "length (intset_members be is) = length xs"
    using assms by (simp add: intset_members_def intset_rep_def)
  show "intset_members be is ! i = xs ! i" if "i < length (intset_members be is)" for i
    using that l assms by (simp add: intset_members_def intset_rep_get)
qed

lemma intset_rep_inv: "intset_rep be is xs \<Longrightarrow> intset_inv be is"
  by (simp add: intset_inv_def intset_rep_members)

lemma intset_rep_new: "intset_rep be (intsetNew be) []"
  by (simp add: intset_rep_def intsetNew_def is_enc_def is_len_def enc_defs intset_max_def)

lemma intsetAdd_rep:
  assumes rep: "intset_rep be is xs" and v: "srange 8 v" and room: "length xs + 1 < intset_max"
  shows "\<exists>is'. intsetAdd junk be is v = Some (is', v \<notin> set xs) \<and>
     intset_rep be is' (if v \<in> set xs then xs else insort v xs)"
proof (cases "intsetValueEncoding v > is_enc be is")
  case True
  have "v \<notin> set xs"
    using rep True valueEncoding_le [OF intset_rep_enc [OF rep], of v]
    by (force simp: intset_rep_def)
  with True intsetUpgradeAndAdd_correct [OF rep v True room, of junk] show ?thesis
    by (auto simp: intsetAdd_def)
next
  case False
  then have r: "srange (is_enc be is) v" using valueEncoding_le_srange [OF v] by simp
  show ?thesis
  proof (cases "v \<in> set xs")
    case True
    with False rep intsetSearch_correct [OF rep, of v] show ?thesis by (simp add: intsetAdd_def)
  next
    case nin: False
    with intsetAdd_insert [OF rep r nin room] show ?thesis by auto
  qed
qed

lemma intset_not_member:
  "intset_rep be is xs \<Longrightarrow> intsetValueEncoding v > is_enc be is \<Longrightarrow> v \<notin> set xs"
  using valueEncoding_le [OF intset_rep_enc, of be "is" xs v] by (force simp: intset_rep_def)

lemma intsetRemove_rep:
  assumes rep: "intset_rep be is xs"
  shows "\<exists>is'. intsetRemove junk be is v = Some (is', v \<in> set xs) \<and> intset_rep be is' (remove1 v xs)"
proof (cases "v \<in> set xs")
  case True
  with intsetRemove_delete [OF rep True] show ?thesis by auto
next
  case False
  with rep intsetSearch_correct [OF rep, of v] show ?thesis
    by (simp add: intsetRemove_def remove1_idem)
qed

lemma intsetFind_rep: "intset_rep be is xs \<Longrightarrow> intsetFind be is v = Some (v \<in> set xs)"
  using intset_not_member [of be "is" xs v] intsetSearch_correct [of be "is" xs v]
  by (auto simp: intsetFind_def)

lemma card_members: "intset_rep be is xs \<Longrightarrow> card (set xs) = length xs"
  by (simp add: intset_rep_def distinct_card strict_sorted_iff)

lemma set_remove1_strict: "sorted_wrt (<) xs \<Longrightarrow> set (remove1 (v::int) xs) = set xs - {v}"
  by (simp add: set_remove1_eq strict_sorted_iff)

interpretation iset: set_impl "intset_inv be" "\<lambda>is. set (intset_members be is)" "srange 8" intset_max
  "intsetAdd junk be" "intsetRemove junk be" "intsetFind be"
  for junk be
proof
  fix s v
  assume inv: "intset_inv be s"
  then have rep: "intset_rep be s (intset_members be s)" by (simp add: intset_inv_def)
  show "finite (set (intset_members be s))" by simp
  show "intsetFind be s v = Some (v \<in> set (intset_members be s))" by (rule intsetFind_rep [OF rep])
  have srt: "sorted_wrt (<) (intset_members be s)" using rep by (simp add: intset_rep_def)
  show "\<exists>s'. intsetRemove junk be s v = Some (s', v \<in> set (intset_members be s)) \<and>
      intset_inv be s' \<and> set (intset_members be s') = set (intset_members be s) - {v}"
    using intsetRemove_rep [OF rep, of junk v] intset_rep_inv intset_rep_members
      set_remove1_strict [OF srt] by fastforce
  assume "srange 8 v" and "card (set (intset_members be s)) + 1 < intset_max"
  then obtain s' where s': "intsetAdd junk be s v = Some (s', v \<notin> set (intset_members be s))"
    and r': "intset_rep be s' (if v \<in> set (intset_members be s) then intset_members be s
        else insort v (intset_members be s))"
    using intsetAdd_rep [OF rep, of v junk] card_members [OF rep] by auto
  have "set (intset_members be s') = insert v (set (intset_members be s))"
    using intset_rep_members [OF r'] by (auto simp: set_insort_key)
  with s' intset_rep_inv [OF r']
  show "\<exists>s'. intsetAdd junk be s v = Some (s', v \<notin> set (intset_members be s)) \<and>
      intset_inv be s' \<and> set (intset_members be s') = insert v (set (intset_members be s))"
    by blast
qed

section \<open>The encoding of a set, and its memory image\<close>

lemma intsetSet_frame: "intsetSet be is i v = Some is' \<Longrightarrow> is_enc be is' = is_enc be is"
  by (auto simp: intsetSet_def bind_eq_Some_conv split: if_splits)

lemma intsetMoveTail_frame: "intsetMoveTail be is f t = Some is' \<Longrightarrow> is_enc be is' = is_enc be is"
  by (auto simp: intsetMoveTail_def Let_def bind_eq_Some_conv split: if_splits)

lemma intsetResize_frame [simp]: "is_enc be (intsetResize junk be is l) = is_enc be is"
  by (simp add: intsetResize_def Let_def)

lemma intsetUpgrade_loop_frame:
  "intsetUpgrade_loop be is n p c = Some is' \<Longrightarrow> is_enc be is' = is_enc be is"
  by (induction n arbitrary: "is") (auto simp: bind_eq_Some_conv dest: intsetSet_frame)

lemma intsetAdd_enc:
  assumes "intsetAdd junk be is v = Some (is', b)"
  shows "is_enc be is' = max (is_enc be is) (intsetValueEncoding v)"
proof -
  have "unat (of_nat (intsetValueEncoding v) :: 32 word) = intsetValueEncoding v"
    using valueEncoding_cases [of v] by auto
  with assms show ?thesis
    by (auto simp: intsetAdd_def intsetUpgradeAndAdd_def Let_def bind_eq_Some_conv max_def
        split: if_splits
        dest!: intsetSet_frame intsetMoveTail_frame intsetUpgrade_loop_frame)
qed

lemma intsetRemove_enc: "intsetRemove junk be is v = Some (is', b) \<Longrightarrow> is_enc be is' = is_enc be is"
  by (auto simp: intsetRemove_def Let_def bind_eq_Some_conv split: if_splits dest: intsetMoveTail_frame)

text \<open>The bytes of the whole structure as they lie in the memory of the host, which is what a
  dump writes.\<close>

definition intset_blob :: "bool \<Rightarrow> intset \<Rightarrow> bytes" where
  "intset_blob be is =
     host_bytes be 4 (unat (encoding is)) @ host_bytes be 4 (unat (ilength is)) @ contents is"

lemma blob_eq:
  assumes "intset_rep be is xs" and "intset_rep be' is' xs" and "is_enc be is = is_enc be' is'"
  shows "intset_blob be is = intset_blob be' is'"
proof -
  have hdr: "host_bytes b 4 (unat w) = le_bytes 4 (unat (intrev32ifbe b w))" for b w
    using intrev32ifbe_bytes [of b "intrev32ifbe b w"] by simp
  show ?thesis
    using assms by (simp add: intset_blob_def hdr intset_rep_def is_enc_def is_len_def)
qed

lemma run_ops_blob:
  assumes "intset_rep be is xs" and "intset_rep be' is' xs" and "is_enc be is = is_enc be' is'"
    and "\<forall>x \<in> set ops. srange 8 (op_val x)" and "length xs + length ops < intset_max"
  shows "\<exists>t t' bs. run_ops (intsetAdd junk be) (intsetRemove junk be) is ops = Some (t, bs) \<and>
     run_ops (intsetAdd junk' be') (intsetRemove junk' be') is' ops = Some (t', bs) \<and>
     intset_blob be t = intset_blob be' t'"
  using assms
proof (induction ops arbitrary: "is" is' xs)
  case Nil
  then show ?case using blob_eq [OF Nil.prems(1-3)] by simp
next
  case (Cons x ops)
  show ?case
  proof (cases x)
    case (SAdd v)
    let ?ys = "if v \<in> set xs then xs else insort v xs"
    have v: "srange 8 v" "length xs + 1 < intset_max" using Cons.prems SAdd by auto
    obtain t where t: "intsetAdd junk be is v = Some (t, v \<notin> set xs)" "intset_rep be t ?ys"
      using intsetAdd_rep [OF Cons.prems(1) v] by blast
    obtain t' where t': "intsetAdd junk' be' is' v = Some (t', v \<notin> set xs)" "intset_rep be' t' ?ys"
      using intsetAdd_rep [OF Cons.prems(2) v] by blast
    have "is_enc be t = is_enc be' t'"
      using intsetAdd_enc [OF t(1)] intsetAdd_enc [OF t'(1)] Cons.prems(3) by simp
    moreover have "length ?ys + length ops < intset_max" "\<forall>x \<in> set ops. srange 8 (op_val x)"
      using Cons.prems by auto
    ultimately obtain u u' bs where
      "run_ops (intsetAdd junk be) (intsetRemove junk be) t ops = Some (u, bs)"
      "run_ops (intsetAdd junk' be') (intsetRemove junk' be') t' ops = Some (u', bs)"
      "intset_blob be u = intset_blob be' u'"
      using Cons.IH [OF t(2) t'(2)] by blast
    then show ?thesis using SAdd t(1) t'(1) by simp
  next
    case (SRem v)
    obtain t where t: "intsetRemove junk be is v = Some (t, v \<in> set xs)" "intset_rep be t (remove1 v xs)"
      using intsetRemove_rep [OF Cons.prems(1)] by blast
    obtain t' where t': "intsetRemove junk' be' is' v = Some (t', v \<in> set xs)"
        "intset_rep be' t' (remove1 v xs)"
      using intsetRemove_rep [OF Cons.prems(2)] by blast
    have "is_enc be t = is_enc be' t'"
      using intsetRemove_enc [OF t(1)] intsetRemove_enc [OF t'(1)] Cons.prems(3) by simp
    moreover have "length (remove1 v xs) + length ops < intset_max"
        "\<forall>x \<in> set ops. srange 8 (op_val x)"
      using Cons.prems by (auto simp: length_remove1)
    ultimately obtain u u' bs where
      "run_ops (intsetAdd junk be) (intsetRemove junk be) t ops = Some (u, bs)"
      "run_ops (intsetAdd junk' be') (intsetRemove junk' be') t' ops = Some (u', bs)"
      "intset_blob be u = intset_blob be' u'"
      using Cons.IH [OF t(2) t'(2)] by blast
    then show ?thesis using SRem t(1) t'(1) by simp
  qed
qed

section \<open>Properties\<close>

text \<open>C2: any history of insertions and deletions of 64 bit values, started on a new intset, stays
  inside the allocation, keeps the array sorted and without duplicates, reports for each operation
  whether it changed the set, and ends in exactly the set the history describes, on hosts of
  either byte order and whatever fresh memory holds.\<close>

theorem intset_history:
  assumes "\<forall>x \<in> set ops. srange 8 (op_val x)" and "length ops < intset_max"
  shows "\<exists>is. run_ops (intsetAdd junk be) (intsetRemove junk be) (intsetNew be) ops =
       Some (is, snd (spec_ops {} ops)) \<and>
     intset_inv be is \<and> set (intset_members be is) = fst (spec_ops {} ops)"
proof -
  have "intset_members be (intsetNew be) = []" by (rule intset_rep_members [OF intset_rep_new])
  with iset.run_ops_refines [OF intset_rep_inv [OF intset_rep_new], of ops be junk] assms
  show ?thesis by simp
qed

theorem intset_history_witness:
  "\<exists>is. run_ops (intsetAdd (\<lambda>_. 7) True) (intsetRemove (\<lambda>_. 7) True) (intsetNew True)
       [SAdd 5, SAdd (- 70000), SRem 5] = Some (is, [True, True, True]) \<and>
     intset_inv True is \<and> set (intset_members True is) = {- 70000}"
proof -
  have "spec_ops {} [SAdd 5, SAdd (- 70000), SRem 5] = ({- 70000 :: int}, [True, True, True])"
    by auto
  then show ?thesis
    using intset_history [of "[SAdd 5, SAdd (- 70000), SRem 5]" "\<lambda>_. 7" True]
    by (simp add: srange_def intset_max_def del: run_ops.simps)
qed

text \<open>C27: the memory image of an intset does not depend on the byte order of the host: the same
  history on two hosts gives the same bytes and the same results.\<close>

theorem intset_blob_portable:
  assumes "\<forall>x \<in> set ops. srange 8 (op_val x)" and "length ops < intset_max"
  shows "\<exists>is is' bs. run_ops (intsetAdd junk be) (intsetRemove junk be) (intsetNew be) ops = Some (is, bs) \<and>
     run_ops (intsetAdd junk' be') (intsetRemove junk' be') (intsetNew be') ops = Some (is', bs) \<and>
     intset_blob be is = intset_blob be' is'"
proof -
  have "is_enc be (intsetNew be) = is_enc be' (intsetNew be')"
    by (simp add: intsetNew_def is_enc_def)
  then show ?thesis
    using run_ops_blob [OF intset_rep_new intset_rep_new] assms by simp
qed

theorem intset_blob_portable_witness:
  "\<exists>is is' bs. run_ops (intsetAdd (\<lambda>_. 0) False) (intsetRemove (\<lambda>_. 0) False) (intsetNew False)
       [SAdd 300, SRem 4] = Some (is, bs) \<and>
     run_ops (intsetAdd (\<lambda>_. 9) True) (intsetRemove (\<lambda>_. 9) True) (intsetNew True)
       [SAdd 300, SRem 4] = Some (is', bs) \<and>
     intset_blob False is = intset_blob True is'"
  by (rule intset_blob_portable) (auto simp: srange_def intset_max_def)

text \<open>C29: inserting a value places it at its sorted position, through the upgrade of the encoding
  when the value does not fit and through the shift of the tail when it does; a value that is
  already a member leaves the set as it was and reports failure.\<close>

theorem intsetAdd_sorted_insert:
  assumes "intset_inv be is" and "srange 8 v" and "intsetLen be is + 1 < intset_max"
  shows "\<exists>is'. intsetAdd junk be is v = Some (is', v \<notin> set (intset_members be is)) \<and>
     intset_inv be is' \<and>
     intset_members be is' = (if v \<in> set (intset_members be is) then intset_members be is
                              else insort v (intset_members be is))"
proof -
  have rep: "intset_rep be is (intset_members be is)" using assms(1) by (simp add: intset_inv_def)
  then have "length (intset_members be is) + 1 < intset_max"
    using assms(3) by (simp add: intset_rep_def intsetLen_def)
  from intsetAdd_rep [OF rep assms(2) this] obtain is' where
    "intsetAdd junk be is v = Some (is', v \<notin> set (intset_members be is))" and
    r: "intset_rep be is' (if v \<in> set (intset_members be is) then intset_members be is
        else insort v (intset_members be is))" by blast
  then show ?thesis using intset_rep_members [OF r] intset_rep_inv [OF r] by blast
qed

theorem intsetAdd_sorted_insert_witness:
  "\<exists>is'. intsetAdd (\<lambda>_. 0) False (intsetNew False) 9 = Some (is', True) \<and>
     intset_inv False is' \<and> intset_members False is' = [9]"
  using intsetAdd_sorted_insert [OF intset_rep_inv [OF intset_rep_new], of 9 False "\<lambda>_. 0"]
    intset_rep_members [OF intset_rep_new, of False] intset_rep_new [of False]
  by (simp add: srange_def intset_max_def intsetLen_def intset_rep_def)

text \<open>C34: reading: the positions below the length are exactly the readable ones and give the
  members in increasing order, a random pick is a member, and the blob length is the number of
  bytes the structure occupies.\<close>

theorem intset_reads:
  assumes "intset_inv be is"
  shows "intsetGet be is pos =
       Some (if pos < intsetLen be is then Some (intset_members be is ! pos) else None) \<and>
     sorted_wrt (<) (intset_members be is) \<and>
     (if intsetLen be is = 0 then intsetRandom be is r = None
      else \<exists>v \<in> set (intset_members be is). intsetRandom be is r = Some v) \<and>
     intsetBlobLen be is = length (intset_blob be is)"
proof (intro conjI)
  define xs where "xs = intset_members be is"
  have rep: "intset_rep be is xs" using assms by (simp add: intset_inv_def xs_def)
  have len: "is_len be is = length xs" using rep by (simp add: intset_rep_def)
  show "intsetGet be is pos =
       Some (if pos < intsetLen be is then Some (intset_members be is ! pos) else None)"
    using intset_rep_get [OF rep, of pos] len by (simp add: intsetGet_def intsetLen_def xs_def)
  show "sorted_wrt (<) (intset_members be is)" using rep by (simp add: intset_rep_def xs_def)
  show "if intsetLen be is = 0 then intsetRandom be is r = None
      else \<exists>v \<in> set (intset_members be is). intsetRandom be is r = Some v"
    using len intset_rep_get [OF rep, of "r mod length xs"] nth_mem [of "r mod length xs" xs]
    by (auto simp: intsetRandom_def intsetLen_def xs_def)
  have "unat (intrev32ifbe be (ilength is)) \<le> intset_max" "unat (intrev32ifbe be (encoding is)) \<le> 8"
    using rep intset_rep_enc [OF rep] by (auto simp: intset_rep_def is_len_def is_enc_def)
  from unat_mult_small [OF this] show "intsetBlobLen be is = length (intset_blob be is)"
    using rep by (simp add: intsetBlobLen_def intset_blob_def intset_rep_def is_len_def is_enc_def)
qed

theorem intset_reads_witness:
  "intsetGet True (intsetNew True) 3 = Some None \<and> intsetBlobLen True (intsetNew True) = 8"
  using intset_reads [OF intset_rep_inv [OF intset_rep_new], of True 3]
  by (simp add: intsetLen_def is_len_def intset_blob_def intsetNew_def)

end
