(* ===== verification/Util.thy ===== *)
theory Util
  imports Prelude
begin

text \<open>
  \<^verbatim>\<open>util.c\<close>: conversion between integers and their decimal text (\<open>ll2string\<close>,
  \<open>string2ll\<close>, \<open>string2l\<close>) and of memory amounts (\<open>memtoll\<close>). A \<open>long long\<close> is an \<^typ>\<open>int\<close>
  in the range of 8 bytes, an \<open>unsigned long long\<close> a \<^typ>\<open>nat\<close> with its wrap-around written out.
  Parsers return \<^term>\<open>None\<close> where the code returns 0. \<open>ll2string\<close> writes into its stack buffer
  and into the caller's block through the checked memory, so that a result is also a proof that
  neither is overrun.
\<close>

abbreviation ULLONG_MAX :: nat where "ULLONG_MAX \<equiv> 2 ^ 64 - 1"
abbreviation LLONG_MAX :: int where "LLONG_MAX \<equiv> 2 ^ 63 - 1"
abbreviation LLONG_MIN :: int where "LLONG_MIN \<equiv> - (2 ^ 63)"

section \<open>Printing\<close>

text \<open>The \<open>do ... while(v)\<close> loop: one digit per round, from the end of \<open>buf\<close> towards its start.\<close>

function ll2string_loop :: "bytes \<Rightarrow> int \<Rightarrow> nat \<Rightarrow> (bytes \<times> int) option" where
  "ll2string_loop buf p v =
     (case mwrite buf p [of_nat (48 + v mod 10)] of
        None \<Rightarrow> None
      | Some buf \<Rightarrow>
          let p = p - 1; v = v div 10 in
          if v \<noteq> 0 then ll2string_loop buf p v else Some (buf, p))"
  by pat_completeness auto
termination
  by (relation "measure (\<lambda>(buf, p, v). v)") auto

declare ll2string_loop.simps [simp del]

text \<open>The end of the function: the text starts at \<open>buf + p\<close>.\<close>

definition ll2string_copy :: "bytes \<Rightarrow> int \<Rightarrow> bytes \<Rightarrow> nat \<Rightarrow> (bytes \<times> nat) option" where
  "ll2string_copy buf p s len =
     (let l = nat (32 - p);
          l = (if l + 1 > len then len - 1 else l)
      in do {
        src \<leftarrow> mread buf p l;
        s \<leftarrow> mwrite s 0 src;
        s \<leftarrow> mwrite s (int l) [0];
        Some (s, l) })"

text \<open>The destination block \<open>s\<close> after the call, and the returned length. The contents of the
  uninitialised stack buffer are the parameter \<open>buf0\<close>. The negation wraps at \<open>LLONG_MIN\<close>, which
  is the value two's complement hardware computes.\<close>

definition ll2string :: "bytes \<Rightarrow> bytes \<Rightarrow> nat \<Rightarrow> int \<Rightarrow> (bytes \<times> nat) option" where
  "ll2string buf0 s len value =
     (if len = 0 then Some (s, 0)
      else
        let v = upat 8 (if value < 0 then - value else value) in
        do {
          (buf, p) \<leftarrow> ll2string_loop buf0 31 v;
          (buf, p) \<leftarrow> (if value < 0 then do { buf \<leftarrow> mwrite buf p [ch CHR ''-'']; Some (buf, p - 1) }
                      else Some (buf, p));
          ll2string_copy buf (p + 1) s len })"

section \<open>Parsing\<close>

abbreviation is_digit :: "byte \<Rightarrow> bool" where
  "is_digit c \<equiv> ch CHR ''0'' \<le> c \<and> c \<le> ch CHR ''9''"

abbreviation digit_val :: "byte \<Rightarrow> nat" where
  "digit_val c \<equiv> unat c - 48"

text \<open>The \<open>while\<close> loop over the digits after the first: the accumulated value and what is left of
  the string, or \<^term>\<open>None\<close> at an overflow.\<close>

fun string2ll_loop :: "bytes \<Rightarrow> nat \<Rightarrow> (nat \<times> bytes) option" where
  "string2ll_loop [] v = Some (v, [])"
| "string2ll_loop (c # p) v =
     (if is_digit c then
        (if v > ULLONG_MAX div 10 then None
         else
           let v = (v * 10) mod 2 ^ 64 in
           if v > ULLONG_MAX - digit_val c then None
           else string2ll_loop p ((v + digit_val c) mod 2 ^ 64))
      else Some (v, c # p))"

definition string2ll :: "bytes \<Rightarrow> int option" where
  "string2ll s =
     (if s = [] then None
      else if s = [ch CHR ''0''] then Some 0
      else
        let negative = (hd s = ch CHR ''-'');
            p = (if negative then tl s else s) in
        case p of
          [] \<Rightarrow> None
        | c # p' \<Rightarrow>
            if ch CHR ''1'' \<le> c \<and> c \<le> ch CHR ''9'' then
              (case string2ll_loop p' (digit_val c) of
                 None \<Rightarrow> None
               | Some (v, rest) \<Rightarrow>
                   if rest \<noteq> [] then None
                   else if negative then
                     (if v > 2 ^ 63 then None else Some (spat 8 (upat 8 (- int v))))
                   else (if int v > LLONG_MAX then None else Some (int v)))
            else if c = ch CHR ''0'' \<and> length s = 1 then Some 0
            else None)"

text \<open>On the LP64 hosts Redis runs on, \<open>long\<close> has the range of \<open>long long\<close>.\<close>

definition string2l :: "bytes \<Rightarrow> int option" where
  "string2l s =
     (case string2ll s of
        None \<Rightarrow> None
      | Some llval \<Rightarrow> if llval < LLONG_MIN \<or> llval > LLONG_MAX then None else Some llval)"

section \<open>The decimal text of an integer\<close>

fun dec_repr :: "nat \<Rightarrow> bytes" where
  "dec_repr n = (if n < 10 then [of_nat (48 + n)] else dec_repr (n div 10) @ [of_nat (48 + n mod 10)])"

declare dec_repr.simps [simp del]

definition ll_repr :: "int \<Rightarrow> bytes" where
  "ll_repr v = (if v < 0 then ch CHR ''-'' # dec_repr (nat (- v)) else dec_repr (nat v))"

lemma dec_repr_nonempty [simp]: "dec_repr n \<noteq> []"
  by (subst dec_repr.simps) simp

lemma length_dec_repr: "n < 10 ^ Suc k \<Longrightarrow> length (dec_repr n) \<le> Suc k"
proof (induction k arbitrary: n)
  case 0
  then show ?case by (subst dec_repr.simps) simp
next
  case (Suc k)
  have "n div 10 < 10 ^ Suc k" using Suc.prems by (simp add: less_mult_imp_div_less)
  from Suc.IH [OF this] show ?case by (subst dec_repr.simps) simp
qed

text \<open>The loop fills the buffer with the decimal text, right aligned.\<close>

lemma ll2string_loop_repr:
  assumes "length b = length (dec_repr v)"
  shows "ll2string_loop (a @ b @ c) (int (length a + length b) - 1) v =
     Some (a @ dec_repr v @ c, int (length a) - 1)"
  using assms
proof (induction v arbitrary: b c rule: dec_repr.induct)
  case (1 v)
  let ?d = "of_nat (48 + v mod 10) :: byte"
  from "1.prems" obtain b' t where b: "b = b' @ [t]"
    by (cases b rule: rev_cases) auto
  have w: "mwrite (a @ b @ c) (int (length a + length b) - 1) [?d] = Some (a @ b' @ ?d # c)"
    using mwrite_app [of "[?d]" "[t]" "a @ b'" c] b by simp
  show ?case
  proof (cases "v < 10")
    case True
    then have r: "dec_repr v = [?d]" by (subst dec_repr.simps) simp
    then show ?thesis using True w b "1.prems" by (subst ll2string_loop.simps) simp
  next
    case False
    then have r: "dec_repr v = dec_repr (v div 10) @ [?d]" by (subst dec_repr.simps) simp
    then have "length b' = length (dec_repr (v div 10))" using "1.prems" b by simp
    from "1.IH" [OF False this, of "?d # c"] show ?thesis
      using False w b r by (subst ll2string_loop.simps) (simp add: Let_def div_eq_0_iff)
  qed
qed

lemma length_ll_repr: "srange 8 v \<Longrightarrow> length (ll_repr v) \<le> 20"
proof -
  assume v: "srange 8 v"
  then have "nat \<bar>v\<bar> < 10 ^ Suc 18" by (auto simp: srange_def)
  then have "length (dec_repr (nat \<bar>v\<bar>)) \<le> 19" using length_dec_repr by fastforce
  then show ?thesis by (auto simp: ll_repr_def abs_if split: if_splits)
qed

text \<open>What \<open>ll2string\<close> stores: the decimal text, cut to the room the caller gives, and a nul.\<close>

lemma ll2string_repr:
  assumes v: "srange 8 v" and buf: "length buf0 = 32" and len: "0 < len" "len \<le> length s"
  defines "t \<equiv> take (len - 1) (ll_repr v)"
  shows "ll2string buf0 s len v = Some (t @ 0 # drop (length t + 1) s, length t)"
proof -
  define n where "n = nat \<bar>v\<bar>"
  define R where "R = ll_repr v"
  have lR: "length R \<le> 20" using length_ll_repr [OF v] by (simp add: R_def)
  have u: "upat 8 (if v < 0 then - v else v) = n"
    using v by (auto simp: upat_def n_def srange_def)
  have Rn: "R = (if v < 0 then ch CHR ''-'' # dec_repr n else dec_repr n)"
    by (simp add: R_def ll_repr_def n_def)
  then have lD: "length (dec_repr n) \<le> 20" using lR by (auto split: if_splits)
  define a where "a = take (32 - length (dec_repr n)) buf0"
  define b where "b = drop (32 - length (dec_repr n)) buf0"
  have ab: "buf0 = a @ b @ []" "length b = length (dec_repr n)" "length a = 32 - length (dec_repr n)"
    using buf lD by (auto simp: a_def b_def)
  have lp: "ll2string_loop buf0 31 n = Some (a @ dec_repr n, int (length a) - 1)"
    using ll2string_loop_repr [OF ab(2), of a "[]"] ab lD by simp
  define A where "A = take (32 - length R) buf0"
  have A: "length A = 32 - length R" "length R \<le> 32" using buf lR by (auto simp: A_def)
  have sg: "(if v < 0 then do { buf \<leftarrow> mwrite (a @ dec_repr n) (int (length a) - 1) [ch CHR ''-''];
              Some (buf, int (length a) - 1 - 1) } else Some (a @ dec_repr n, int (length a) - 1)) =
      Some (A @ R, int (length A) - 1)"
  proof (cases "v < 0")
    case True
    have "butlast a = A" using True Rn buf lD by (simp add: a_def A_def butlast_take)
    moreover have "a \<noteq> []" using ab(3) lD by auto
    ultimately have a: "a = A @ [last a]" by (metis append_butlast_last_id)
    have "mwrite (a @ dec_repr n) (int (length a) - 1) [ch CHR ''-''] =
        Some (A @ [ch CHR ''-''] @ dec_repr n)"
      using mwrite_app [of "[ch CHR ''-'']" "[last a]" A "dec_repr n"] by (subst (1 2) a) simp
    then show ?thesis using True Rn A(1) ab(3) lD by simp
  next
    case False
    then show ?thesis using Rn by (simp add: A_def a_def)
  qed
  have lt: "length t = min (length R) (len - 1)" by (simp add: t_def R_def)
  have rd: "mread (A @ R) (int (length A)) (length t) = Some t"
    by (simp add: mread_def t_def R_def min_def)
  have wr: "mwrite s 0 t = Some (t @ drop (length t) s)"
      "mwrite (t @ drop (length t) s) (int (length t)) [0] = Some (t @ 0 # drop (length t + 1) s)"
    using len lt by (auto simp: mwrite_def)
  have e1: "nat (32 - int (length A)) = length R" using A by simp
  have e2: "(if len < length R + 1 then len - 1 else length R) = length t" using lt by auto
  have "ll2string_copy (A @ R) (int (length A)) s len =
      Some (t @ 0 # drop (length t + 1) s, length t)"
    unfolding ll2string_copy_def Let_def e1 e2 using rd wr by simp
  then show ?thesis
    using len(1) u lp sg by (simp add: ll2string_def Let_def split del: if_split)
qed

section \<open>Parsing accepts exactly the decimal texts\<close>

definition dec_val :: "bytes \<Rightarrow> nat \<Rightarrow> nat" where
  "dec_val p v = foldl (\<lambda>v c. v * 10 + digit_val c) v p"

lemma dec_val_simps [simp]:
  "dec_val [] v = v"
  "dec_val (c # p) v = dec_val p (v * 10 + digit_val c)"
  "dec_val (p @ [c]) v = dec_val p v * 10 + digit_val c"
  by (simp_all add: dec_val_def)

lemma dec_val_ge: "v \<le> dec_val p v"
proof (induction p arbitrary: v)
  case (Cons c p)
  have "v \<le> v * 10 + digit_val c" by simp
  also have "\<dots> \<le> dec_val p (v * 10 + digit_val c)" by (rule Cons)
  finally show ?case by simp
qed simp

lemma unat_digit: "n < 10 \<Longrightarrow> unat (48 + word_of_nat n :: byte) = 48 + n"
  by (simp add: unat_word_ariths unat_of_nat)

lemma digit_of_nat: "n < 10 \<Longrightarrow> is_digit (of_nat (48 + n) :: byte) \<and> digit_val (of_nat (48 + n)) = n"
  by (simp add: word_le_nat_alt unat_digit)

lemma of_nat_digit: "is_digit c \<Longrightarrow> of_nat (48 + digit_val c) = c \<and> digit_val c < 10"
  by (auto simp: word_le_nat_alt word_unat_eq_iff unat_of_nat)

lemma string2ll_loop_digits:
  assumes "\<forall>c \<in> set p. is_digit c" and "dec_val p v < 2 ^ 64"
  shows "string2ll_loop p v = Some (dec_val p v, [])"
  using assms
proof (induction p arbitrary: v)
  case (Cons c p)
  have "v * 10 + digit_val c < 2 ^ 64"
    using Cons.prems(2) dec_val_ge [of "v * 10 + digit_val c" p] by simp
  with Cons show ?case by (auto simp: Let_def)
qed simp

lemma string2ll_loop_sound:
  assumes "string2ll_loop p v = Some (w, [])" and "v < 2 ^ 64"
  shows "(\<forall>c \<in> set p. is_digit c) \<and> w = dec_val p v \<and> w < 2 ^ 64"
  using assms
proof (induction p arbitrary: v)
  case (Cons c p)
  have d: "is_digit c" and v: "\<not> v > ULLONG_MAX div 10"
    using Cons.prems(1) by (auto split: if_splits)
  then have m: "v * 10 mod 2 ^ 64 = v * 10" by simp
  then have o: "v * 10 + digit_val c \<le> ULLONG_MAX"
    using Cons.prems(1) d v of_nat_digit [of c] by (auto split: if_splits simp: Let_def)
  then have "string2ll_loop p (v * 10 + digit_val c) = Some (w, [])"
    using Cons.prems(1) d v m by (auto split: if_splits simp: Let_def)
  from Cons.IH [OF this] o d show ?case by simp
qed simp

lemma dec_repr_digits: "\<forall>c \<in> set (dec_repr n). is_digit c"
proof (induction n rule: dec_repr.induct)
  case (1 n)
  then show ?case using digit_of_nat [of n] digit_of_nat [of "n mod 10"]
    by (subst dec_repr.simps) auto
qed

lemma dec_val_repr: "dec_val (dec_repr n) 0 = n"
proof (induction n rule: dec_repr.induct)
  case (1 n)
  then show ?case using digit_of_nat [of n] digit_of_nat [of "n mod 10"]
    by (subst dec_repr.simps) auto
qed

lemma hd_dec_repr: "0 < n \<Longrightarrow> hd (dec_repr n) \<noteq> ch CHR ''0''"
proof (induction n rule: dec_repr.induct)
  case (1 n)
  then show ?case
    by (subst dec_repr.simps) (auto simp: hd_append word_unat_eq_iff unat_digit)
qed

lemma dec_repr_0: "dec_repr 0 = [ch CHR ''0'']"
  by (subst dec_repr.simps) simp

text \<open>A digit string without leading zero is the decimal text of its value.\<close>

lemma dec_repr_dec_val:
  "is_digit c \<Longrightarrow> c \<noteq> ch CHR ''0'' \<Longrightarrow> \<forall>x \<in> set p. is_digit x \<Longrightarrow>
   dec_repr (dec_val (c # p) 0) = c # p \<and> 0 < dec_val (c # p) 0"
proof (induction p rule: rev_induct)
  case Nil
  have "digit_val c \<noteq> 0" using Nil by (auto simp: word_le_nat_alt word_unat_eq_iff)
  then show ?case using of_nat_digit [of c] Nil by (subst dec_repr.simps) auto
next
  case (snoc x p)
  let ?m = "dec_val (c # p) 0"
  have x: "of_nat (48 + digit_val x) = x" "digit_val x < 10" using of_nat_digit [of x] snoc by auto
  have m: "dec_repr ?m = c # p" "0 < ?m" using snoc by auto
  have v: "dec_val (c # p @ [x]) 0 = ?m * 10 + digit_val x"
    using dec_val_simps(3) [of "c # p" x 0] by simp
  have "\<not> ?m * 10 + digit_val x < 10" using m(2) by simp
  then have "dec_repr (?m * 10 + digit_val x) = dec_repr ?m @ [x]"
    using x by (subst dec_repr.simps) simp
  with v m show ?case by simp
qed

lemma dec_repr_cases:
  assumes "0 < n"
  obtains c p where "dec_repr n = c # p" "is_digit c" "c \<noteq> ch CHR ''0''" "\<forall>x \<in> set p. is_digit x"
    "dec_val p (digit_val c) = n"
proof (cases "dec_repr n")
  case (Cons c p)
  with dec_repr_digits [of n] hd_dec_repr [OF assms] dec_val_repr [of n] that show thesis by auto
qed simp

lemma digit19: "(ch CHR ''1'' \<le> c \<and> c \<le> ch CHR ''9'') \<longleftrightarrow> is_digit c \<and> c \<noteq> ch CHR ''0''"
  by (auto simp: word_le_nat_alt word_unat_eq_iff)

lemma string2ll_repr:
  assumes "srange 8 v"
  shows "string2ll (ll_repr v) = Some v"
proof (cases "v = 0")
  case True
  then show ?thesis by (simp add: ll_repr_def dec_repr_0 string2ll_def)
next
  case False
  define n where "n = nat \<bar>v\<bar>"
  have "0 < n" using False by (simp add: n_def)
  from dec_repr_cases [OF this] obtain c p where cp: "dec_repr n = c # p" "is_digit c"
    "c \<noteq> ch CHR ''0''" "\<forall>x \<in> set p. is_digit x" "dec_val p (digit_val c) = n" .
  have n: "n < 2 ^ 64" using assms by (auto simp: n_def srange_def abs_if)
  have lp: "string2ll_loop p (digit_val c) = Some (n, [])"
    using string2ll_loop_digits [OF cp(4), of "digit_val c"] cp(5) n by simp
  have c45: "c \<noteq> 45" using cp(2) by (auto simp: word_le_nat_alt)
  show ?thesis
  proof (cases "v < 0")
    case True
    then have r: "ll_repr v = ch CHR ''-'' # c # p" using cp(1) by (simp add: ll_repr_def n_def)
    have nn: "\<not> n > 2 ^ 63" "- int n = v" using assms True by (auto simp: srange_def n_def)
    show ?thesis
      using lp cp(2,3) digit19 [of c] spat_upat [OF assms] nn by (simp add: string2ll_def r)
  next
    case False
    then have r: "ll_repr v = c # p" using cp(1) by (simp add: ll_repr_def n_def)
    have nn: "\<not> int n > LLONG_MAX" "int n = v" using assms False by (auto simp: srange_def n_def)
    show ?thesis
      using lp cp(2,3) digit19 [of c] nn c45 by (simp add: string2ll_def r)
  qed
qed

text \<open>The parser on a string with and without a sign.\<close>

definition string2ll_tail :: "bool \<Rightarrow> byte \<Rightarrow> bytes \<Rightarrow> int option" where
  "string2ll_tail negative c p =
     (case string2ll_loop p (digit_val c) of
        None \<Rightarrow> None
      | Some (v, rest) \<Rightarrow>
          if rest \<noteq> [] then None
          else if negative then (if v > 2 ^ 63 then None else Some (spat 8 (upat 8 (- int v))))
          else (if int v > LLONG_MAX then None else Some (int v)))"

lemma string2ll_neg:
  "string2ll (45 # q) =
     (case q of [] \<Rightarrow> None
      | c # p \<Rightarrow> if is_digit c \<and> c \<noteq> 48 then string2ll_tail True c p else None)"
  using digit19 by (auto simp: string2ll_def string2ll_tail_def split: list.split)

lemma string2ll_pos:
  "c \<noteq> 45 \<Longrightarrow> string2ll (c # p) =
     (if c = 48 \<and> p = [] then Some 0
      else if is_digit c \<and> c \<noteq> 48 then string2ll_tail False c p else None)"
  using digit19 [of c] by (auto simp: string2ll_def string2ll_tail_def)

lemma string2ll_tail_sound:
  assumes "string2ll_tail neg c p = Some v" and c: "is_digit c" "c \<noteq> 48"
  shows "srange 8 v \<and> (if neg then 45 # c # p else c # p) = ll_repr v"
proof -
  obtain w where lp: "string2ll_loop p (digit_val c) = Some (w, [])" and
    w: "if neg then w \<le> 2 ^ 63 \<and> v = spat 8 (upat 8 (- int w)) else int w \<le> LLONG_MAX \<and> v = int w"
    using assms(1) by (auto simp: string2ll_tail_def split: if_splits option.splits prod.splits)
  have dv: "digit_val c < 10" using of_nat_digit c(1) by simp
  from string2ll_loop_sound [OF lp] dv have dg: "\<forall>x \<in> set p. is_digit x" "w = dec_val (c # p) 0"
    by simp_all
  from dec_repr_dec_val [OF _ _ dg(1), of c] c dg(2) have r: "dec_repr w = c # p" "0 < w" by simp_all
  show ?thesis
  proof (cases neg)
    case True
    then have "srange 8 (- int w)" using w by (simp add: srange_def)
    then have "v = - int w" using w True spat_upat [of 8 "- int w"] by simp
    with True r w show ?thesis by (auto simp: srange_def ll_repr_def)
  next
    case False
    with r w show ?thesis by (auto simp: srange_def ll_repr_def)
  qed
qed

lemma string2ll_sound:
  assumes "string2ll s = Some v"
  shows "srange 8 v \<and> s = ll_repr v"
proof (cases s)
  case Nil
  with assms show ?thesis by (simp add: string2ll_def)
next
  case (Cons c p)
  show ?thesis
  proof (cases "c = 45")
    case True
    with assms Cons show ?thesis
      using string2ll_tail_sound [of True] by (auto simp: string2ll_neg split: list.splits if_splits)
  next
    case False
    with assms Cons string2ll_tail_sound [of False c p v] show ?thesis
      by (auto simp: string2ll_pos ll_repr_def dec_repr_0 srange_def split: if_splits)
  qed
qed

section \<open>Memory amounts\<close>

definition tolower :: "byte \<Rightarrow> byte" where
  "tolower c = (if ch CHR ''A'' \<le> c \<and> c \<le> ch CHR ''Z'' then c + 32 else c)"

definition strcasecmp_eq :: "bytes \<Rightarrow> bytes \<Rightarrow> bool" where
  "strcasecmp_eq a b \<longleftrightarrow> map tolower a = map tolower b"

text \<open>\<open>strtoll\<close> in base 10 on an optional minus sign and digits: it saturates at the ends of the
  range.\<close>

definition strtoll10 :: "bytes \<Rightarrow> int" where
  "strtoll10 s =
     (let neg = (s \<noteq> [] \<and> hd s = ch CHR ''-'');
          n = int (dec_val (takeWhile is_digit (if neg then tl s else s)) 0)
      in if neg then max LLONG_MIN (- n) else min LLONG_MAX n)"

text \<open>The multiplier for the text after the digits, and whether it is an unknown unit.\<close>

definition memtoll_unit :: "bytes \<Rightarrow> int \<times> bool" where
  "memtoll_unit u =
     (if u = [] \<or> strcasecmp_eq u (cstr ''b'') then (1, False)
      else if strcasecmp_eq u (cstr ''k'') then (1000, False)
      else if strcasecmp_eq u (cstr ''kb'') then (1024, False)
      else if strcasecmp_eq u (cstr ''m'') then (1000 * 1000, False)
      else if strcasecmp_eq u (cstr ''mb'') then (1024 * 1024, False)
      else if strcasecmp_eq u (cstr ''g'') then (1000 * 1000 * 1000, False)
      else if strcasecmp_eq u (cstr ''gb'') then (1024 * 1024 * 1024, False)
      else (1, True))"

text \<open>The value and the error flag. \<open>p\<close> is the text without its nul byte; the final product wraps
  around at 64 bits.\<close>

definition memtoll :: "bytes \<Rightarrow> int \<times> bool" where
  "memtoll p =
     (let sg = (if p \<noteq> [] \<and> hd p = ch CHR ''-'' then 1 else 0 :: nat);
          u = dropWhile is_digit (drop sg p);
          (mul, err) = memtoll_unit u;
          digits = length p - length u
      in if digits \<ge> 128 then (LLONG_MAX, True)
         else (spat 8 (upat 8 (strtoll10 (take digits p) * mul)), err))"

section \<open>Glob-style matching\<close>

text \<open>
  \<open>stringmatchlen\<close> walks two pointers with their remaining lengths. The blocks behind the pointers
  are \<open>pm\<close> and \<open>sm\<close>, with whatever follows the text (the nul byte of an sds string); a read
  outside a block and a pointer moved more than one past its end are \<^term>\<open>None\<close>. The lengths are
  \<^typ>\<open>int\<close>, because the code lets them become negative.
\<close>

definition rd :: "bytes \<Rightarrow> nat \<Rightarrow> byte option" where
  "rd m i = (if i < length m then Some (m ! i) else None)"

definition adv :: "bytes \<Rightarrow> nat \<Rightarrow> nat option" where
  "adv m i = (if i < length m then Some (i + 1) else None)"

text \<open>\<open>tolower\<close> of a \<open>char\<close> widened to \<open>int\<close>: only the ASCII upper case letters change.\<close>

definition tolower_int :: "int \<Rightarrow> int" where
  "tolower_int c = (if 65 \<le> c \<and> c \<le> 90 then c + 32 else c)"

definition chr_eq :: "bool \<Rightarrow> byte \<Rightarrow> byte \<Rightarrow> bool" where
  "chr_eq nocase a b =
     (if \<not> nocase then a = b else tolower_int (sint a) = tolower_int (sint b))"

text \<open>The \<open>while(1)\<close> loop over a bracket expression: the pattern pointer, its length and
  \<open>match\<close> when the loop is left.\<close>

function sml_class ::
  "bool \<Rightarrow> bytes \<Rightarrow> nat \<Rightarrow> int \<Rightarrow> bytes \<Rightarrow> nat \<Rightarrow> bool \<Rightarrow> (nat \<times> int \<times> bool) option" where
  "sml_class nocase pm pi plen sm si match =
     (case rd pm pi of None \<Rightarrow> None | Some c \<Rightarrow>
      if c = 92 then
        (case rd pm (pi + 1) of None \<Rightarrow> None | Some c' \<Rightarrow>
         case rd sm si of None \<Rightarrow> None | Some sc \<Rightarrow>
           sml_class nocase pm (pi + 2) (plen - 2) sm si (match \<or> c' = sc))
      else if c = ch CHR '']'' then Some (pi, plen, match)
      else if plen = 0 then Some (pi - 1, plen + 1, match)
      else
        (case rd pm (pi + 1) of None \<Rightarrow> None | Some c1 \<Rightarrow>
         if c1 = ch CHR ''-'' \<and> plen \<ge> 3 then
           (case rd pm (pi + 2) of None \<Rightarrow> None | Some c2 \<Rightarrow>
            case rd sm si of None \<Rightarrow> None | Some sc \<Rightarrow>
              let start = min (sint c) (sint c2);
                  stop = max (sint c) (sint c2);
                  start = (if nocase then tolower_int start else start);
                  stop = (if nocase then tolower_int stop else stop);
                  x = (if nocase then tolower_int (sint sc) else sint sc)
              in sml_class nocase pm (pi + 3) (plen - 3) sm si (match \<or> (start \<le> x \<and> x \<le> stop)))
         else
           (case rd sm si of None \<Rightarrow> None | Some sc \<Rightarrow>
              sml_class nocase pm (pi + 1) (plen - 1) sm si (match \<or> chr_eq nocase c sc))))"
  by pat_completeness auto
termination
  by (relation "measure (\<lambda>(nocase, pm, pi, plen, sm, si, match). length pm - pi)")
     (auto simp: rd_def split: if_splits)

declare sml_class.simps [simp del]

text \<open>\<open>while (pattern[1] == '*')\<close>, and \<open>while(*pattern == '*')\<close> at the end of the string.\<close>

function sml_stars :: "nat \<Rightarrow> bytes \<Rightarrow> nat \<Rightarrow> int \<Rightarrow> (nat \<times> int) option" where
  "sml_stars off pm pi plen =
     (case rd pm (pi + off) of None \<Rightarrow> None | Some c \<Rightarrow>
        if c = ch CHR ''*'' then sml_stars off pm (pi + 1) (plen - 1) else Some (pi, plen))"
  by pat_completeness auto
termination
  by (relation "measure (\<lambda>(off, pm, pi, plen). length pm - pi)")
     (auto simp: rd_def split: if_splits)

declare sml_stars.simps [simp del]

lemma sml_stars_mono: "sml_stars off pm pi plen = Some (pi', plen') \<Longrightarrow> pi \<le> pi'"
proof (induction off pm pi plen rule: sml_stars.induct)
  case (1 off pm pi plen)
  then show ?case
    by (subst (asm) (2) sml_stars.simps) (force split: option.splits if_splits)
qed

lemma sml_class_mono:
  "sml_class nocase pm pi plen sm si mt = Some (pi', plen', mt') \<Longrightarrow> pi \<le> Suc pi'"
proof (induction nocase pm pi plen sm si mt arbitrary: pi' plen' mt' rule: sml_class.induct)
  case (1 nocase pm pi plen sm si mt)
  note d = "1.prems" [unfolded sml_class.simps [of nocase pm pi plen sm si mt]]
  show ?case
  proof (rule ccontr)
    assume "\<not> pi \<le> Suc pi'"
    with "1.IH" d show False
      by (fastforce split: option.splits if_splits simp: Let_def)
  qed
qed

text \<open>The \<open>switch\<close> for every pattern character but the star: a result (\<^term>\<open>Inl\<close>) or the
  pointers and lengths after the element (\<^term>\<open>Inr\<close>).\<close>

definition sml_elem ::
  "bool \<Rightarrow> bytes \<Rightarrow> nat \<Rightarrow> int \<Rightarrow> bytes \<Rightarrow> nat \<Rightarrow> int \<Rightarrow> (bool + nat \<times> int \<times> nat \<times> int) option" where
  "sml_elem nocase pm pi plen sm si slen =
     (case rd pm pi of None \<Rightarrow> None | Some c \<Rightarrow>
      if c = ch CHR ''?'' then
        (if slen = 0 then Some (Inl False)
         else do { si \<leftarrow> adv sm si; Some (Inr (pi, plen, si, slen - 1)) })
      else if c = ch CHR ''['' then do {
        c1 \<leftarrow> rd pm (pi + 1);
        let neg = (c1 = ch CHR ''^'');
            pi = (if neg then pi + 2 else pi + 1);
            plen = (if neg then plen - 2 else plen - 1)
        in do {
          (pi, plen, match) \<leftarrow> sml_class nocase pm pi plen sm si False;
          let match = (if neg then \<not> match else match)
          in if \<not> match then Some (Inl False)
             else do { si \<leftarrow> adv sm si; Some (Inr (pi, plen, si, slen - 1)) } } }
      else
        let esc = (c = 92 \<and> plen \<ge> 2);
            pi = (if esc then pi + 1 else pi);
            plen = (if esc then plen - 1 else plen)
        in do {
          c \<leftarrow> rd pm pi;
          sc \<leftarrow> rd sm si;
          if \<not> chr_eq nocase c sc then Some (Inl False)
          else do { si \<leftarrow> adv sm si; Some (Inr (pi, plen, si, slen - 1)) } })"

text \<open>After the \<open>switch\<close>: the pattern pointer moves on, and at the end of the string the
  remaining stars are skipped and the loop is left.\<close>

definition sml_bottom :: "bytes \<Rightarrow> nat \<Rightarrow> int \<Rightarrow> int \<Rightarrow> (bool + nat \<times> int) option" where
  "sml_bottom pm pi plen slen = do {
     pi \<leftarrow> adv pm pi;
     if slen = 0 then do {
       (pi, plen) \<leftarrow> sml_stars 0 pm pi (plen - 1);
       Some (Inl (plen = 0)) }
     else Some (Inr (pi, plen - 1)) }"

lemma sml_elem_mono: "sml_elem nocase pm pi plen sm si slen = Some (Inr (pi', r)) \<Longrightarrow> pi \<le> pi'"
  by (cases r) (auto simp: sml_elem_def Let_def bind_eq_Some_conv split: option.splits if_splits
      dest!: sml_class_mono)

lemma sml_bottom_mono: "sml_bottom pm pi plen slen = Some (Inr (pi', plen')) \<Longrightarrow> pi' = Suc pi"
  by (auto simp: sml_bottom_def adv_def bind_eq_Some_conv split: if_splits)

text \<open>\<open>stringmatchlen\<close>; \<open>sml_star\<close> is its \<open>while(stringLen)\<close> loop after a star.\<close>

function sml :: "bool \<Rightarrow> bytes \<Rightarrow> nat \<Rightarrow> int \<Rightarrow> bytes \<Rightarrow> nat \<Rightarrow> int \<Rightarrow> bool option"
and sml_star :: "bool \<Rightarrow> bytes \<Rightarrow> nat \<Rightarrow> int \<Rightarrow> bytes \<Rightarrow> nat \<Rightarrow> int \<Rightarrow> bool option" where
  "sml nocase pm pi plen sm si slen =
     (if plen = 0 then Some (slen = 0)
      else case rd pm pi of None \<Rightarrow> None | Some c \<Rightarrow>
        if c = ch CHR ''*'' then
          (case sml_stars 1 pm pi plen of None \<Rightarrow> None | Some (pi', plen') \<Rightarrow>
             if plen' = 1 then Some True else sml_star nocase pm pi' plen' sm si slen)
        else
          (case sml_elem nocase pm pi plen sm si slen of
             None \<Rightarrow> None
           | Some (Inl b) \<Rightarrow> Some b
           | Some (Inr (pi', plen', si', slen')) \<Rightarrow>
               (case sml_bottom pm pi' plen' slen' of
                  None \<Rightarrow> None
                | Some (Inl b) \<Rightarrow> Some b
                | Some (Inr (pi'', plen'')) \<Rightarrow> sml nocase pm pi'' plen'' sm si' slen')))"
| "sml_star nocase pm pi plen sm si slen =
     (if slen = 0 then Some False
      else case adv pm pi of None \<Rightarrow> None | Some pi1 \<Rightarrow>
        (case sml nocase pm pi1 (plen - 1) sm si slen of
           None \<Rightarrow> None
         | Some True \<Rightarrow> Some True
         | Some False \<Rightarrow>
             (case adv sm si of None \<Rightarrow> None | Some si1 \<Rightarrow>
                sml_star nocase pm pi plen sm si1 (slen - 1))))"
  by pat_completeness auto
termination
proof (relation "measures
    [case_sum (\<lambda>(nocase, pm, pi, plen, sm, si, slen). length pm - pi)
       (\<lambda>(nocase, pm, pi, plen, sm, si, slen). length pm - pi),
     case_sum (\<lambda>_. 1) (\<lambda>_. 0),
     case_sum (\<lambda>(nocase, pm, pi, plen, sm, si, slen). length sm - si)
       (\<lambda>(nocase, pm, pi, plen, sm, si, slen). length sm - si)]", goal_cases)
  case 2
  then show ?case by (auto simp: rd_def split: if_splits dest!: sml_stars_mono)
next
  case 3
  then show ?case by (auto simp: rd_def split: if_splits dest!: sml_elem_mono sml_bottom_mono)
qed (auto simp: adv_def split: if_splits)

declare sml.simps [simp del] sml_star.simps [simp del]

definition stringmatchlen :: "bytes \<Rightarrow> int \<Rightarrow> bytes \<Rightarrow> int \<Rightarrow> bool \<Rightarrow> bool option" where
  "stringmatchlen pattern patternLen str stringLen nocase =
     sml nocase pattern 0 patternLen str 0 stringLen"

text \<open>\<open>stringmatch\<close> on two nul-terminated strings, given without their nul bytes.\<close>

definition stringmatch :: "bytes \<Rightarrow> bytes \<Rightarrow> bool \<Rightarrow> bool option" where
  "stringmatch pattern str nocase =
     stringmatchlen (pattern @ [0]) (int (length pattern)) (str @ [0]) (int (length str)) nocase"

subsection \<open>What a pattern without bracket expressions matches\<close>

datatype glob = GStar | GAny | GLit byte

fun gparse :: "bytes \<Rightarrow> glob list" where
  "gparse [] = []"
| "gparse (c # p) =
     (if c = ch CHR ''*'' then GStar # gparse p
      else if c = ch CHR ''?'' then GAny # gparse p
      else if c = 92 \<and> p \<noteq> [] then GLit (hd p) # gparse (tl p)
      else GLit c # gparse p)"

fun gmatch :: "bool \<Rightarrow> glob list \<Rightarrow> bytes \<Rightarrow> bool" where
  "gmatch nc [] s = (s = [])"
| "gmatch nc (GStar # g) [] = gmatch nc g []"
| "gmatch nc (GStar # g) (c # s) = (gmatch nc g (c # s) \<or> gmatch nc (GStar # g) s)"
| "gmatch nc (x # g) [] = False"
| "gmatch nc (GAny # g) (c # s) = gmatch nc g s"
| "gmatch nc (GLit a # g) (c # s) = (chr_eq nc a c \<and> gmatch nc g s)"

lemma gmatch_star_any [simp]: "gmatch nc [GStar] s"
  by (induction s) auto

lemma gmatch_star_suffix: "gmatch nc g s \<Longrightarrow> gmatch nc (GStar # g) s"
  by (cases s) auto

lemma gmatch_star_star: "gmatch nc (GStar # GStar # g) s = gmatch nc (GStar # g) s"
  by (induction s) (auto intro: gmatch_star_suffix)

lemma gmatch_nil: "gmatch nc (gparse q) [] \<longleftrightarrow> (\<forall>c \<in> set q. c = 42)"
  by (induction q rule: gparse.induct) auto

lemma chr_eq_nul: "c \<noteq> 0 \<Longrightarrow> \<not> chr_eq nocase c 0"
proof -
  assume "c \<noteq> 0"
  then have "sint c \<noteq> 0" by (metis signed_word_eqI sint_0)
  then show ?thesis using \<open>c \<noteq> 0\<close> by (auto simp: chr_eq_def tolower_int_def)
qed

lemma rd_nul:
  "i < length p \<Longrightarrow> rd (p @ [0]) i = Some (p ! i)" "i = length p \<Longrightarrow> rd (p @ [0]) i = Some 0"
  by (auto simp: rd_def nth_append)

lemma adv_nul: "i \<le> length p \<Longrightarrow> adv (p @ [0]) i = Some (Suc i)"
  by (auto simp: adv_def)

lemma sml_stars_run:
  assumes "i + off \<le> length p"
  shows "sml_stars off (p @ [0]) i plen =
     (let k = length (takeWhile (\<lambda>c. c = 42) (drop (i + off) p)) in Some (i + k, plen - int k))"
  using assms
proof (induction "length p - (i + off)" arbitrary: i plen)
  case 0
  then show ?case by (subst sml_stars.simps) (auto simp: rd_nul)
next
  case (Suc n)
  then have i: "i + off < length p" by simp
  note d = Cons_nth_drop_Suc [OF i, symmetric]
  show ?case
  proof (cases "p ! (i + off) = 42")
    case True
    have "sml_stars off (p @ [0]) i plen = sml_stars off (p @ [0]) (i + 1) (plen - 1)"
      using True i by (subst sml_stars.simps) (simp add: rd_nul)
    then show ?thesis using Suc.hyps(1) [of "i + 1" "plen - 1"] Suc.hyps(2) i True d by (simp add: Let_def)
  next
    case False
    then show ?thesis using i d by (subst sml_stars.simps) (simp add: rd_nul)
  qed
qed

lemma takeWhile_stars_all:
  "length (takeWhile (\<lambda>c. c = x) q) = length q \<longleftrightarrow> (\<forall>c \<in> set q. c = x)"
  by (induction q) auto

lemma gmatch_skip_stars:
  assumes "k \<le> length (takeWhile (\<lambda>c. c = 42) q)"
  shows "gmatch nc (GStar # gparse q) s = gmatch nc (GStar # gparse (drop k q)) s"
  using assms
proof (induction k arbitrary: q)
  case (Suc k)
  then obtain r where "q = 42 # r" by (cases q) (auto split: if_splits)
  with Suc show ?case by (simp add: gmatch_star_star)
qed simp

lemma sml_bottom_run:
  assumes "i < length p"
  shows "sml_bottom (p @ [0]) i (int (length p - i)) slen =
     (if slen = 0 then Some (Inl (gmatch nc (gparse (drop (Suc i) p)) []))
      else Some (Inr (Suc i, int (length p - Suc i))))"
proof -
  let ?q = "drop (Suc i) p"
  have "int (length p - i) - 1 - int (length (takeWhile (\<lambda>c. c = 42) ?q)) = 0 \<longleftrightarrow>
      length (takeWhile (\<lambda>c. c = 42) ?q) = length ?q"
    using assms by auto
  then show ?thesis
    using assms sml_stars_run [of "Suc i" 0 p "int (length p - i) - 1"] takeWhile_stars_all [of 42 ?q]
    by (simp add: sml_bottom_def adv_nul gmatch_nil Let_def)
qed

text \<open>One pattern element other than a star, followed by the end of the round.\<close>

lemma sml_elem_run:
  assumes i: "i < length p" "p ! i \<noteq> 42" and j: "j \<le> length s"
    and ok: "\<forall>c \<in> set p. c \<noteq> 0 \<and> c \<noteq> ch CHR ''[''"
  shows "\<exists>x i'. gparse (drop i p) = x # gparse (drop (Suc i') p) \<and> x \<noteq> GStar \<and> i \<le> i' \<and> i' < length p \<and>
     sml_elem nocase (p @ [0]) i (int (length p - i)) (s @ [0]) j (int (length s - j)) =
       (if j < length s \<and> gmatch nocase [x] [s ! j]
        then Some (Inr (i', int (length p - i'), Suc j, int (length s - Suc j)))
        else Some (Inl False))"
proof -
  note d = Cons_nth_drop_Suc [OF i(1), symmetric]
  have pm: "p ! i \<noteq> 91" "p ! i \<noteq> 0" using ok i(1) nth_mem by auto
  have l: "int (length s - j) = 0 \<longleftrightarrow> \<not> j < length s" using j by auto
  have lj: "j < length s \<Longrightarrow> int (length s - j) - 1 = int (length s - Suc j)" by auto
  have sr: "rd (s @ [0]) j = Some (if j < length s then s ! j else 0)"
    using j by (auto simp: rd_nul)
  consider "p ! i = 63" | "p ! i = 92" "Suc i < length p"
    | "p ! i \<noteq> 63" "\<not> (p ! i = 92 \<and> Suc i < length p)" by blast
  then show ?thesis
  proof cases
    case 1
    then show ?thesis
      using i pm d l lj j
      by (intro exI [of _ GAny] exI [of _ i]) (auto simp: sml_elem_def rd_nul adv_nul)
  next
    case 2
    note d' = Cons_nth_drop_Suc [OF 2(2), symmetric]
    have "p ! Suc i \<noteq> 0" using ok 2(2) nth_mem by auto
    then show ?thesis
      using 2 i pm d d' lj j sr chr_eq_nul [of "p ! Suc i" nocase]
      by (intro exI [of _ "GLit (p ! Suc i)"] exI [of _ "Suc i"])
         (auto simp: sml_elem_def rd_nul adv_nul)
  next
    case 3
    then have "p ! i = 92 \<Longrightarrow> drop (Suc i) p = []" "p ! i = 92 \<Longrightarrow> length p - i < 2" by auto
    then show ?thesis
      using 3 i pm d lj j sr chr_eq_nul [of "p ! i" nocase]
      by (intro exI [of _ "GLit (p ! i)"] exI [of _ i])
         (auto simp: sml_elem_def rd_nul adv_nul)
  qed
qed

lemma gmatch_cons:
  "x \<noteq> GStar \<Longrightarrow> gmatch nc (x # g) t =
     (case t of [] \<Rightarrow> False | c # t' \<Rightarrow> gmatch nc [x] [c] \<and> gmatch nc g t')"
  by (cases x; cases t) auto

text \<open>The loop after a run of stars tries the rest of the pattern at every position of the string.\<close>

lemma sml_star_run:
  assumes rest: "\<And>j. j \<le> length s \<Longrightarrow>
      sml nocase (p @ [0]) (Suc i) (int (length p - Suc i)) (s @ [0]) j (int (length s - j)) =
        Some (gmatch nocase (gparse (drop (Suc i) p)) (drop j s))"
    and i: "Suc i < length p" "p ! Suc i \<noteq> 42" and j: "j \<le> length s"
  shows "sml_star nocase (p @ [0]) i (int (length p - i)) (s @ [0]) j (int (length s - j)) =
     Some (gmatch nocase (GStar # gparse (drop (Suc i) p)) (drop j s))"
  using j
proof (induction "length s - j" arbitrary: j)
  case 0
  have "gparse (drop (Suc i) p) \<noteq> [] \<and> hd (gparse (drop (Suc i) p)) \<noteq> GStar"
    using i by (simp flip: Cons_nth_drop_Suc)
  then have "\<not> gmatch nocase (gparse (drop (Suc i) p)) []"
    by (cases "gparse (drop (Suc i) p)") (auto simp: gmatch_cons)
  with 0 show ?case by (subst sml_star.simps) simp
next
  case (Suc n)
  then have j: "j < length s" by simp
  have a: "int (length p - i) - 1 = int (length p - Suc i)"
      "int (length s - j) - 1 = int (length s - Suc j)" using i j by auto
  have IH: "sml_star nocase (p @ [0]) i (int (length p - i)) (s @ [0]) (Suc j) (int (length s - Suc j)) =
      Some (gmatch nocase (GStar # gparse (drop (Suc i) p)) (drop (Suc j) s))"
    using Suc j by (intro Suc.hyps(1)) auto
  have g: "gmatch nocase (GStar # gparse (drop (Suc i) p)) (drop j s) =
      (gmatch nocase (gparse (drop (Suc i) p)) (drop j s) \<or>
       gmatch nocase (GStar # gparse (drop (Suc i) p)) (drop (Suc j) s))"
    using Cons_nth_drop_Suc [OF j] by (metis gmatch.simps(3))
  have n: "int (length s - j) \<noteq> 0" "adv (p @ [0]) i = Some (Suc i)" "adv (s @ [0]) j = Some (Suc j)"
    using i j by (auto simp: adv_nul)
  show ?case
    unfolding g using rest [of j] IH j n
    by (subst sml_star.simps) (simp only: a, simp split: bool.split)
qed

lemma sml_run:
  assumes ok: "\<forall>c \<in> set p. c \<noteq> 0 \<and> c \<noteq> ch CHR ''[''" and "i \<le> length p" and "j \<le> length s"
  shows "sml nocase (p @ [0]) i (int (length p - i)) (s @ [0]) j (int (length s - j)) =
     Some (gmatch nocase (gparse (drop i p)) (drop j s))"
  using assms(2,3)
proof (induction "length p - i" arbitrary: i j rule: less_induct)
  case less
  show ?case
  proof (cases "i = length p")
    case True
    with less.prems show ?thesis by (subst sml.simps) auto
  next
    case False
    then have i: "i < length p" using less.prems by simp
    note d = Cons_nth_drop_Suc [OF i, symmetric]
    show ?thesis
    proof (cases "p ! i = 42")
      case star: True
      define k where "k = length (takeWhile (\<lambda>c. c = 42) (drop (Suc i) p))"
      have k: "i + k < length p"
        using i length_takeWhile_le [of "\<lambda>c. c = 42" "drop (Suc i) p"] by (simp add: k_def)
      have st: "sml_stars 1 (p @ [0]) i (int (length p - i)) = Some (i + k, int (length p - (i + k)))"
        using sml_stars_run [of i 1 p "int (length p - i)"] i k by (simp add: k_def Let_def)
      have un: "sml nocase (p @ [0]) i (int (length p - i)) (s @ [0]) j (int (length s - j)) =
          (if length p - (i + k) = 1 then Some True
           else sml_star nocase (p @ [0]) (i + k) (int (length p - (i + k))) (s @ [0]) j
                  (int (length s - j)))"
        using i star st k by (subst sml.simps) (auto simp: rd_nul)
      have g: "gmatch nocase (gparse (drop i p)) (drop j s) =
          gmatch nocase (GStar # gparse (drop (Suc (i + k)) p)) (drop j s)"
        using d star gmatch_skip_stars [of k "drop (Suc i) p" nocase "drop j s"]
        by (simp add: k_def add.commute)
      show ?thesis
      proof (cases "length p - (i + k) = 1")
        case True
        then show ?thesis using un g by simp
      next
        case False
        have ne: "p ! Suc (i + k) \<noteq> 42"
          using False k nth_length_takeWhile [of "\<lambda>c. c = 42" "drop (Suc i) p"]
          by (simp add: k_def)
        have "sml_star nocase (p @ [0]) (i + k) (int (length p - (i + k))) (s @ [0]) j (int (length s - j)) =
            Some (gmatch nocase (GStar # gparse (drop (Suc (i + k)) p)) (drop j s))"
          using False k by (intro sml_star_run less ne less.prems) auto
        with False un g show ?thesis by simp
      qed
    next
      case False
      from sml_elem_run [OF i False less.prems(2) ok, of nocase] obtain x i' where
        x: "gparse (drop i p) = x # gparse (drop (Suc i') p)" "x \<noteq> GStar" "i \<le> i'" "i' < length p"
          "sml_elem nocase (p @ [0]) i (int (length p - i)) (s @ [0]) j (int (length s - j)) =
            (if j < length s \<and> gmatch nocase [x] [s ! j]
             then Some (Inr (i', int (length p - i'), Suc j, int (length s - Suc j)))
             else Some (Inl False))" by (elim exE conjE) rule
      have IH: "j < length s \<Longrightarrow>
          sml nocase (p @ [0]) (Suc i') (int (length p - Suc i')) (s @ [0]) (Suc j) (int (length s - Suc j)) =
          Some (gmatch nocase (gparse (drop (Suc i') p)) (drop (Suc j) s))"
        using less.hyps [of "Suc i'" "Suc j"] x(3,4) by simp
      have g: "gmatch nocase (gparse (drop i p)) (drop j s) =
          (j < length s \<and> gmatch nocase [x] [s ! j] \<and> gmatch nocase (gparse (drop (Suc i') p)) (drop (Suc j) s))"
        using x(1,2) less.prems(2) Cons_nth_drop_Suc [of j s]
        by (cases "j < length s") (auto simp: gmatch_cons [of x nocase "gparse (drop (Suc i') p)"]
            split: list.split)
      show ?thesis
        using i False x(5) IH g sml_bottom_run [OF x(4), where nc = nocase]
        by (subst sml.simps) (auto simp: rd_nul)
    qed
  qed
qed

section \<open>Properties\<close>

text \<open>C9: \<open>string2ll\<close> accepts exactly the canonical decimal texts of the \<open>long long\<close> values (no
  leading zeros or plus sign, no minus zero, no surrounding space, no overflow) and returns the
  value they denote.\<close>

theorem string2ll_exact: "string2ll s = Some v \<longleftrightarrow> srange 8 v \<and> s = ll_repr v"
  using string2ll_repr string2ll_sound by blast

text \<open>C30: printing and parsing: with room for 20 characters and the nul byte, \<open>ll2string\<close> stays
  inside its stack buffer and the caller's block, terminates the text, and \<open>string2ll\<close> reads
  the value back.\<close>

theorem ll2string_roundtrip:
  assumes "srange 8 v" and "length buf0 = 32" and "21 \<le> len" and "len \<le> length s"
  shows "\<exists>s' l. ll2string buf0 s len v = Some (s', l) \<and> l \<le> 20 \<and> length s' = length s \<and>
     s' ! l = 0 \<and> string2ll (take l s') = Some v"
proof -
  have "length (ll_repr v) \<le> len - 1" using length_ll_repr [OF assms(1)] assms(3) by simp
  then have "take (len - 1) (ll_repr v) = ll_repr v" by simp
  with ll2string_repr [OF assms(1,2) _ assms(4)] assms(3)
  have "ll2string buf0 s len v =
      Some (ll_repr v @ 0 # drop (length (ll_repr v) + 1) s, length (ll_repr v))" by simp
  then show ?thesis
    using string2ll_repr [OF assms(1)] length_ll_repr [OF assms(1)] assms(3,4) by auto
qed

theorem ll2string_roundtrip_witness:
  "\<exists>s' l. ll2string (replicate 32 1) (replicate 40 7) 32 (- (2 ^ 63)) = Some (s', l) \<and> l \<le> 20 \<and>
     length s' = 40 \<and> s' ! l = 0 \<and> string2ll (take l s') = Some (- (2 ^ 63))"
  using ll2string_roundtrip [of "- (2 ^ 63)" "replicate 32 1" 32 "replicate 40 7"]
  by (simp add: srange_def)

text \<open>C16: a pattern without bracket expressions and nul bytes matches a string exactly when the
  glob semantics says so: \<open>*\<close> any text, \<open>?\<close> any byte, a backslash quotes the next byte; the
  matcher always returns and reads nothing outside the two nul-terminated strings.\<close>

theorem stringmatch_glob:
  assumes "\<forall>c \<in> set pattern. c \<noteq> 0 \<and> c \<noteq> ch CHR ''[''"
  shows "stringmatch pattern str nocase = Some (gmatch nocase (gparse pattern) str)"
  using sml_run [OF assms, of 0 0 str nocase] by (simp add: stringmatch_def stringmatchlen_def)

theorem stringmatch_glob_witness:
  "stringmatch (cstr ''h*l?o'') (cstr ''hexllxo'') False =
     Some (gmatch False (gparse (cstr ''h*l?o'')) (cstr ''hexllxo''))"
  by (rule stringmatch_glob) simp

text \<open>C38: a pattern that ends in an open bracket and a backslash makes the matcher read past the
  nul byte that ends the pattern, whatever the string is.\<close>

theorem stringmatch_open_class_overrun: "stringmatch [ch CHR ''['', 92] str nocase = None"
proof -
  obtain sc where sc: "rd (str @ [0]) 0 = Some sc" by (simp add: rd_def)
  have "sml_class nocase [91, 92, 0] 3 (- 1) (str @ [0]) 0 mt = None" for mt
    by (subst sml_class.simps) (simp add: rd_def)
  then have "sml_class nocase [91, 92, 0] 1 1 (str @ [0]) 0 False = None"
    using sc by (subst sml_class.simps) (simp add: rd_def numeral_3_eq_3)
  then have "sml_elem nocase [91, 92, 0] 0 2 (str @ [0]) 0 (int (length str)) = None"
    by (simp add: sml_elem_def rd_def)
  then show ?thesis
    by (simp add: stringmatch_def stringmatchlen_def, subst sml.simps, simp add: rd_def)
qed

text \<open>The units, in lower case, with the factor each stands for.\<close>

definition memory_units :: "(bytes \<times> nat) list" where
  "memory_units = [([], 1), (cstr ''b'', 1), (cstr ''k'', 1000), (cstr ''kb'', 1024),
     (cstr ''m'', 1000 ^ 2), (cstr ''mb'', 1024 ^ 2), (cstr ''g'', 1000 ^ 3), (cstr ''gb'', 1024 ^ 3)]"

lemma tolower_not_digit: "\<not> is_digit (tolower c) \<Longrightarrow> \<not> is_digit c"
  by (auto simp: tolower_def word_le_nat_alt split: if_splits)

lemma memtoll_unit_units:
  assumes "(u, mul) \<in> set memory_units" and "map tolower u' = u"
  shows "memtoll_unit u' = (int mul, False)"
proof -
  have su: "strcasecmp_eq u' x \<longleftrightarrow> u = map tolower x" for x
    using assms(2) by (auto simp: strcasecmp_eq_def)
  have "u' = [] \<longleftrightarrow> u = []" using assms(2) by auto
  with assms(1) show ?thesis
    unfolding memtoll_unit_def su by (auto simp: memory_units_def tolower_def)
qed

text \<open>Memory amounts: a decimal number followed by a unit, in either case, is the number times
  the unit's size, without error, as long as the product fits.\<close>

theorem memtoll_units:
  assumes u: "(u, mul) \<in> set memory_units" and u': "map tolower u' = u"
    and fits: "int (n * mul) \<le> LLONG_MAX"
  shows "memtoll (dec_repr n @ u') = (int (n * mul), False)"
proof -
  have mul: "1 \<le> mul" using u by (auto simp: memory_units_def)
  then have "n \<le> n * mul" by simp
  then have n: "int n \<le> LLONG_MAX" using fits by linarith
  then have l: "length (dec_repr n) < 128" using length_dec_repr [of n 18] by simp
  have "u' = [] \<or> \<not> is_digit (hd u')"
    using u u' tolower_not_digit [of "hd u'"] by (cases u') (auto simp: memory_units_def)
  then have dw: "dropWhile is_digit (dec_repr n @ u') = u'"
    using dec_repr_digits [of n] by (cases u') (auto simp: dropWhile_append)
  have tw: "takeWhile (\<lambda>c. 48 \<le> c \<and> c \<le> 57) (dec_repr n) = dec_repr n"
    using dec_repr_digits [of n] by (simp add: takeWhile_eq_all_conv)
  have hd: "hd (dec_repr n) \<noteq> 45" "hd (dec_repr n @ u') \<noteq> 45"
    using dec_repr_digits [of n] by (cases "dec_repr n"; force simp: word_le_nat_alt)+
  have st: "strtoll10 (dec_repr n) = int n"
    using hd n by (simp add: strtoll10_def dec_val_repr tw)
  have "srange 8 x" if "0 \<le> x" "x \<le> LLONG_MAX" for x
    using that by (simp add: srange_def)
  from this [OF _ fits] have "srange 8 (int (n * mul))" by simp
  then have sp: "spat 8 (upat 8 (int n * int mul)) = int (n * mul)" by (simp add: spat_upat)
  have "memtoll_unit u' = (int mul, False)" by (rule memtoll_unit_units [OF u u'])
  then show ?thesis
    using dw hd st sp l by (simp add: memtoll_def)
qed

theorem memtoll_units_witness: "memtoll (dec_repr 3 @ cstr ''Mb'') = (3145728, False)"
  using memtoll_units [of "cstr ''mb''" "1024 ^ 2" "cstr ''Mb''" 3]
  by (simp add: memory_units_def tolower_def)

text \<open>The example in the comment above \<open>memtoll\<close> does not hold: \<open>1Gi\<close> is not 1073741824 but
  an unknown unit, reported as an error with the value 1.\<close>

theorem memtoll_1Gi: "memtoll (cstr ''1Gi'') = (1, True)"
  by (simp add: memtoll_def memtoll_unit_def strcasecmp_eq_def tolower_def strtoll10_def spat_def
      upat_def)

end
