(* ===== verification/Builder_Spec.thy ===== *)
theory Builder_Spec
  imports Prelude
begin

text \<open>
  The contract of an append-only byte buffer: appending extends the content by exactly the given
  bytes, as long as the content stays below the capacity \<open>cap\<close> up to which the machine arithmetic
  of the buffer is exact. Clients that write a sequence of chunks are reasoned about once, inside
  the locale.
\<close>

fun app_all :: "('s \<Rightarrow> bytes \<Rightarrow> 's option) \<Rightarrow> 's \<Rightarrow> bytes list \<Rightarrow> 's option" where
  "app_all app s [] = Some s"
| "app_all app s (t # ts) = do { s \<leftarrow> app s t; app_all app s ts }"

lemma app_all_append:
  "app_all app s (xs @ ys) = do { s \<leftarrow> app_all app s xs; app_all app s ys }"
  by (induction app s xs rule: app_all.induct) (auto split: option.splits Option.bind_splits)

locale byte_builder =
  fixes inv :: "'s \<Rightarrow> bool" and str :: "'s \<Rightarrow> bytes" and cap :: nat
    and app :: "'s \<Rightarrow> bytes \<Rightarrow> 's option"
  assumes app_spec: "inv s \<Longrightarrow> length (str s) + length t < cap \<Longrightarrow>
      \<exists>s'. app s t = Some s' \<and> inv s' \<and> str s' = str s @ t"
begin

lemma app_all_spec:
  "inv s \<Longrightarrow> length (str s) + length (concat ts) < cap \<Longrightarrow>
   \<exists>s'. app_all app s ts = Some s' \<and> inv s' \<and> str s' = str s @ concat ts"
proof (induction ts arbitrary: s)
  case (Cons t ts)
  then obtain s1 where "app s t = Some s1" "inv s1" "str s1 = str s @ t"
    using app_spec [of s t] by auto
  with Cons.IH [of s1] Cons.prems show ?case by auto
qed simp

lemma app_all_prefix:
  assumes "inv s" "length (str s) + length (concat ts) < cap"
    and "app_all app s ts = Some s'" "app_all app s (take k ts) = Some s''"
  shows "\<exists>x. str s' = str s'' @ x"
proof -
  have c: "concat ts = concat (take k ts) @ concat (drop k ts)"
    by (simp flip: concat_append)
  with assms(1,2) app_all_spec [of s ts] app_all_spec [of s "take k ts"] assms(3,4)
  show ?thesis by auto
qed

end

end
