(* ===== verification/Sds.thy ===== *)
theory Sds
  imports Util Builder_Spec "HOL-Library.Sublist"
begin

text \<open>
  \<^verbatim>\<open>sds.c\<close>, \<^verbatim>\<open>sds.h\<close>: the dynamic strings of Redis. An sds is its header with the buffer
  behind it: \<open>len\<close> bytes of content, a nul byte, and \<open>free\<close> unused bytes; both counts are \<open>int\<close>s.
  The caller's data is passed as a byte list, a C string without its nul byte. Buffer accesses go
  through the checked memory; \<open>junk\<close> is what fresh memory holds. Allocation failure aborts the
  process (\<open>zmalloc\<close>), so the \<open>NULL\<close> returns of the code cannot occur and are not modelled.
  Operations that build new strings (splitting, joining, quoting) are modelled on the contents
  of the strings they return, which \<open>sdscatlen_content\<close> and \<open>sdsnewlen_content\<close> justify.
\<close>

record sdshdr =
  len :: int
  free :: int
  buf :: bytes

definition SDS_MAX_PREALLOC :: nat where "SDS_MAX_PREALLOC = 1024 * 1024"

definition sdslen :: "sdshdr \<Rightarrow> nat" where "sdslen h = usize (len h)"

definition sdsavail :: "sdshdr \<Rightarrow> nat" where "sdsavail h = usize (free h)"

section \<open>Creation\<close>

definition sdsnewlen :: "(nat \<Rightarrow> byte) \<Rightarrow> bytes option \<Rightarrow> nat \<Rightarrow> sdshdr option" where
  "sdsnewlen junk init initlen =
     (let b = (case init of Some _ \<Rightarrow> map junk [0..<initlen + 1] | None \<Rightarrow> replicate (initlen + 1) 0) in
      do {
        b \<leftarrow> (case init of
               Some t \<Rightarrow> if initlen \<noteq> 0 then do { src \<leftarrow> mread t 0 initlen; mwrite b 0 src } else Some b
             | None \<Rightarrow> Some b);
        b \<leftarrow> mwrite b (int initlen) [0];
        Some \<lparr>len = s32 (int initlen), free = 0, buf = b\<rparr> })"

definition sdsempty :: "(nat \<Rightarrow> byte) \<Rightarrow> sdshdr option" where
  "sdsempty junk = sdsnewlen junk (Some []) 0"

definition sdsnew :: "(nat \<Rightarrow> byte) \<Rightarrow> bytes option \<Rightarrow> sdshdr option" where
  "sdsnew junk init = sdsnewlen junk init (case init of None \<Rightarrow> 0 | Some t \<Rightarrow> length t)"

definition sdsdup :: "(nat \<Rightarrow> byte) \<Rightarrow> sdshdr \<Rightarrow> sdshdr option" where
  "sdsdup junk s = sdsnewlen junk (Some (buf s)) (sdslen s)"

section \<open>Length and space\<close>

text \<open>\<open>strlen\<close> of the buffer: a buffer without a nul byte is read past its end.\<close>

definition strlen_buf :: "bytes \<Rightarrow> nat option" where
  "strlen_buf m = (if 0 \<in> set m then Some (length (takeWhile (\<lambda>c. c \<noteq> 0) m)) else None)"

definition sdsupdatelen :: "sdshdr \<Rightarrow> sdshdr option" where
  "sdsupdatelen s = do {
     n \<leftarrow> strlen_buf (buf s);
     let reallen = s32 (int n)
     in Some (s\<lparr>free := free s + (len s - reallen), len := reallen\<rparr>) }"

definition sdsclear :: "sdshdr \<Rightarrow> sdshdr option" where
  "sdsclear s = do {
     b \<leftarrow> mwrite (buf s) 0 [0];
     Some (s\<lparr>buf := b, free := free s + len s, len := 0\<rparr>) }"

definition sdsMakeRoomFor :: "(nat \<Rightarrow> byte) \<Rightarrow> sdshdr \<Rightarrow> nat \<Rightarrow> sdshdr" where
  "sdsMakeRoomFor junk s addlen =
     (if sdsavail s \<ge> addlen then s
      else
        let l = sdslen s;
            newlen = (l + addlen) mod 2 ^ 64;
            newlen = (if newlen < SDS_MAX_PREALLOC then newlen * 2 mod 2 ^ 64
                      else (newlen + SDS_MAX_PREALLOC) mod 2 ^ 64)
        in s\<lparr>buf := zrealloc junk (buf s) (newlen + 1), free := s32 (int newlen - int l)\<rparr>)"

definition sdsRemoveFreeSpace :: "(nat \<Rightarrow> byte) \<Rightarrow> sdshdr \<Rightarrow> sdshdr" where
  "sdsRemoveFreeSpace junk s = s\<lparr>buf := zrealloc junk (buf s) (usize (len s) + 1), free := 0\<rparr>"

definition sdsAllocSize :: "sdshdr \<Rightarrow> nat" where
  "sdsAllocSize s = 8 + usize (len s) + usize (free s) + 1"

text \<open>The two assertions abort.\<close>

definition sdsIncrLen :: "sdshdr \<Rightarrow> int \<Rightarrow> sdshdr option" where
  "sdsIncrLen s incr =
     (if \<not> free s \<ge> incr then None
      else
        let s = s\<lparr>len := len s + incr, free := free s - incr\<rparr> in
        if \<not> free s \<ge> 0 then None
        else do { b \<leftarrow> mwrite (buf s) (len s) [0]; Some (s\<lparr>buf := b\<rparr>) })"

definition sdsgrowzero :: "(nat \<Rightarrow> byte) \<Rightarrow> sdshdr \<Rightarrow> nat \<Rightarrow> sdshdr option" where
  "sdsgrowzero junk s n =
     (let curlen = sdslen s in
      if n \<le> curlen then Some s
      else
        let s = sdsMakeRoomFor junk s (n - curlen) in
        do {
          b \<leftarrow> mwrite (buf s) (int curlen) (replicate (n - curlen + 1) 0);
          let totlen = len s + free s
          in Some (s\<lparr>buf := b, len := s32 (int n), free := s32 (totlen - s32 (int n))\<rparr>) })"

section \<open>Concatenation and copy\<close>

definition sdscatlen :: "(nat \<Rightarrow> byte) \<Rightarrow> sdshdr \<Rightarrow> bytes \<Rightarrow> nat \<Rightarrow> sdshdr option" where
  "sdscatlen junk s t n =
     (let curlen = sdslen s;
          s = sdsMakeRoomFor junk s n in
      do {
        src \<leftarrow> mread t 0 n;
        b \<leftarrow> mwrite (buf s) (int curlen) src;
        b \<leftarrow> mwrite b (int (curlen + n)) [0];
        Some (s\<lparr>len := s32 (int (curlen + n)), free := s32 (free s - int n), buf := b\<rparr>) })"

definition sdscat :: "(nat \<Rightarrow> byte) \<Rightarrow> sdshdr \<Rightarrow> bytes \<Rightarrow> sdshdr option" where
  "sdscat junk s t = sdscatlen junk s t (length t)"

definition sdscatsds :: "(nat \<Rightarrow> byte) \<Rightarrow> sdshdr \<Rightarrow> sdshdr \<Rightarrow> sdshdr option" where
  "sdscatsds junk s t = sdscatlen junk s (buf t) (sdslen t)"

definition sdscpylen :: "(nat \<Rightarrow> byte) \<Rightarrow> sdshdr \<Rightarrow> bytes \<Rightarrow> nat \<Rightarrow> sdshdr option" where
  "sdscpylen junk s t n =
     (let s = (if usize (free s + len s) < n then sdsMakeRoomFor junk s (usize (int n - len s)) else s);
          totlen = free s + len s in
      do {
        src \<leftarrow> mread t 0 n;
        b \<leftarrow> mwrite (buf s) 0 src;
        b \<leftarrow> mwrite b (int n) [0];
        Some (s\<lparr>len := s32 (int n), free := s32 (totlen - int n), buf := b\<rparr>) })"

definition sdscpy :: "(nat \<Rightarrow> byte) \<Rightarrow> sdshdr \<Rightarrow> bytes \<Rightarrow> sdshdr option" where
  "sdscpy junk s t = sdscpylen junk s t (length t)"

section \<open>Trimming and ranges\<close>

text \<open>\<open>strchr\<close> finds the terminating nul byte of the set too.\<close>

definition strchr :: "bytes \<Rightarrow> byte \<Rightarrow> bool" where
  "strchr cset c \<longleftrightarrow> c \<in> set cset \<or> c = 0"

function trim_sp :: "bytes \<Rightarrow> bytes \<Rightarrow> int \<Rightarrow> int \<Rightarrow> int option" where
  "trim_sp b cset sp stop =
     (if sp \<le> stop then
        (case mread b sp 1 of
           None \<Rightarrow> None
         | Some c \<Rightarrow> if strchr cset (hd c) then trim_sp b cset (sp + 1) stop else Some sp)
      else Some sp)"
  by pat_completeness auto
termination
  by (relation "measure (\<lambda>(b, cset, sp, stop). nat (stop - sp + 1))") auto

function trim_ep :: "bytes \<Rightarrow> bytes \<Rightarrow> int \<Rightarrow> int option" where
  "trim_ep b cset ep =
     (if ep > 0 then
        (case mread b ep 1 of
           None \<Rightarrow> None
         | Some c \<Rightarrow> if strchr cset (hd c) then trim_ep b cset (ep - 1) else Some ep)
      else Some ep)"
  by pat_completeness auto
termination
  by (relation "measure (\<lambda>(b, cset, ep). nat ep)") auto

declare trim_sp.simps [simp del] trim_ep.simps [simp del]

definition sdstrim :: "sdshdr \<Rightarrow> bytes \<Rightarrow> sdshdr option" where
  "sdstrim s cset =
     (let stop = int (sdslen s) - 1 in
      do {
        sp \<leftarrow> trim_sp (buf s) cset 0 stop;
        ep \<leftarrow> trim_ep (buf s) cset stop;
        let n = (if sp > ep then 0 else nat (ep - sp + 1))
        in do {
          b \<leftarrow> (if sp \<noteq> 0 then memmove (buf s) 0 sp n else Some (buf s));
          b \<leftarrow> mwrite b (int n) [0];
          Some (s\<lparr>buf := b, free := free s + (len s - int n), len := int n\<rparr>) } })"

text \<open>The index computation of \<open>sdsrange\<close> for a non-empty string: the final \<open>start\<close> and
  \<open>newlen\<close>.\<close>

definition sdsrange_clip :: "int \<Rightarrow> int \<Rightarrow> int \<Rightarrow> int \<times> int" where
  "sdsrange_clip l start stop =
     (let start = (if start < 0 then (if l + start < 0 then 0 else l + start) else start);
          stop = (if stop < 0 then (if l + stop < 0 then 0 else l + stop) else stop);
          newlen = (if start > stop then 0 else stop - start + 1)
      in if newlen \<noteq> 0 then
           (if start \<ge> l then (start, 0)
            else if stop \<ge> l then
              (let stop = l - 1 in (start, if start > stop then 0 else stop - start + 1))
            else (start, newlen))
         else (0, newlen))"

definition sdsrange :: "sdshdr \<Rightarrow> int \<Rightarrow> int \<Rightarrow> sdshdr option" where
  "sdsrange s start stop =
     (let l = int (sdslen s) in
      if l = 0 then Some s
      else
        let (start, newlen) = sdsrange_clip l start stop
        in do {
          b \<leftarrow> (if start \<noteq> 0 \<and> newlen \<noteq> 0 then memmove (buf s) 0 start (nat newlen) else Some (buf s));
          b \<leftarrow> mwrite b newlen [0];
          Some (s\<lparr>buf := b, free := free s + (len s - newlen), len := newlen\<rparr>) })"

section \<open>Case conversion, substitution, comparison\<close>

definition toupper :: "byte \<Rightarrow> byte" where
  "toupper c = (if ch CHR ''a'' \<le> c \<and> c \<le> ch CHR ''z'' then c - 32 else c)"

text \<open>The loops over the first \<open>n\<close> bytes of the buffer; a byte outside it is \<^term>\<open>None\<close>.\<close>

definition map_prefix :: "(byte \<Rightarrow> byte) \<Rightarrow> nat \<Rightarrow> bytes \<Rightarrow> bytes option" where
  "map_prefix f n m = (if n \<le> length m then Some (map f (take n m) @ drop n m) else None)"

definition sdstolower :: "sdshdr \<Rightarrow> sdshdr option" where
  "sdstolower s = do { b \<leftarrow> map_prefix tolower (sdslen s) (buf s); Some (s\<lparr>buf := b\<rparr>) }"

definition sdstoupper :: "sdshdr \<Rightarrow> sdshdr option" where
  "sdstoupper s = do { b \<leftarrow> map_prefix toupper (sdslen s) (buf s); Some (s\<lparr>buf := b\<rparr>) }"

text \<open>The inner loop of \<open>sdsmapchars\<close>: the first position of the byte in \<open>from\<close> decides.\<close>

fun mapchar :: "bytes \<Rightarrow> bytes \<Rightarrow> byte \<Rightarrow> byte" where
  "mapchar (f # from) (t # to) c = (if c = f then t else mapchar from to c)"
| "mapchar _ _ c = c"

definition sdsmapchars :: "sdshdr \<Rightarrow> bytes \<Rightarrow> bytes \<Rightarrow> nat \<Rightarrow> sdshdr option" where
  "sdsmapchars s from to setlen =
     (if length from < setlen \<or> length to < setlen then None
      else do {
        b \<leftarrow> map_prefix (mapchar (take setlen from) (take setlen to)) (sdslen s) (buf s);
        Some (s\<lparr>buf := b\<rparr>) })"

text \<open>\<open>memcmp\<close>: the difference of the first two bytes that differ, as unsigned values.\<close>

fun memcmp :: "bytes \<Rightarrow> bytes \<Rightarrow> int" where
  "memcmp (a # x) (b # y) = (if a = b then memcmp x y else int (unat a) - int (unat b))"
| "memcmp _ _ = 0"

definition sdscmp :: "sdshdr \<Rightarrow> sdshdr \<Rightarrow> int" where
  "sdscmp s1 s2 =
     (let l1 = sdslen s1; l2 = sdslen s2;
          minlen = (if l1 < l2 then l1 else l2);
          cmp = memcmp (take minlen (buf s1)) (take minlen (buf s2))
      in if cmp = 0 then s32 (int l1 - int l2) else cmp)"

definition sdsfromlonglong :: "(nat \<Rightarrow> byte) \<Rightarrow> bytes \<Rightarrow> int \<Rightarrow> sdshdr option" where
  "sdsfromlonglong junk buf0 value =
     (let v = upat 8 (if value < 0 then - value else value) in
      do {
        (b, p) \<leftarrow> ll2string_loop buf0 31 v;
        (b, p) \<leftarrow> (if value < 0 then do { b \<leftarrow> mwrite b p [ch CHR ''-'']; Some (b, p - 1) }
                  else Some (b, p));
        t \<leftarrow> mread b (p + 1) (nat (32 - (p + 1)));
        sdsnewlen junk (Some t) (nat (32 - (p + 1))) })"

section \<open>Quoting, splitting and joining\<close>

text \<open>\<open>isprint\<close> and \<open>isspace\<close> in the C locale; \<open>hex2\<close> is what the format \<open>%02x\<close> prints.\<close>

definition isprint :: "byte \<Rightarrow> bool" where
  "isprint c \<longleftrightarrow> 32 \<le> c \<and> c \<le> 126"

definition isspace :: "byte \<Rightarrow> bool" where
  "isspace c \<longleftrightarrow> c = 32 \<or> (9 \<le> c \<and> c \<le> 13)"

definition hex_char :: "nat \<Rightarrow> byte" where
  "hex_char d = (if d < 10 then of_nat (48 + d) else of_nat (87 + d))"

definition hex2 :: "byte \<Rightarrow> bytes" where
  "hex2 c = [hex_char (unat c div 16), hex_char (unat c mod 16)]"

definition repr_byte :: "byte \<Rightarrow> bytes" where
  "repr_byte c =
     (if c = ch CHR 0x5C \<or> c = ch CHR 0x22 then [ch CHR 0x5C, c]
      else if c = 10 then [ch CHR 0x5C, ch CHR ''n'']
      else if c = 13 then [ch CHR 0x5C, ch CHR ''r'']
      else if c = 9 then [ch CHR 0x5C, ch CHR ''t'']
      else if c = 7 then [ch CHR 0x5C, ch CHR ''a'']
      else if c = 8 then [ch CHR 0x5C, ch CHR ''b'']
      else if isprint c then [c]
      else [ch CHR 0x5C, ch CHR ''x''] @ hex2 c)"

fun sdscatrepr_loop :: "(nat \<Rightarrow> byte) \<Rightarrow> sdshdr \<Rightarrow> bytes \<Rightarrow> nat \<Rightarrow> sdshdr option" where
  "sdscatrepr_loop junk s p 0 = Some s"
| "sdscatrepr_loop junk s [] (Suc n) = None"
| "sdscatrepr_loop junk s (c # p) (Suc n) = do {
     s \<leftarrow> sdscatlen junk s (repr_byte c) (length (repr_byte c));
     sdscatrepr_loop junk s p n }"

definition sdscatrepr :: "(nat \<Rightarrow> byte) \<Rightarrow> sdshdr \<Rightarrow> bytes \<Rightarrow> nat \<Rightarrow> sdshdr option" where
  "sdscatrepr junk s p n = do {
     s \<leftarrow> sdscatlen junk s [ch CHR 0x22] 1;
     s \<leftarrow> sdscatrepr_loop junk s p n;
     sdscatlen junk s [ch CHR 0x22] 1 }"

definition is_hex_digit :: "byte \<Rightarrow> bool" where
  "is_hex_digit c \<longleftrightarrow> (48 \<le> c \<and> c \<le> 57) \<or> (97 \<le> c \<and> c \<le> 102) \<or> (65 \<le> c \<and> c \<le> 70)"

definition hex_digit_to_int :: "byte \<Rightarrow> nat" where
  "hex_digit_to_int c =
     (if 48 \<le> c \<and> c \<le> 57 then unat c - 48
      else if 97 \<le> c \<and> c \<le> 102 then unat c - 87
      else if 65 \<le> c \<and> c \<le> 70 then unat c - 55
      else 0)"

text \<open>\<open>*(p+k)\<close> for a C string \<open>p\<close> given without its nul byte.\<close>

definition pk :: "bytes \<Rightarrow> nat \<Rightarrow> byte" where
  "pk p k = (if k < length p then p ! k else 0)"

definition unescape :: "byte \<Rightarrow> byte" where
  "unescape c = (if c = ch CHR ''n'' then 10 else if c = ch CHR ''r'' then 13
     else if c = ch CHR ''t'' then 9 else if c = ch CHR ''b'' then 8
     else if c = ch CHR ''a'' then 7 else c)"

text \<open>The token loop: plain text, inside double quotes (\<open>inq\<close>), inside single quotes (\<open>insq\<close>). It
  returns the token and the rest of the line, or \<^term>\<open>None\<close> for the error exit.\<close>

datatype qmode = Plain | Inq | Insq

function (sequential) split_tok :: "qmode \<Rightarrow> bytes \<Rightarrow> bytes \<Rightarrow> (bytes \<times> bytes) option" where
  "split_tok Inq p cur =
     (if pk p 0 = ch CHR 0x5C \<and> pk p 1 = ch CHR ''x'' \<and> is_hex_digit (pk p 2) \<and> is_hex_digit (pk p 3)
      then split_tok Inq (drop 4 p)
             (cur @ [of_nat (hex_digit_to_int (pk p 2) * 16 + hex_digit_to_int (pk p 3))])
      else if pk p 0 = ch CHR 0x5C \<and> pk p 1 \<noteq> 0
      then split_tok Inq (drop 2 p) (cur @ [unescape (pk p 1)])
      else if pk p 0 = ch CHR 0x22
      then (if pk p 1 \<noteq> 0 \<and> \<not> isspace (pk p 1) then None else Some (cur, drop 1 p))
      else if pk p 0 = 0 then None
      else split_tok Inq (drop 1 p) (cur @ [pk p 0]))"
| "split_tok Insq p cur =
     (if pk p 0 = ch CHR 0x5C \<and> pk p 1 = ch CHR 0x27
      then split_tok Insq (drop 2 p) (cur @ [ch CHR 0x27])
      else if pk p 0 = ch CHR 0x27
      then (if pk p 1 \<noteq> 0 \<and> \<not> isspace (pk p 1) then None else Some (cur, drop 1 p))
      else if pk p 0 = 0 then None
      else split_tok Insq (drop 1 p) (cur @ [pk p 0]))"
| "split_tok Plain p cur =
     (let c = pk p 0 in
      if c = 32 \<or> c = 10 \<or> c = 13 \<or> c = 9 then Some (cur, drop 1 p)
      else if c = 0 then Some (cur, p)
      else if c = ch CHR 0x22 then split_tok Inq (drop 1 p) cur
      else if c = ch CHR 0x27 then split_tok Insq (drop 1 p) cur
      else split_tok Plain (drop 1 p) (cur @ [c]))"
  by pat_completeness auto

lemma pk_nonempty: "pk p k \<noteq> 0 \<Longrightarrow> k < length p"
  by (auto simp: pk_def split: if_splits)

termination split_tok
  by (relation "measure (\<lambda>(q, p, cur). length p)") (auto dest: pk_nonempty simp: pk_def split: if_splits)

declare split_tok.simps [simp del]

lemma split_tok_shorter:
  "split_tok q p cur = Some (t, r) \<Longrightarrow> length r \<le> length p \<and> (pk p 0 \<noteq> 0 \<longrightarrow> length r < length p)"
proof (induction q p cur rule: split_tok.induct)
  case (1 p cur)
  from 1(4) show ?case
    by (subst (asm) split_tok.simps)
      (use 1(1-3) in \<open>auto dest: pk_nonempty simp: pk_def split: if_splits\<close>)
next
  case (2 p cur)
  from 2(3) show ?case
    by (subst (asm) split_tok.simps)
      (use 2(1-2) in \<open>auto dest: pk_nonempty simp: pk_def split: if_splits\<close>)
next
  case (3 p cur)
  from 3(4) show ?case
    by (subst (asm) split_tok.simps)
      (use 3(1-3) in \<open>auto dest: pk_nonempty simp: pk_def Let_def split: if_splits\<close>)
qed

text \<open>\<open>dropWhile\<close> skips the blanks; the nul byte is not a blank.\<close>

function split_loop :: "bytes \<Rightarrow> bytes list \<Rightarrow> bytes list option" where
  "split_loop p vector =
     (let p = dropWhile isspace p in
      if pk p 0 \<noteq> 0 then
        (case split_tok Plain p [] of
           None \<Rightarrow> None
         | Some (current, p) \<Rightarrow> split_loop p (vector @ [current]))
      else Some vector)"
  by pat_completeness auto
termination
proof (relation "measure (\<lambda>(p, v). length p)", goal_cases)
  case (2 p vector x y current r)
  then show ?case using split_tok_shorter length_dropWhile_le [of isspace p]
    by (metis (no_types, lifting) case_prod_conv in_measure order_less_le_trans)
qed simp

declare split_loop.simps [simp del]

definition sdssplitargs :: "bytes \<Rightarrow> bytes list option" where
  "sdssplitargs line = split_loop line []"

text \<open>\<open>sdssplitlen\<close>: the tokens found so far, the slots of the token array, the start of the current
  token and the position. A read outside \<open>s\<close> or \<open>sep\<close> and a store outside the token array are
  \<^term>\<open>None\<close>. The caller has checked that \<open>seplen\<close> is positive; the loop repeats the test so that it
  is total.\<close>

definition put_token :: "bytes list \<Rightarrow> int \<Rightarrow> bytes \<Rightarrow> bytes list option" where
  "put_token tokens slots t = (if int (length tokens) < slots then Some (tokens @ [t]) else None)"

definition grow_slots :: "bytes list \<Rightarrow> int \<Rightarrow> int" where
  "grow_slots tokens slots = (if slots < int (length tokens) + 2 then slots * 2 else slots)"

function splitlen_loop ::
  "bytes \<Rightarrow> int \<Rightarrow> bytes \<Rightarrow> int \<Rightarrow> bytes list \<Rightarrow> int \<Rightarrow> int \<Rightarrow> int \<Rightarrow> (bytes list \<times> int \<times> int) option" where
  "splitlen_loop s l sep seplen tokens slots start j =
     (if 0 < seplen \<and> j < l - (seplen - 1) then
        let slots = grow_slots tokens slots in
        (case (mread s j (nat seplen), mread sep 0 (nat seplen)) of
           (Some a, Some b) \<Rightarrow>
             if memcmp a b = 0 then
               (case (case mread s start (nat (j - start)) of
                        None \<Rightarrow> None | Some t \<Rightarrow> put_token tokens slots t) of
                  None \<Rightarrow> None
                | Some tokens \<Rightarrow>
                    splitlen_loop s l sep seplen tokens slots (j + seplen) (j + seplen - 1 + 1))
             else splitlen_loop s l sep seplen tokens slots start (j + 1)
         | _ \<Rightarrow> None)
      else Some (tokens, slots, start))"
  by pat_completeness auto
termination
  by (relation "measure (\<lambda>(s, l, sep, seplen, tokens, slots, start, j). nat (l - j))") auto

declare splitlen_loop.simps [simp del]

datatype split_result = SplitNull | SplitTokens "bytes list"

definition sdssplitlen :: "bytes \<Rightarrow> int \<Rightarrow> bytes \<Rightarrow> int \<Rightarrow> split_result option" where
  "sdssplitlen s l sep seplen =
     (if seplen < 1 \<or> l < 0 then Some SplitNull
      else if l = 0 then Some (SplitTokens [])
      else do {
        (tokens, slots, start) \<leftarrow> splitlen_loop s l sep seplen [] 5 0 0;
        t \<leftarrow> mread s start (nat (l - start));
        tokens \<leftarrow> put_token tokens slots t;
        Some (SplitTokens tokens) })"

fun sdsjoin_loop :: "(nat \<Rightarrow> byte) \<Rightarrow> sdshdr \<Rightarrow> bytes list \<Rightarrow> bytes \<Rightarrow> sdshdr option" where
  "sdsjoin_loop junk join [] sep = Some join"
| "sdsjoin_loop junk join (a # argv) sep = do {
     join \<leftarrow> sdscat junk join a;
     join \<leftarrow> (if argv \<noteq> [] then sdscat junk join sep else Some join);
     sdsjoin_loop junk join argv sep }"

definition sdsjoin :: "(nat \<Rightarrow> byte) \<Rightarrow> bytes list \<Rightarrow> bytes \<Rightarrow> sdshdr option" where
  "sdsjoin junk argv sep = do { join \<leftarrow> sdsempty junk; sdsjoin_loop junk join argv sep }"

section \<open>Well-formed strings and their contents\<close>

text \<open>\<open>sds_rep s x F\<close>: the string \<open>s\<close> holds the bytes \<open>x\<close>, a nul byte and the unused bytes \<open>F\<close>, and
  its counts are exact.\<close>

definition sds_rep :: "sdshdr \<Rightarrow> bytes \<Rightarrow> bytes \<Rightarrow> bool" where
  "sds_rep s x F \<longleftrightarrow> buf s = x @ 0 # F \<and> len s = int (length x) \<and> free s = int (length F) \<and>
     length x + length F < 2 ^ 31"

definition sds_wf :: "sdshdr \<Rightarrow> bool" where
  "sds_wf s \<longleftrightarrow> 0 \<le> len s \<and> 0 \<le> free s \<and> len s + free s < 2 ^ 31 \<and>
     int (length (buf s)) = len s + free s + 1 \<and> buf s ! nat (len s) = 0"

definition sds_str :: "sdshdr \<Rightarrow> bytes" where
  "sds_str s = take (nat (len s)) (buf s)"

text \<open>Room for \<open>n\<close> more bytes without leaving the range of the \<open>int\<close> counts, the preallocation
  included.\<close>

definition sds_room :: "sdshdr \<Rightarrow> nat \<Rightarrow> bool" where
  "sds_room s n \<longleftrightarrow> length (sds_str s) + n + SDS_MAX_PREALLOC < 2 ^ 31"

lemma sds_rep_wf: "sds_rep s x F \<Longrightarrow> sds_wf s"
  by (auto simp: sds_rep_def sds_wf_def nth_append)

lemma sds_rep_str: "sds_rep s x F \<Longrightarrow> sds_str s = x"
  by (simp add: sds_rep_def sds_str_def)

lemma sds_wf_rep:
  assumes "sds_wf s"
  shows "sds_rep s (sds_str s) (drop (nat (len s) + 1) (buf s))"
proof -
  have l: "nat (len s) < length (buf s)" using assms by (auto simp: sds_wf_def)
  have "buf s = take (nat (len s)) (buf s) @ 0 # drop (nat (len s) + 1) (buf s)"
    using assms id_take_nth_drop [OF l] by (simp add: sds_wf_def)
  then show ?thesis using assms l by (auto simp: sds_rep_def sds_str_def sds_wf_def)
qed

lemma sds_wfE:
  assumes "sds_wf s" obtains F where "sds_rep s (sds_str s) F"
  using sds_wf_rep [OF assms] by blast

lemma sds_rep_len:
  assumes "sds_rep s x F"
  shows "sdslen s = length x" "sdsavail s = length F"
  using assms usize_id [of "len s"] usize_id [of "free s"]
  by (auto simp: sds_rep_def sdslen_def sdsavail_def)

lemma sds_str_length: "sds_wf s \<Longrightarrow> sdslen s = length (sds_str s)"
  using sds_rep_len sds_wfE by metis

section \<open>Growing\<close>

lemma sdsnewlen_rep:
  assumes "length t = n" and "n < 2 ^ 31"
  shows "\<exists>s. sdsnewlen junk (Some (t @ u)) n = Some s \<and> sds_rep s t []"
proof (intro exI conjI)
  show "sdsnewlen junk (Some (t @ u)) n = Some \<lparr>len = int n, free = 0, buf = t @ [0]\<rparr>"
    using assms by (auto simp: sdsnewlen_def Let_def crange)
  show "sds_rep \<lparr>len = int n, free = 0, buf = t @ [0]\<rparr> t []"
    using assms by (simp add: sds_rep_def)
qed

lemma sdsMakeRoomFor_rep:
  assumes rep: "sds_rep s x F" and room: "length x + n + SDS_MAX_PREALLOC < 2 ^ 31"
  shows "\<exists>F'. sds_rep (sdsMakeRoomFor junk s n) x F' \<and> n \<le> length F'"
proof (cases "length F \<ge> n")
  case True
  with rep show ?thesis by (auto simp: sdsMakeRoomFor_def sds_rep_len [OF rep])
next
  case False
  define L where "L = length x + n"
  define N where "N = (if L < SDS_MAX_PREALLOC then L * 2 else L + SDS_MAX_PREALLOC)"
  have N: "L \<le> N" "N < 2 ^ 31" using room by (auto simp: N_def L_def SDS_MAX_PREALLOC_def)
  have m: "L mod 2 ^ 64 = L" "L * 2 mod 2 ^ 64 = L * 2"
      "(L + SDS_MAX_PREALLOC) mod 2 ^ 64 = L + SDS_MAX_PREALLOC"
    using room by (auto simp: L_def SDS_MAX_PREALLOC_def)
  let ?F = "F @ map junk [length (buf s)..<N + 1]"
  have "sdsMakeRoomFor junk s n =
      s\<lparr>buf := zrealloc junk (buf s) (N + 1), free := s32 (int N - int (length x))\<rparr>"
    using False by (simp add: sdsMakeRoomFor_def sds_rep_len [OF rep] Let_def L_def [symmetric] m N_def
        del: power_numeral)
  moreover have "zrealloc junk (buf s) (N + 1) = x @ 0 # ?F"
    using rep False N by (subst zrealloc_grow) (auto simp: sds_rep_def L_def)
  moreover have "s32 (int N - int (length x)) = int (length ?F)"
    using rep False N by (subst s32_id) (auto simp: sds_rep_def L_def)
  ultimately have "sds_rep (sdsMakeRoomFor junk s n) x ?F"
    using rep False N by (auto simp: sds_rep_def L_def)
  moreover have "n \<le> length ?F" using rep False N by (auto simp: sds_rep_def L_def)
  ultimately show ?thesis by blast
qed

lemma sdscatlen_rep:
  assumes rep: "sds_rep s x F" and room: "length x + length t + SDS_MAX_PREALLOC < 2 ^ 31"
  shows "\<exists>s' F'. sdscatlen junk s (t @ u) (length t) = Some s' \<and> sds_rep s' (x @ t) F'"
proof -
  from sdsMakeRoomFor_rep [OF rep room] obtain F' where
    r': "sds_rep (sdsMakeRoomFor junk s (length t)) x F'" and n: "length t \<le> length F'" by blast
  define s' where "s' = sdsMakeRoomFor junk s (length t)"
  have b: "buf s' = x @ 0 # F'" "free s' = int (length F')" "length x + length F' < 2 ^ 31"
    using r' by (auto simp: sds_rep_def s'_def)
  have w1: "mwrite (x @ 0 # F') (int (length x)) t = Some (x @ t @ drop (length t) (0 # F'))"
    using n by simp
  have w2: "mwrite (x @ t @ drop (length t) (0 # F')) (int (length x + length t)) [0] =
      Some (x @ t @ 0 # drop (length t) F')"
  proof -
    have "drop (length t) (0 # F') = (0 # F') ! length t # drop (length t) F'"
      using n Cons_nth_drop_Suc [of "length t" "0 # F'"] by simp
    then show ?thesis
      using mwrite_app [of "[0]" "[(0 # F') ! length t]" "x @ t" "drop (length t) F'"] by simp
  qed
  have "sdscatlen junk s (t @ u) (length t) =
      Some (s'\<lparr>len := int (length x + length t), free := int (length F') - int (length t),
              buf := x @ t @ 0 # drop (length t) F'\<rparr>)"
    using n b w1 w2 by (simp add: sdscatlen_def Let_def sds_rep_len [OF rep] s'_def [symmetric] s32_id)
  moreover have "sds_rep (s'\<lparr>len := int (length x + length t), free := int (length F') - int (length t),
      buf := x @ t @ 0 # drop (length t) F'\<rparr>) (x @ t) (drop (length t) F')"
    using n b by (auto simp: sds_rep_def)
  ultimately show ?thesis by blast
qed

text \<open>The two facts clients use: what creation and concatenation give.\<close>

lemma sdsnewlen_content:
  "length t < 2 ^ 31 \<Longrightarrow>
   \<exists>s. sdsnewlen junk (Some (t @ u)) (length t) = Some s \<and> sds_wf s \<and> sds_str s = t"
  using sdsnewlen_rep [OF refl, of t junk u] sds_rep_wf sds_rep_str by blast

lemma sdscatlen_content:
  assumes "sds_wf s" and "sds_room s (length t)"
  shows "\<exists>s'. sdscatlen junk s (t @ u) (length t) = Some s' \<and> sds_wf s' \<and> sds_str s' = sds_str s @ t"
proof -
  from sds_wfE [OF assms(1)] obtain F where "sds_rep s (sds_str s) F" .
  from sdscatlen_rep [OF this, of t junk u] assms(2) sds_rep_wf sds_rep_str show ?thesis
    by (auto simp: sds_room_def)
qed

section \<open>Shrinking\<close>

text \<open>The end of \<open>sdstrim\<close> and \<open>sdsrange\<close>: the kept bytes are at the start of the buffer, and the
  terminator and the counts are written.\<close>

lemma sds_cut:
  assumes rep: "sds_rep s x F" and y: "length y = n" "n \<le> length x"
  shows "mwrite (y @ drop n (buf s)) (int n) [0] = Some (y @ 0 # drop (n + 1) (buf s))"
    and "sds_rep (s\<lparr>buf := y @ 0 # drop (n + 1) (buf s), free := free s + (len s - int n),
        len := int n\<rparr>) y (drop (n + 1) (buf s))"
proof -
  have "n < length (buf s)" using rep y by (simp add: sds_rep_def)
  then have "drop n (buf s) = buf s ! n # drop (n + 1) (buf s)"
    by (simp add: Cons_nth_drop_Suc)
  then show "mwrite (y @ drop n (buf s)) (int n) [0] = Some (y @ 0 # drop (n + 1) (buf s))"
    using mwrite_app [of "[0]" "[buf s ! n]" y "drop (n + 1) (buf s)"] y(1) by simp
  show "sds_rep (s\<lparr>buf := y @ 0 # drop (n + 1) (buf s), free := free s + (len s - int n),
        len := int n\<rparr>) y (drop (n + 1) (buf s))"
    using rep y by (auto simp: sds_rep_def)
qed

lemma sds_move:
  assumes rep: "sds_rep s x F" and "i + n \<le> length x"
  shows "memmove (buf s) 0 (int i) n = Some (take n (drop i x) @ drop n (buf s))"
    and "i = 0 \<or> n = 0 \<Longrightarrow> buf s = take n (drop i x) @ drop n (buf s)"
proof -
  have b: "buf s = x @ 0 # F" using rep by (simp add: sds_rep_def)
  show "memmove (buf s) 0 (int i) n = Some (take n (drop i x) @ drop n (buf s))"
    using memmove_eq [of i n "buf s" 0] assms(2) by (simp add: b)
  show "buf s = take n (drop i x) @ drop n (buf s)" if "i = 0 \<or> n = 0"
    using that assms(2) by (auto simp: b)
qed

lemma sdsclear_rep: "sds_rep s x F \<Longrightarrow> \<exists>s' F'. sdsclear s = Some s' \<and> sds_rep s' [] F'"
  using sds_cut [of s x F "[]" 0] by (auto simp: sdsclear_def)

lemma trim_sp_run:
  assumes "k \<le> length x"
  shows "trim_sp (x @ z) cset (int k) (int (length x) - 1) =
     Some (int (k + length (takeWhile (strchr cset) (drop k x))))"
  using assms
proof (induction "length x - k" arbitrary: k)
  case 0
  then show ?case by (subst trim_sp.simps) simp
next
  case (Suc n)
  then have k: "k < length x" by simp
  note d = Cons_nth_drop_Suc [OF k, symmetric]
  have r: "mread (x @ z) (int k) 1 = Some [x ! k]"
    using k d by simp
  have "1 + int k = int (Suc k)" by simp
  then show ?case
    using Suc.hyps(1) [of "Suc k"] Suc.hyps(2) k r d
    by (subst trim_sp.simps) (simp add: add.commute)
qed

lemma trim_ep_run:
  assumes "x = c @ v # b" and "\<forall>y \<in> set b. strchr cset y" and "c = [] \<or> \<not> strchr cset v"
  shows "trim_ep (x @ z) cset (int (length x) - 1) = Some (int (length c))"
  using assms
proof (induction b arbitrary: x z rule: rev_induct)
  case Nil
  then show ?case by (subst trim_ep.simps) auto
next
  case (snoc y b)
  have "mread (x @ z) (int (length x) - 1) 1 = Some [y]"
    using snoc.prems(1) mread_app [of "c @ v # b" "[y]" z] by simp
  moreover have "trim_ep ((c @ v # b) @ y # z) cset (int (length (c @ v # b)) - 1) = Some (int (length c))"
    by (rule snoc.IH) (use snoc.prems in auto)
  ultimately show ?case
    using snoc.prems by (subst trim_ep.simps) simp
qed

text \<open>The content without the bytes of the set at either end.\<close>

definition trimmed :: "(byte \<Rightarrow> bool) \<Rightarrow> bytes \<Rightarrow> bytes" where
  "trimmed P x = rev (dropWhile P (rev (dropWhile P x)))"

lemma trimmed_all: "\<forall>c \<in> set x. P c \<Longrightarrow> trimmed P x = []"
  by (auto simp: trimmed_def dropWhile_eq_Nil_conv dest: set_dropWhileD)

lemma trimmed_split:
  assumes "\<not> (\<forall>c \<in> set x. P c)"
  obtains a c v b where "x = a @ (c @ [v]) @ b" "\<forall>y \<in> set b. P y" "\<not> P v"
    "a = takeWhile P x" "trimmed P x = c @ [v]"
proof -
  define r where "r = dropWhile P x"
  have x: "x = takeWhile P x @ r" by (simp add: r_def)
  have hr: "r \<noteq> []" "\<not> P (hd r)"
    using assms by (auto simp: r_def dropWhile_eq_Nil_conv hd_dropWhile)
  define m where "m = dropWhile P (rev r)"
  have "\<not> (\<forall>y \<in> set (rev r). P y)" using hr by (cases r) auto
  then have m: "m \<noteq> []" "\<not> P (hd m)" by (auto simp: m_def dropWhile_eq_Nil_conv hd_dropWhile)
  have "rev r = takeWhile P (rev r) @ m" by (simp add: m_def)
  then have r: "r = rev m @ rev (takeWhile P (rev r))" by (metis rev_append rev_rev_ident)
  have "rev m = rev (tl m) @ [hd m]" using m(1) by (cases m) auto
  moreover have "trimmed P x = rev m" by (simp add: trimmed_def m_def r_def)
  ultimately show ?thesis
    using that [of "takeWhile P x" "rev (tl m)" "hd m" "rev (takeWhile P (rev r))"] x r m(2)
    by (auto dest: set_takeWhileD)
qed

lemma sdstrim_rep:
  assumes rep: "sds_rep s x F"
  shows "\<exists>s' F'. sdstrim s cset = Some s' \<and> sds_rep s' (trimmed (strchr cset) x) F'"
proof -
  let ?P = "strchr cset"
  have b: "buf s = x @ 0 # F" and l: "sdslen s = length x"
    using rep sds_rep_len [OF rep] by (auto simp: sds_rep_def)
  define a where "a = takeWhile ?P x"
  define y where "y = trimmed ?P x"
  have sp: "trim_sp (buf s) cset 0 (int (length x) - 1) = Some (int (length a))"
    using trim_sp_run [of 0 x "0 # F" cset] by (simp add: b a_def)
  have "\<exists>e. trim_ep (buf s) cset (int (length x) - 1) = Some e \<and>
      (if int (length a) > e then 0 else nat (e - int (length a) + 1)) = length y \<and>
      length a + length y \<le> length x \<and> take (length y) (drop (length a) x) = y"
  proof (cases "\<forall>c \<in> set x. ?P c")
    case True
    then have ay: "a = x" "y = []" by (auto simp: a_def y_def takeWhile_eq_all_conv trimmed_all)
    have "trim_ep (buf s) cset (int (length x) - 1) = Some (if x = [] then - 1 else 0)"
      using True trim_ep_run [of x "[]" "hd x" "tl x" cset "0 # F"]
      by (cases x) (auto simp: b trim_ep.simps [of _ _ "- 1"])
    then show ?thesis using ay by (cases x) auto
  next
    case False
    from trimmed_split [OF False] obtain c v d where
      x: "x = a @ (c @ [v]) @ d" "\<forall>y \<in> set d. ?P y" "\<not> ?P v" "y = c @ [v]"
      unfolding a_def y_def by metis
    have "trim_ep (buf s) cset (int (length x) - 1) = Some (int (length (a @ c)))"
      unfolding b by (rule trim_ep_run [where b = d and v = v]) (use x in auto)
    then show ?thesis using x by auto
  qed
  then obtain e where e: "trim_ep (buf s) cset (int (length x) - 1) = Some e"
      "(if int (length a) > e then 0 else nat (e - int (length a) + 1)) = length y"
      "length a + length y \<le> length x" "take (length y) (drop (length a) x) = y" by blast
  have mv: "(if int (length a) \<noteq> 0 then memmove (buf s) 0 (int (length a)) (length y) else Some (buf s)) =
      Some (y @ drop (length y) (buf s))"
    using sds_move [OF rep e(3)] e(4) by auto
  show ?thesis
    using sds_cut [OF rep refl, of y] e(3) sp e mv l
    by (auto simp: sdstrim_def y_def [symmetric] Let_def)
qed

text \<open>The positions a range keeps: a negative index counts from the end, and an index below the
  first position is the first.\<close>

definition range_index :: "nat \<Rightarrow> int \<Rightarrow> int" where
  "range_index l i = (if i < 0 then max 0 (int l + i) else i)"

lemma nths_slice: "nths x {i. a \<le> i \<and> i < a + n} = take n (drop a x)"
proof (induction x arbitrary: a n)
  case (Cons c x)
  show ?case
  proof (cases a)
    case 0
    have "{j. Suc j < n} = {i. 0 \<le> i \<and> i < 0 + (n - 1)}" by auto
    with Cons [of 0 "n - 1"] 0 show ?thesis by (cases n) (auto simp: nths_Cons)
  next
    case (Suc a')
    have "{j. Suc a' \<le> Suc j \<and> Suc j < Suc a' + n} = {i. a' \<le> i \<and> i < a' + n}" by auto
    with Cons [of a' n] Suc show ?thesis by (simp add: nths_Cons)
  qed
qed simp

lemma range_slice:
  fixes a e L :: int
  assumes "0 \<le> a" "0 \<le> e" "int i < L"
    and n: "n = (if a > e \<or> a \<ge> L then 0 else nat (min e (L - 1) - a + 1))"
    and k: "k = (if n = 0 then 0 else nat a)"
  shows "(a \<le> int i \<and> int i \<le> e) = (k \<le> i \<and> i < k + n)"
proof (cases "a > e \<or> a \<ge> L")
  case True
  then show ?thesis using assms by auto
next
  case False
  then have "int n = min e (L - 1) - a + 1" "int k = a" using assms by auto
  then show ?thesis using assms(3) False by linarith
qed

lemma nths_cong: "(\<And>i. i < length x \<Longrightarrow> i \<in> A \<longleftrightarrow> i \<in> B) \<Longrightarrow> nths x A = nths x B"
  unfolding nths_def by (intro arg_cong [where f = "map fst"] filter_cong refl) (auto simp: set_zip)

lemma sdsrange_clip_slice:
  fixes l start stop :: int
  assumes "0 < l"
  defines "a \<equiv> range_index (nat l) start" and "e \<equiv> range_index (nat l) stop"
  defines "n \<equiv> (if a > e \<or> a \<ge> l then 0 else nat (min e (l - 1) - a + 1))"
  shows "\<exists>st. sdsrange_clip l start stop = (st, int n) \<and> (n \<noteq> 0 \<longrightarrow> st = a)"
proof -
  have a: "a = (if start < 0 then (if l + start < 0 then 0 else l + start) else start)"
    and e: "e = (if stop < 0 then (if l + stop < 0 then 0 else l + stop) else stop)"
    using assms(1) by (auto simp: a_def e_def range_index_def max_def)
  show ?thesis
    unfolding sdsrange_clip_def a [symmetric] e [symmetric] Let_def
    using assms(1) by (auto simp: n_def min_def)
qed

lemma sdsrange_rep:
  assumes rep: "sds_rep s x F"
  shows "\<exists>s' F'. sdsrange s start stop = Some s' \<and>
     sds_rep s' (nths x {i. range_index (length x) start \<le> int i \<and> int i \<le> range_index (length x) stop}) F'"
proof (cases "x = []")
  case True
  with rep show ?thesis by (auto simp: sdsrange_def sds_rep_len [OF rep])
next
  case False
  define l where "l = int (length x)"
  define a where "a = range_index (length x) start"
  define e where "e = range_index (length x) stop"
  define n where "n = (if a > e \<or> a \<ge> l then 0 else nat (min e (l - 1) - a + 1))"
  define k where "k = (if n = 0 then 0 else nat a)"
  have l: "0 < l" "sdslen s = length x" using False sds_rep_len [OF rep] by (auto simp: l_def)
  have ae: "0 \<le> a" "0 \<le> e" by (auto simp: a_def e_def range_index_def)
  have kn: "k + n \<le> length x" using ae l by (auto simp: k_def n_def l_def)
  have "nths x {i. a \<le> int i \<and> int i \<le> e} = nths x {i. k \<le> i \<and> i < k + n}"
    using range_slice [OF ae _ n_def k_def] by (intro nths_cong) (simp add: l_def)
  then have y: "nths x {i. a \<le> int i \<and> int i \<le> e} = take n (drop k x)"
    by (simp add: nths_slice)
  have nl: "nat l = length x" by (simp add: l_def)
  from sdsrange_clip_slice [OF l(1), of start stop, unfolded nl, folded a_def e_def, folded n_def]
  obtain st where st: "sdsrange_clip l start stop = (st, int n)" "n \<noteq> 0 \<longrightarrow> st = a" by blast
  have "(if st \<noteq> 0 \<and> int n \<noteq> 0 then memmove (buf s) 0 st n else Some (buf s)) =
      Some (take n (drop k x) @ drop n (buf s))"
    using sds_move [OF rep kn] st(2) ae(1) by (cases "n = 0") (auto simp: k_def)
  then show ?thesis
    using sds_cut [OF rep, of "take n (drop k x)" n] kn l st(1) y
    by (auto simp: sdsrange_def l_def [symmetric] a_def [symmetric] e_def [symmetric])
qed

section \<open>The other operations\<close>

lemma sdsRemoveFreeSpace_rep: "sds_rep s x F \<Longrightarrow> sds_rep (sdsRemoveFreeSpace junk s) x []"
  by (auto simp: sds_rep_def sdsRemoveFreeSpace_def zrealloc_def usize_id)

lemma sdsupdatelen_rep:
  assumes rep: "sds_rep s x F"
  shows "\<exists>s' F'. sdsupdatelen s = Some s' \<and> sds_rep s' (takeWhile (\<lambda>c. c \<noteq> 0) x) F'"
proof -
  let ?y = "takeWhile (\<lambda>c. c \<noteq> 0) x"
  have b: "buf s = x @ 0 # F" "len s = int (length x)" "free s = int (length F)"
      "length x + length F < 2 ^ 31" using rep by (auto simp: sds_rep_def)
  have t: "takeWhile (\<lambda>c. c \<noteq> 0) (buf s) = ?y"
    by (cases "\<forall>c \<in> set x. c \<noteq> 0") (auto simp: b takeWhile_append takeWhile_eq_all_conv [THEN iffD2])
  have l: "length ?y \<le> length x" by (rule length_takeWhile_le)
  obtain G where G: "buf s = ?y @ 0 # G"
  proof (cases "\<forall>c \<in> set x. c \<noteq> 0")
    case True
    then have "?y = x" by (simp add: takeWhile_eq_all_conv)
    then have "buf s = ?y @ 0 # F" by (simp only: b(1))
    then show ?thesis by (rule that)
  next
    case False
    then have "dropWhile (\<lambda>c. c \<noteq> 0) x \<noteq> []" by (auto simp: dropWhile_eq_Nil_conv)
    then obtain d where "dropWhile (\<lambda>c. c \<noteq> 0) x = 0 # d"
      using hd_dropWhile [of "\<lambda>c. c \<noteq> 0" x] by (cases "dropWhile (\<lambda>c. c \<noteq> 0) x") auto
    then have "x = ?y @ 0 # d" using takeWhile_dropWhile_id [of "\<lambda>c. c \<noteq> 0" x] by simp
    then show ?thesis using that [of "d @ 0 # F"] b(1) by (metis append_Cons append_assoc)
  qed
  have lg: "length x + length F = length ?y + length G"
    using arg_cong [OF G, of length] by (simp add: b(1))
  have "s32 (int (length ?y)) = int (length ?y)" using l b(4) by (intro s32_id) auto
  moreover have "0 \<in> set (buf s)" by (simp add: b)
  then have "strlen_buf (buf s) = Some (length ?y)" by (simp add: strlen_buf_def t)
  ultimately have "sdsupdatelen s = Some (s\<lparr>free := free s + (len s - int (length ?y)), len := int (length ?y)\<rparr>)"
    by (simp add: sdsupdatelen_def Let_def)
  moreover have "sds_rep (s\<lparr>free := free s + (len s - int (length ?y)), len := int (length ?y)\<rparr>) ?y G"
    using G b(2-4) l lg by (auto simp: sds_rep_def)
  ultimately show ?thesis by blast
qed

lemma sdsIncrLen_rep:
  assumes rep: "sds_rep s x F" and incr: "- int (length x) \<le> incr" "incr \<le> int (length F)"
  shows "\<exists>s' F'. sdsIncrLen s incr = Some s' \<and>
     sds_rep s' (take (nat (int (length x) + incr)) (buf s)) F'"
proof -
  have b: "buf s = x @ 0 # F" "len s = int (length x)" "free s = int (length F)"
      "length x + length F < 2 ^ 31" using rep by (auto simp: sds_rep_def)
  define m where "m = nat (int (length x) + incr)"
  have m: "int m = int (length x) + incr" "m \<le> length x + length F" using incr by (auto simp: m_def)
  then have m': "m < length (buf s)" by (simp add: b)
  define s' where "s' = s\<lparr>len := int m, free := int (length F) - incr,
      buf := take m (buf s) @ 0 # drop (Suc m) (buf s)\<rparr>"
  have "mwrite (buf s) (int m) [0] = Some (take m (buf s) @ 0 # drop (Suc m) (buf s))"
    using m' by simp
  then have "sdsIncrLen s incr = Some s'"
    using incr b m by (simp add: sdsIncrLen_def s'_def)
  moreover have "sds_rep s' (take m (buf s)) (drop (Suc m) (buf s))"
    using m m' b by (auto simp: sds_rep_def s'_def)
  ultimately show ?thesis by (auto simp: m_def)
qed

lemma sdsgrowzero_rep:
  assumes rep: "sds_rep s x F" and n: "n + SDS_MAX_PREALLOC < 2 ^ 31"
  shows "\<exists>s' F'. sdsgrowzero junk s n = Some s' \<and> sds_rep s' (x @ replicate (n - length x) 0) F'"
proof (cases "n \<le> length x")
  case True
  with rep show ?thesis by (auto simp: sdsgrowzero_def sds_rep_len [OF rep])
next
  case False
  define d where "d = n - length x"
  have "length x + d + SDS_MAX_PREALLOC < 2 ^ 31" using n False by (simp add: d_def)
  from sdsMakeRoomFor_rep [OF rep this] obtain F' where
    r: "sds_rep (sdsMakeRoomFor junk s d) x F'" "d \<le> length F'" by blast
  define s' where "s' = sdsMakeRoomFor junk s d"
  have b: "buf s' = x @ 0 # F'" "len s' = int (length x)" "free s' = int (length F')"
      "length x + length F' < 2 ^ 31" using r by (auto simp: sds_rep_def s'_def)
  have w: "mwrite (buf s') (int (length x)) (replicate (d + 1) 0) =
      Some ((x @ replicate d 0) @ 0 # drop d F')"
    using r(2) by (simp add: b replicate_append_same)
  have t: "s32 (int n) = int n" "s32 (int (length x) + int (length F') - int n) = int (length F') - int d"
    using b(4) n False r(2) by (auto simp: d_def s32_id)
  define u where "u = s'\<lparr>buf := (x @ replicate d 0) @ 0 # drop d F', len := int n,
      free := int (length F') - int d\<rparr>"
  have "sdsgrowzero junk s n = Some u"
    using False w t b by (simp add: sdsgrowzero_def sds_rep_len [OF rep] Let_def u_def
        s'_def [symmetric] d_def [symmetric])
  moreover have "sds_rep u (x @ replicate d 0) (drop d F')"
    using b r(2) False by (auto simp: sds_rep_def u_def d_def)
  ultimately show ?thesis by (auto simp: d_def)
qed

lemma sdscpylen_rep:
  assumes rep: "sds_rep s x F" and n: "length t + SDS_MAX_PREALLOC < 2 ^ 31"
  shows "\<exists>s' F'. sdscpylen junk s (t @ u) (length t) = Some s' \<and> sds_rep s' t F'"
proof -
  have b0: "len s = int (length x)" "free s = int (length F)" "length x + length F < 2 ^ 31"
    using rep by (auto simp: sds_rep_def)
  define s' where "s' = (if usize (free s + len s) < length t
      then sdsMakeRoomFor junk s (usize (int (length t) - len s)) else s)"
  have us: "usize (free s + len s) = length F + length x" by (subst usize_id) (use b0 in auto)
  have "\<exists>F'. sds_rep s' x F' \<and> length t \<le> length x + length F'"
  proof (cases "length F + length x < length t")
    case True
    then have "usize (int (length t) - len s) = length t - length x"
      using b0 n by (subst usize_id) auto
    then show ?thesis
      using True sdsMakeRoomFor_rep [OF rep, of "length t - length x" junk] n
      by (auto simp: s'_def us)
  next
    case False
    with rep show ?thesis by (auto simp: s'_def us)
  qed
  then obtain F' where r: "sds_rep s' x F'" "length t \<le> length x + length F'" by blast
  have b: "buf s' = x @ 0 # F'" "len s' = int (length x)" "free s' = int (length F')"
      "length x + length F' < 2 ^ 31" using r by (auto simp: sds_rep_def)
  define G where "G = drop (Suc (length t)) (buf s')"
  have w1: "mwrite (buf s') 0 t = Some (t @ drop (length t) (buf s'))" using r(2) by (simp add: b)
  have "length t < length (buf s')" using r(2) by (simp add: b)
  then have "drop (length t) (buf s') = buf s' ! length t # G"
    unfolding G_def by (rule Cons_nth_drop_Suc [symmetric])
  then have w2: "mwrite (t @ drop (length t) (buf s')) (int (length t)) [0] = Some (t @ 0 # G)"
    using mwrite_app [of "[0]" "[buf s' ! length t]" t G] by simp
  have sz: "s32 (int (length t)) = int (length t)"
      "s32 (free s' + len s' - int (length t)) = int (length x + length F' - length t)"
    using b r(2) n by (auto simp: s32_id)
  define v where "v = s'\<lparr>len := int (length t), free := int (length x + length F' - length t),
      buf := t @ 0 # G\<rparr>"
  have "sdscpylen junk s (t @ u) (length t) = Some v"
    using w1 w2 sz by (simp add: sdscpylen_def Let_def s'_def [symmetric] v_def)
  moreover have "sds_rep v t G" using b r(2) by (auto simp: sds_rep_def v_def G_def)
  ultimately show ?thesis by blast
qed

lemma map_prefix_rep:
  "sds_rep s x F \<Longrightarrow> map_prefix f (sdslen s) (buf s) = Some (map f x @ 0 # F) \<and>
   sds_rep (s\<lparr>buf := map f x @ 0 # F\<rparr>) (map f x) F"
  by (simp add: map_prefix_def sds_rep_len) (simp add: sds_rep_def)

lemma sdstolower_rep: "sds_rep s x F \<Longrightarrow> \<exists>s'. sdstolower s = Some s' \<and> sds_rep s' (map tolower x) F"
  using map_prefix_rep [of s x F tolower] by (auto simp: sdstolower_def)

lemma sdstoupper_rep: "sds_rep s x F \<Longrightarrow> \<exists>s'. sdstoupper s = Some s' \<and> sds_rep s' (map toupper x) F"
  using map_prefix_rep [of s x F toupper] by (auto simp: sdstoupper_def)

lemma sdsmapchars_rep:
  "sds_rep s x F \<Longrightarrow> n \<le> length from \<Longrightarrow> n \<le> length to \<Longrightarrow>
   \<exists>s'. sdsmapchars s from to n = Some s' \<and>
     sds_rep s' (map (mapchar (take n from) (take n to)) x) F"
  using map_prefix_rep [of s x F "mapchar (take n from) (take n to)"] by (auto simp: sdsmapchars_def)

section \<open>Every string the operations produce is well-formed\<close>

text \<open>One rule per operation; the side conditions are those under which the code may be called:
  the data read is there, counts stay in the range of \<open>int\<close>, and an increment stays inside the
  allocation.\<close>

inductive sds_reach :: "sdshdr \<Rightarrow> bool" where
  new: "sdsnewlen junk (Some t) n = Some s \<Longrightarrow> n \<le> length t \<Longrightarrow> n < 2 ^ 31 \<Longrightarrow> sds_reach s"
| upd: "sds_reach s \<Longrightarrow> sdsupdatelen s = Some s' \<Longrightarrow> sds_reach s'"
| clear: "sds_reach s \<Longrightarrow> sdsclear s = Some s' \<Longrightarrow> sds_reach s'"
| room: "sds_reach s \<Longrightarrow> sds_room s n \<Longrightarrow> sds_reach (sdsMakeRoomFor junk s n)"
| shrink: "sds_reach s \<Longrightarrow> sds_reach (sdsRemoveFreeSpace junk s)"
| incr: "sds_reach s \<Longrightarrow> - len s \<le> i \<Longrightarrow> sdsIncrLen s i = Some s' \<Longrightarrow> sds_reach s'"
| grow: "sds_reach s \<Longrightarrow> n + SDS_MAX_PREALLOC < 2 ^ 31 \<Longrightarrow> sdsgrowzero junk s n = Some s' \<Longrightarrow> sds_reach s'"
| cat: "sds_reach s \<Longrightarrow> n \<le> length t \<Longrightarrow> sds_room s n \<Longrightarrow> sdscatlen junk s t n = Some s' \<Longrightarrow> sds_reach s'"
| cpy: "sds_reach s \<Longrightarrow> n \<le> length t \<Longrightarrow> n + SDS_MAX_PREALLOC < 2 ^ 31 \<Longrightarrow>
    sdscpylen junk s t n = Some s' \<Longrightarrow> sds_reach s'"
| trim: "sds_reach s \<Longrightarrow> sdstrim s cset = Some s' \<Longrightarrow> sds_reach s'"
| range: "sds_reach s \<Longrightarrow> sdsrange s a b = Some s' \<Longrightarrow> sds_reach s'"
| lower: "sds_reach s \<Longrightarrow> sdstolower s = Some s' \<Longrightarrow> sds_reach s'"
| upper: "sds_reach s \<Longrightarrow> sdstoupper s = Some s' \<Longrightarrow> sds_reach s'"
| mapchars: "sds_reach s \<Longrightarrow> sdsmapchars s from to n = Some s' \<Longrightarrow> sds_reach s'"

lemma append_take_eq: "n \<le> length t \<Longrightarrow> t = take n t @ drop n t \<and> length (take n t) = n"
  by simp

lemma sds_reach_rep: "sds_reach s \<Longrightarrow> \<exists>x F. sds_rep s x F"
proof (induction rule: sds_reach.induct)
  case (new junk t n s)
  then show ?case using sdsnewlen_rep [of "take n t" n junk "drop n t"] by auto
next
  case (room s n junk)
  then show ?case using sdsMakeRoomFor_rep sds_rep_str unfolding sds_room_def by metis
next
  case (incr s i s')
  then obtain x F where r: "sds_rep s x F" by blast
  then have "- int (length x) \<le> i" "i \<le> int (length F)"
    using incr by (auto simp: sds_rep_def sdsIncrLen_def split: if_splits)
  from sdsIncrLen_rep [OF r this] incr show ?case by auto
next
  case (cat s n t junk s')
  then obtain x F where r: "sds_rep s x F" by blast
  from sdscatlen_rep [OF r, of "take n t" junk "drop n t"] cat sds_rep_str [OF r] show ?case
    by (auto simp: sds_room_def)
next
  case (cpy s n t junk s')
  then obtain x F where r: "sds_rep s x F" by blast
  from sdscpylen_rep [OF r, of "take n t" junk "drop n t"] cpy show ?case by auto
next
  case (mapchars s x y n s')
  then obtain u F where r: "sds_rep s u F" by blast
  have "n \<le> length x" "n \<le> length y"
    using mapchars by (auto simp: sdsmapchars_def split: if_splits)
  from sdsmapchars_rep [OF r this] mapchars show ?case by auto
next
  case (upd s s')
  then show ?case using sdsupdatelen_rep by fastforce
next
  case (clear s s')
  then show ?case using sdsclear_rep by fastforce
next
  case (shrink s junk)
  then show ?case using sdsRemoveFreeSpace_rep by blast
next
  case (grow s n junk s')
  then obtain x F where r: "sds_rep s x F" by blast
  from sdsgrowzero_rep [OF r grow(2), of junk] grow(3) show ?case by auto
next
  case (trim s cset s')
  then obtain x F where r: "sds_rep s x F" by blast
  from sdstrim_rep [OF r, of cset] trim(2) show ?case by auto
next
  case (range s a b s')
  then obtain x F where r: "sds_rep s x F" by blast
  from sdsrange_rep [OF r, of a b] range(2) show ?case by auto
next
  case (lower s s')
  then show ?case using sdstolower_rep by fastforce
next
  case (upper s s')
  then show ?case using sdstoupper_rep by fastforce
qed

section \<open>Clients of appending: quoting and joining\<close>

interpretation sdsb: byte_builder sds_wf sds_str "2 ^ 31 - SDS_MAX_PREALLOC" "sdscat junk" for junk
proof
  fix s and t :: bytes
  assume s: "sds_wf s" and n: "length (sds_str s) + length t < 2 ^ 31 - SDS_MAX_PREALLOC"
  from s obtain F where r: "sds_rep s (sds_str s) F" by (rule sds_wfE)
  have "length (sds_str s) + length t + SDS_MAX_PREALLOC < 2 ^ 31" using n by simp
  from sdscatlen_rep [OF r this, of junk "[]"] obtain s' F' where
    "sdscat junk s t = Some s'" "sds_rep s' (sds_str s @ t) F'" by (auto simp: sdscat_def)
  then show "\<exists>s'. sdscat junk s t = Some s' \<and> sds_wf s' \<and> sds_str s' = sds_str s @ t"
    using sds_rep_wf sds_rep_str by blast
qed

definition repr :: "bytes \<Rightarrow> bytes" where
  "repr p = [ch CHR 0x22] @ concat (map repr_byte p) @ [ch CHR 0x22]"

fun join_str :: "bytes \<Rightarrow> bytes list \<Rightarrow> bytes" where
  "join_str sep [] = []"
| "join_str sep [t] = t"
| "join_str sep (t # u # ts) = t @ sep @ join_str sep (u # ts)"

lemma sdscatrepr_loop_app: "n = length p \<Longrightarrow> sdscatrepr_loop junk s p n = app_all (sdscat junk) s (map repr_byte p)"
  by (induction junk s p n rule: sdscatrepr_loop.induct)
    (auto simp: sdscat_def cong: Option.bind_cong)

lemma sdscatrepr_loop_more: "sdscatrepr_loop junk s (p @ u) (length p) = sdscatrepr_loop junk s p (length p)"
proof (induction p arbitrary: s)
  case (Cons c p)
  then show ?case by (simp cong: Option.bind_cong)
qed simp

lemma sdscatrepr_app:
  "sdscatrepr junk s (p @ u) (length p) =
     app_all (sdscat junk) s ([ch CHR 0x22] # map repr_byte p @ [[ch CHR 0x22]])"
  by (simp add: sdscatrepr_def sdscatrepr_loop_more sdscatrepr_loop_app app_all_append sdscat_def
      Option.bind_assoc cong: Option.bind_cong)

lemma sdscatrepr_content:
  assumes "sds_wf s" and "length (sds_str s) + length (repr p) < 2 ^ 31 - SDS_MAX_PREALLOC"
  shows "\<exists>s'. sdscatrepr junk s (p @ u) (length p) = Some s' \<and> sds_wf s' \<and> sds_str s' = sds_str s @ repr p"
  using sdsb.app_all_spec [OF assms(1), of "[ch CHR 0x22] # map repr_byte p @ [[ch CHR 0x22]]" junk] assms(2)
  by (simp add: sdscatrepr_app repr_def)

fun join_chunks :: "bytes \<Rightarrow> bytes list \<Rightarrow> bytes list" where
  "join_chunks sep [] = []"
| "join_chunks sep (t # ts) = t # (if ts = [] then [] else [sep]) @ join_chunks sep ts"

lemma concat_join_chunks: "concat (join_chunks sep ts) = join_str sep ts"
  by (induction sep ts rule: join_str.induct) auto

lemma sdsjoin_loop_app: "sdsjoin_loop junk s ts sep = app_all (sdscat junk) s (join_chunks sep ts)"
  by (induction junk s ts sep rule: sdsjoin_loop.induct)
    (auto simp: Option.bind_assoc cong: Option.bind_cong)

lemma sdsjoin_content:
  assumes "length (join_str sep argv) < 2 ^ 31 - SDS_MAX_PREALLOC"
  shows "\<exists>s'. sdsjoin junk argv sep = Some s' \<and> sds_wf s' \<and> sds_str s' = join_str sep argv"
proof -
  obtain s where s: "sdsempty junk = Some s" "sds_rep s [] []"
    using sdsnewlen_rep [of "[]" 0 junk "[]"] by (auto simp: sdsempty_def)
  with sdsb.app_all_spec [of s "join_chunks sep argv" junk] assms show ?thesis
    using sds_rep_wf [OF s(2)] sds_rep_str [OF s(2)]
    by (simp add: sdsjoin_def sdsjoin_loop_app concat_join_chunks)
qed

section \<open>Reading quoted strings back\<close>

lemma pk_Cons [simp]: "pk (c # p) 0 = c" "pk (c # p) (Suc k) = pk p k"
  by (auto simp: pk_def)

lemma pk_Nil [simp]: "pk [] k = 0"
  by (simp add: pk_def)

lemma pk_num [simp]:
  "pk (a # b # p) 1 = b" "pk (a # b # c # p) 2 = c" "pk (a # b # c # d # p) 3 = d"
  by (simp_all add: pk_def)

lemma hex_char_digit: "d < 16 \<Longrightarrow> is_hex_digit (hex_char d) \<and> hex_digit_to_int (hex_char d) = d"
proof -
  assume "d < 16"
  then have "d \<in> set [0..<16]" by simp
  moreover have "\<forall>d \<in> set [0..<16]. is_hex_digit (hex_char d) \<and> hex_digit_to_int (hex_char d) = d"
    by code_simp
  ultimately show ?thesis by blast
qed

lemma unat_byte: "unat (c :: byte) < 256"
  using unsigned_less [of c] by simp

lemma split_tok_hex: "split_tok Inq ([ch CHR 0x5C, ch CHR ''x''] @ hex2 c @ z) cur = split_tok Inq z (cur @ [c])"
proof -
  have "unat c div 16 < 16" "unat c mod 16 < 16" using unat_byte [of c] by auto
  note d = this [THEN hex_char_digit]
  have v: "of_nat (unat c div 16 * 16 + unat c mod 16) = c" by (simp only: div_mult_mod_eq) simp
  show ?thesis using d v by (subst split_tok.simps) (simp add: hex2_def)
qed

lemma split_tok_esc:
  "c \<noteq> 120 \<Longrightarrow> c \<noteq> 0 \<Longrightarrow>
   split_tok Inq (92 # c # z) cur = split_tok Inq z (cur @ [unescape c])"
  by (subst split_tok.simps) simp

lemma split_tok_print:
  "c \<noteq> 92 \<Longrightarrow> c \<noteq> 34 \<Longrightarrow> c \<noteq> 0 \<Longrightarrow>
   split_tok Inq (c # z) cur = split_tok Inq z (cur @ [c])"
  by (subst split_tok.simps) simp

lemma split_tok_repr_byte: "split_tok Inq (repr_byte c @ z) cur = split_tok Inq z (cur @ [c])"
proof -
  have "isprint c \<Longrightarrow> c \<noteq> 0" by (auto simp: isprint_def)
  then show ?thesis using split_tok_hex [of c z cur]
    by (auto simp: repr_byte_def split_tok_esc unescape_def split_tok_print)
qed

lemma split_tok_repr:
  assumes "r = [] \<or> isspace (pk r 0)"
  shows "split_tok Inq (concat (map repr_byte p) @ ch CHR 0x22 # r) cur = Some (cur @ p, r)"
proof (induction p arbitrary: cur)
  case Nil
  show ?case using assms by (subst split_tok.simps) (cases r; auto)
next
  case (Cons c p)
  then show ?case by (simp add: split_tok_repr_byte)
qed

lemma split_loop_repr:
  assumes "r = [] \<or> isspace (pk r 0)"
  shows "split_loop (repr p @ r) v = split_loop r (v @ [p])"
proof -
  have "split_tok Plain (repr p @ r) [] = Some (p, r)"
    using split_tok_repr [OF assms, of p "[]"] by (subst split_tok.simps) (simp add: repr_def)
  then show ?thesis
    by (subst split_loop.simps) (simp add: repr_def isspace_def)
qed

lemma split_loop_space: "split_loop (32 # r) v = split_loop r v"
  by (subst split_loop.simps, subst (2) split_loop.simps) (simp add: isspace_def)

lemma split_loop_join: "split_loop (join_str [32] (map repr ps)) v = Some (v @ ps)"
proof (induction ps arbitrary: v)
  case Nil
  then show ?case by (subst split_loop.simps) simp
next
  case (Cons p ps)
  show ?case
  proof (cases ps)
    case Nil
    then show ?thesis
      using split_loop_repr [of "[]" p v] by simp (subst split_loop.simps, simp)
  next
    case (Cons q qs)
    with Cons.IH show ?thesis
      using split_loop_repr [of "32 # join_str [32] (map repr ps)" p v]
      by (simp add: split_loop_space isspace_def)
  qed
qed

section \<open>Splitting\<close>

lemma memcmp_eq: "length a = length b \<Longrightarrow> memcmp a b = 0 \<longleftrightarrow> a = b"
  by (induction a b rule: memcmp.induct) (auto simp: unsigned_word_eqI)

lemma join_str_split: "join_str sep (ts @ [t @ sep @ u]) = join_str sep (ts @ [t, u])"
proof (induction ts)
  case (Cons a ts)
  then show ?case by (cases ts) auto
qed simp

text \<open>No separator starts at a position from \<open>a\<close> on and before \<open>b\<close>.\<close>

definition no_sep :: "bytes \<Rightarrow> bytes \<Rightarrow> nat \<Rightarrow> nat \<Rightarrow> bool" where
  "no_sep sep x a b \<longleftrightarrow> (\<forall>k. a \<le> k \<and> k < b \<longrightarrow> take (length sep) (drop k x) \<noteq> sep)"

lemma no_sep_sublist:
  assumes "no_sep sep x a b" "a \<le> b" "b \<le> length x" "sep \<noteq> []"
  shows "\<not> sublist sep (take (b - a) (drop a x))"
proof
  assume "sublist sep (take (b - a) (drop a x))"
  then obtain ps ss where d: "take (b - a) (drop a x) = ps @ sep @ ss" by (auto simp: sublist_def)
  have "length ps + length sep \<le> b - a" using arg_cong [OF d, of length] assms by simp
  then have "a + length ps < b" using assms(4) by (cases sep) auto
  moreover have "drop a x = (ps @ sep @ ss) @ drop (b - a) (drop a x)"
    by (simp only: append_take_drop_id flip: d)
  then have "drop (a + length ps) x = sep @ ss @ drop (b - a) (drop a x)"
    by (metis append_assoc append_eq_conv_conj drop_drop add.commute)
  ultimately show False using assms(1) [unfolded no_sep_def, rule_format, of "a + length ps"] by simp
qed

lemma no_sep_end:
  assumes "no_sep sep x a b" "length x < b + length sep" "sep \<noteq> []"
  shows "\<not> sublist sep (drop a x)"
proof
  assume "sublist sep (drop a x)"
  then obtain ps ss where d: "drop a x = ps @ sep @ ss" by (auto simp: sublist_def)
  have l: "a + length ps + length sep \<le> length x" using arg_cong [OF d, of length] assms(3) by (cases sep) auto
  have "drop (a + length ps) x = sep @ ss" by (metis d append_eq_conv_conj drop_drop add.commute)
  moreover have "a + length ps < b" using l assms(2) by simp
  ultimately show False using assms(1) [unfolded no_sep_def, rule_format, of "a + length ps"] by simp
qed

lemma splitlen_loop_spec:
  assumes "a \<le> b" "b \<le> length x" "no_sep sep x a b" "sep \<noteq> []"
    and "int (length ts) + 1 \<le> slots" "\<forall>t \<in> set ts. \<not> sublist sep t"
  shows "\<exists>ts' slots' a'. splitlen_loop x (int (length x)) (sep @ z) (int (length sep)) ts slots (int a) (int b) =
        Some (ts', slots', int a') \<and> a' \<le> length x \<and> int (length ts') + 1 \<le> slots' \<and>
      (\<forall>t \<in> set ts'. \<not> sublist sep t) \<and> \<not> sublist sep (drop a' x) \<and>
      join_str sep (ts' @ [drop a' x]) = join_str sep (ts @ [drop a x])"
  using assms
proof (induction "length x - b" arbitrary: a b ts slots rule: less_induct)
  case less
  let ?n = "length sep" and ?slots = "grow_slots ts slots"
  have n: "0 < ?n" using less.prems(4) by simp
  have sl: "int (length ts) + 2 \<le> ?slots" using less.prems(5) by (auto simp: grow_slots_def)
  show ?case
  proof (cases "b + ?n \<le> length x")
    case False
    then have "\<not> sublist sep (drop a x)" using no_sep_end [OF less.prems(3)] less.prems(4) by simp
    with False show ?thesis using less.prems by (subst splitlen_loop.simps) auto
  next
    case True
    then have r: "mread x (int b) ?n = Some (take ?n (drop b x))" "length (take ?n (drop b x)) = ?n"
      by auto
    show ?thesis
    proof (cases "take ?n (drop b x) = sep")
      case False
      have bl: "length x - Suc b < length x - b" using True n by linarith
      have "no_sep sep x a (Suc b)"
        using less.prems(3) False by (auto simp: no_sep_def less_Suc_eq)
      then show ?thesis
        using less.hyps [OF bl, of a ts ?slots] less.prems sl n True r False
        by (subst splitlen_loop.simps) (simp add: memcmp_eq Let_def add.commute)
    next
      case m: True
      let ?t = "take (b - a) (drop a x)"
      have "drop a x = ?t @ drop (b - a) (drop a x)" by (rule append_take_drop_id [symmetric])
      also have "drop (b - a) (drop a x) = drop b x" using less.prems(1) by simp
      also have "drop b x = take ?n (drop b x) @ drop ?n (drop b x)" by (rule append_take_drop_id [symmetric])
      finally have d: "drop a x = ?t @ sep @ drop (b + ?n) x" by (simp add: m add.commute)
      have bl: "length x - (b + ?n) < length x - b" using True n by linarith
      have "\<not> sublist sep ?t" using no_sep_sublist [OF less.prems(3)] less.prems by simp
      then have "\<exists>ts' slots' a'. splitlen_loop x (int (length x)) (sep @ z) (int ?n) (ts @ [?t]) ?slots
            (int (b + ?n)) (int (b + ?n)) = Some (ts', slots', int a') \<and> a' \<le> length x \<and>
          int (length ts') + 1 \<le> slots' \<and> (\<forall>t \<in> set ts'. \<not> sublist sep t) \<and> \<not> sublist sep (drop a' x) \<and>
          join_str sep (ts' @ [drop a' x]) = join_str sep ((ts @ [?t]) @ [drop (b + ?n) x])"
        using less.prems sl True by (intro less.hyps [OF bl]) (auto simp: no_sep_def)
      moreover have "join_str sep (ts @ [drop a x]) = join_str sep ((ts @ [?t]) @ [drop (b + ?n) x])"
        by (subst d) (simp only: join_str_split append_assoc append_Cons append_Nil)
      moreover have "mread x (int a) (nat (int b - int a)) = Some ?t"
        using less.prems(1,2) by (simp add: nat_diff_distrib)
      ultimately show ?thesis
        using sl n True r m less.prems
        by (subst splitlen_loop.simps) (simp add: memcmp_eq Let_def put_token_def)
    qed
  qed
qed

lemma sdssplitlen_join:
  assumes "x \<noteq> []" "sep \<noteq> []"
  shows "\<exists>ts. sdssplitlen x (int (length x)) (sep @ z) (int (length sep)) = Some (SplitTokens ts) \<and>
     join_str sep ts = x \<and> (\<forall>t \<in> set ts. \<not> sublist sep t)"
proof -
  obtain ts slots a where
    "splitlen_loop x (int (length x)) (sep @ z) (int (length sep)) [] 5 (int 0) (int 0) = Some (ts, slots, int a)"
    "a \<le> length x" "int (length ts) + 1 \<le> slots" "\<forall>t \<in> set ts. \<not> sublist sep t" "\<not> sublist sep (drop a x)"
    "join_str sep (ts @ [drop a x]) = join_str sep ([] @ [drop 0 x])"
    using splitlen_loop_spec [of 0 0 x sep "[]" 5 z] assms by (auto simp: no_sep_def)
  moreover from this(2) have "mread x (int a) (nat (int (length x) - int a)) = Some (drop a x)"
    by (simp add: nat_diff_distrib)
  ultimately show ?thesis using assms
    by (cases sep) (auto simp: sdssplitlen_def put_token_def Let_def)
qed

section \<open>Comparison\<close>

lemma byte_less: "int (unat a) - int (unat b) < 0 \<longleftrightarrow> (a :: byte) < b"
  unfolding word_less_nat_alt by presburger

lemma memcmp_take:
  "let n = min (length x) (length y); c = memcmp (take n x) (take n y) in
     (c < 0 \<longrightarrow> ord_class.lexordp x y) \<and> (c > 0 \<longrightarrow> ord_class.lexordp y x) \<and>
     (c = 0 \<longrightarrow> (length x < length y \<longrightarrow> ord_class.lexordp x y) \<and>
       (length y < length x \<longrightarrow> ord_class.lexordp y x) \<and> (length x = length y \<longrightarrow> x = y))"
proof (induction x arbitrary: y)
  case Nil
  then show ?case by (cases y) auto
next
  case (Cons a x)
  show ?case
  proof (cases y)
    case (Cons b y')
    then show ?thesis using Cons.IH [of y'] byte_less [of a b] byte_less [of b a]
      by (auto simp: Let_def)
  qed simp
qed

lemma lexordp_byte_irrefl: "\<not> ord_class.lexordp x (x :: bytes)"
  by (rule lexordp_irreflexive) simp

lemma cmp_sign:
  assumes "(c < (0 :: int) \<longrightarrow> L) \<and> (c > 0 \<longrightarrow> G) \<and>
      (c = 0 \<longrightarrow> (m < n \<longrightarrow> L) \<and> (n < m \<longrightarrow> G) \<and> (m = n \<longrightarrow> E))"
    and "G \<Longrightarrow> \<not> L" "E \<Longrightarrow> m = n" "E \<Longrightarrow> \<not> L \<and> \<not> G"
  shows "(if c = 0 then int m - int n else c) < 0 \<longleftrightarrow> L" (is ?A)
    and "(if c = 0 then int m - int n else c) = 0 \<longleftrightarrow> E" (is ?B)
proof -
  consider "c < 0" | "c > 0" | "c = 0" "m < n" | "c = 0" "n < m" | "c = 0" "m = n" by linarith
  then have "?A \<and> ?B" by cases (use assms in auto)
  then show ?A ?B by auto
qed

lemma sdscmp_rep:
  assumes "sds_wf s1" "sds_wf s2"
  shows "sdscmp s1 s2 < 0 \<longleftrightarrow> ord_class.lexordp (sds_str s1) (sds_str s2)"
    and "sdscmp s1 s2 = 0 \<longleftrightarrow> sds_str s1 = sds_str s2"
proof -
  from assms obtain F1 F2 where r: "sds_rep s1 (sds_str s1) F1" "sds_rep s2 (sds_str s2) F2"
    by (meson sds_wf_rep)
  let ?x = "sds_str s1" and ?y = "sds_str s2"
  have l: "sdslen s1 = length ?x" "sdslen s2 = length ?y" using r sds_rep_len by blast+
  have b: "buf s1 = ?x @ 0 # F1" "buf s2 = ?y @ 0 # F2"
      "length ?x < 2 ^ 31" "length ?y < 2 ^ 31" using r by (auto simp: sds_rep_def)
  have s: "s32 (int (length ?x) - int (length ?y)) = int (length ?x) - int (length ?y)"
    using b by (intro s32_id) auto
  define c where "c = memcmp (take (min (length ?x) (length ?y)) ?x) (take (min (length ?x) (length ?y)) ?y)"
  have e: "sdscmp s1 s2 = (if c = 0 then int (length ?x) - int (length ?y) else c)"
    unfolding sdscmp_def l b(1,2) Let_def c_def s by (simp add: min_def)
  have anti: "ord_class.lexordp ?y ?x \<Longrightarrow> \<not> ord_class.lexordp ?x ?y"
    using lexordp_antisym [of ?x ?y] lexordp_byte_irrefl by blast
  have m: "(c < 0 \<longrightarrow> ord_class.lexordp ?x ?y) \<and> (c > 0 \<longrightarrow> ord_class.lexordp ?y ?x) \<and>
     (c = 0 \<longrightarrow> (length ?x < length ?y \<longrightarrow> ord_class.lexordp ?x ?y) \<and>
       (length ?y < length ?x \<longrightarrow> ord_class.lexordp ?y ?x) \<and> (length ?x = length ?y \<longrightarrow> ?x = ?y))"
    using memcmp_take [of ?x ?y] by (simp only: Let_def c_def)
  have l0: "length ?x = length ?y" if "?x = ?y" using that by simp
  have c0: "\<not> ord_class.lexordp ?x ?y \<and> \<not> ord_class.lexordp ?y ?x" if "?x = ?y"
    unfolding that using lexordp_byte_irrefl by blast
  show "sdscmp s1 s2 < 0 \<longleftrightarrow> ord_class.lexordp ?x ?y"
    unfolding e by (rule cmp_sign(1) [OF m anti l0 c0])
  show "sdscmp s1 s2 = 0 \<longleftrightarrow> ?x = ?y"
    unfolding e by (rule cmp_sign(2) [OF m anti l0 c0])
qed

section \<open>Properties\<close>

text \<open>C14: every string the operations can produce is well formed: the counts are not negative and
  add up to the allocation, and a nul byte ends the content.\<close>
theorem sds_reach_wf: "sds_reach s \<Longrightarrow> sds_wf s"
  using sds_reach_rep sds_rep_wf by blast

lemma sds_reach_wf_witness:
  "sds_wf \<lparr>len = 2, free = 2, buf = [98, 99, 0, 32, 0]\<rparr>"
proof (rule sds_reach_wf)
  have "sds_reach \<lparr>len = 4, free = 0, buf = [32, 98, 99, 32, 0]\<rparr>"
    by (rule sds_reach.new [of "\<lambda>_. 0" "[32, 98, 99, 32]" 4]) (simp_all add: sdsnewlen_def s32_def spat_def upat_def)
  then show "sds_reach \<lparr>len = 2, free = 2, buf = [98, 99, 0, 32, 0]\<rparr>"
    by (rule sds_reach.trim [where cset = "[32]"])
      (simp add: sdstrim_def sdslen_def usize_def upat_def trim_sp.simps trim_ep.simps mread_def mwrite_def
        memmove_def strchr_def)
qed

text \<open>C28: \<open>sdstrim\<close> keeps the content without the bytes of the set, and the nul bytes, at
  either end, for every well-formed string and every set, and never leaves the buffer.\<close>
theorem sdstrim_trims:
  assumes "sds_wf s"
  shows "\<exists>s'. sdstrim s cset = Some s' \<and> sds_wf s' \<and>
     sds_str s' = trimmed (\<lambda>c. c \<in> set cset \<or> c = 0) (sds_str s)"
proof -
  from assms obtain F where "sds_rep s (sds_str s) F" by (rule sds_wfE)
  from sdstrim_rep [OF this, of cset] sds_rep_wf sds_rep_str show ?thesis
    unfolding strchr_def [abs_def] by blast
qed

lemma sdstrim_trims_witness:
  "\<exists>s'. sdstrim \<lparr>len = 3, free = 0, buf = [32, 98, 32, 0]\<rparr> [32] = Some s' \<and> sds_wf s' \<and> sds_str s' = [98]"
  using sdstrim_trims [of "\<lparr>len = 3, free = 0, buf = [32, 98, 32, 0]\<rparr>" "[32]"]
  by (simp add: sds_wf_def sds_str_def trimmed_def)

text \<open>C26: \<open>sdsrange\<close> keeps exactly the positions between the two indices, both included, where a
  negative index counts from the end, for every pair of indices.\<close>
theorem sdsrange_keeps:
  assumes "sds_wf s"
  shows "\<exists>s'. sdsrange s start stop = Some s' \<and> sds_wf s' \<and>
     sds_str s' = nths (sds_str s) {i. range_index (length (sds_str s)) start \<le> int i \<and>
       int i \<le> range_index (length (sds_str s)) stop}"
proof -
  from assms obtain F where "sds_rep s (sds_str s) F" by (rule sds_wfE)
  from sdsrange_rep [OF this, of start stop] sds_rep_wf sds_rep_str show ?thesis by blast
qed

lemma sdsrange_keeps_witness:
  "\<exists>s'. sdsrange \<lparr>len = 3, free = 0, buf = [97, 98, 99, 0]\<rparr> (- 2) 10 = Some s' \<and> sds_wf s' \<and>
     sds_str s' = nths [97, 98, 99] {i. 1 \<le> int i \<and> int i \<le> 10}"
  using sdsrange_keeps [of "\<lparr>len = 3, free = 0, buf = [97, 98, 99, 0]\<rparr>" "- 2" 10]
  by (simp add: sds_wf_def sds_str_def range_index_def)

text \<open>The arguments quoted one by one and joined by spaces, as a caller composes the functions.\<close>

fun quote_all :: "(nat \<Rightarrow> byte) \<Rightarrow> bytes list \<Rightarrow> bytes list option" where
  "quote_all junk [] = Some []"
| "quote_all junk (p # ps) = do {
     s \<leftarrow> sdsempty junk;
     s \<leftarrow> sdscatrepr junk s p (length p);
     qs \<leftarrow> quote_all junk ps;
     Some (sds_str s # qs) }"

lemma quote_all_repr:
  "\<forall>p \<in> set ps. length (repr p) < 2 ^ 31 - SDS_MAX_PREALLOC \<Longrightarrow> quote_all junk ps = Some (map repr ps)"
proof (induction ps)
  case (Cons p ps)
  obtain s where s: "sdsempty junk = Some s" "sds_rep s [] []"
    using sdsnewlen_rep [of "[]" 0 junk "[]"] by (auto simp: sdsempty_def)
  with sdscatrepr_content [of s p junk "[]"] sds_rep_wf sds_rep_str Cons show ?case by fastforce
qed simp

lemma join_str_length: "t \<in> set ts \<Longrightarrow> length t \<le> length (join_str sep ts)"
  by (induction sep ts rule: join_str.induct) auto

text \<open>C13: \<open>sdssplitargs\<close> reads back every list of arguments, of arbitrary bytes, that were quoted
  with \<open>sdscatrepr\<close> and joined with \<open>sdsjoin\<close>.\<close>
theorem sdssplitargs_sdscatrepr:
  assumes "length (join_str [32] (map repr ps)) < 2 ^ 31 - SDS_MAX_PREALLOC"
  shows "\<exists>s. do { qs \<leftarrow> quote_all junk ps; sdsjoin junk qs [32] } = Some s \<and>
     sdssplitargs (sds_str s) = Some ps"
proof -
  have "\<forall>p \<in> set ps. length (repr p) < 2 ^ 31 - SDS_MAX_PREALLOC"
    using join_str_length [of _ "map repr ps" "[32]"] assms by fastforce
  with quote_all_repr [of ps junk] sdsjoin_content [OF assms, of junk] split_loop_join [of ps "[]"]
  show ?thesis by (auto simp: sdssplitargs_def)
qed

lemma sdssplitargs_sdscatrepr_witness:
  "\<exists>s. do { qs \<leftarrow> quote_all (\<lambda>_. 0) [[0, 34, 200], []]; sdsjoin (\<lambda>_. 0) qs [32] } = Some s \<and>
     sdssplitargs (sds_str s) = Some [[0, 34, 200], []]"
  by (rule sdssplitargs_sdscatrepr)
    (simp add: repr_def repr_byte_def isprint_def hex2_def SDS_MAX_PREALLOC_def)

text \<open>C20: \<open>sdssplitlen\<close> splits at every separator: joining the tokens with the separator gives the
  string back, no token contains the separator, and neither the string nor the token array is
  accessed outside its bounds.\<close>
theorem sdssplitlen_splits:
  assumes "x \<noteq> []" "sep \<noteq> []"
  shows "\<exists>ts. sdssplitlen x (int (length x)) sep (int (length sep)) = Some (SplitTokens ts) \<and>
     join_str sep ts = x \<and> (\<forall>t \<in> set ts. \<not> sublist sep t)"
  using sdssplitlen_join [OF assms, of "[]"] by simp

lemma sdssplitlen_splits_witness:
  "\<exists>ts. sdssplitlen [97, 45, 45, 45, 98] 5 [45, 45] 2 = Some (SplitTokens ts) \<and>
     join_str [45, 45] ts = [97, 45, 45, 45, 98] \<and> (\<forall>t \<in> set ts. \<not> sublist [45, 45] t)"
  using sdssplitlen_splits [of "[97, 45, 45, 45, 98]" "[45, 45]"] by simp

text \<open>C33: \<open>sdscmp\<close> orders well-formed strings lexicographically by unsigned bytes, and is 0
  exactly on equal contents.\<close>
theorem sdscmp_lexicographic:
  assumes "sds_wf s1" "sds_wf s2"
  shows "(sdscmp s1 s2 < 0 \<longleftrightarrow> ord_class.lexordp (sds_str s1) (sds_str s2)) \<and>
     (sdscmp s1 s2 = 0 \<longleftrightarrow> sds_str s1 = sds_str s2)"
  using sdscmp_rep [OF assms] by blast

lemma sdscmp_lexicographic_witness:
  "sdscmp \<lparr>len = 1, free = 0, buf = [97, 0]\<rparr> \<lparr>len = 1, free = 1, buf = [200, 0, 0]\<rparr> < 0"
  using sdscmp_lexicographic [of "\<lparr>len = 1, free = 0, buf = [97, 0]\<rparr>" "\<lparr>len = 1, free = 1, buf = [200, 0, 0]\<rparr>"]
  by (simp add: sds_wf_def sds_str_def)

text \<open>The example in the comment of \<open>sdstrim\<close>: the call gives \<open>HelloWorld\<close>, with no space
  between the words, as the string holds none.\<close>
theorem sdstrim_comment_example:
  "\<exists>s'. sdstrim \<lparr>len = 32, free = 0, buf = cstr ''AA...AA.a.aa.aHelloWorld     :::'' @ [0]\<rparr> (cstr ''A. :'') = Some s'
     \<and> sds_str s' = cstr ''a.aa.aHelloWorld''"
proof -
  let ?x = "cstr ''AA...AA.a.aa.aHelloWorld     :::''"
  have "sds_rep \<lparr>len = 32, free = 0, buf = ?x @ [0]\<rparr> ?x []" by (simp add: sds_rep_def)
  from sdstrim_rep [OF this, of "cstr ''A. :''"] sds_rep_str show ?thesis
    by (fastforce simp: trimmed_def strchr_def)
qed

end
