(* ===== verification/Map_Spec.thy ===== *)
theory Map_Spec
  imports Prelude
begin

text \<open>
  The contract of a dictionary as its clients use it. Looking a key up may reorganise the
  container, so every operation returns a new container; \<^term>\<open>None\<close> is an access outside the
  allocation or a failed assertion. \<open>cap\<close> is the number of keys up to which the size arithmetic of
  the container is exact. \<open>MAdd\<close> does not overwrite and reports whether it added; \<open>MPut\<close> overwrites
  and reports whether the key is new.
\<close>

datatype ('k, 'v) map_op = MGet 'k | MAdd 'k 'v | MPut 'k 'v | MDel 'k

datatype 'v map_out = Got "'v option" | Flag bool

fun run_map ::
  "('s \<Rightarrow> 'k \<Rightarrow> ('s \<times> 'v option) option) \<Rightarrow> ('s \<Rightarrow> 'k \<Rightarrow> 'v \<Rightarrow> ('s \<times> bool) option) \<Rightarrow>
   ('s \<Rightarrow> 'k \<Rightarrow> 'v \<Rightarrow> ('s \<times> bool) option) \<Rightarrow> ('s \<Rightarrow> 'k \<Rightarrow> ('s \<times> bool) option) \<Rightarrow>
   's \<Rightarrow> ('k, 'v) map_op list \<Rightarrow> ('s \<times> 'v map_out list) option" where
  "run_map get add put del s [] = Some (s, [])"
| "run_map get add put del s (MGet k # ops) = do {
     (s, r) \<leftarrow> get s k; (s, rs) \<leftarrow> run_map get add put del s ops; Some (s, Got r # rs) }"
| "run_map get add put del s (MAdd k v # ops) = do {
     (s, b) \<leftarrow> add s k v; (s, rs) \<leftarrow> run_map get add put del s ops; Some (s, Flag b # rs) }"
| "run_map get add put del s (MPut k v # ops) = do {
     (s, b) \<leftarrow> put s k v; (s, rs) \<leftarrow> run_map get add put del s ops; Some (s, Flag b # rs) }"
| "run_map get add put del s (MDel k # ops) = do {
     (s, b) \<leftarrow> del s k; (s, rs) \<leftarrow> run_map get add put del s ops; Some (s, Flag b # rs) }"

fun spec_map_op :: "('k \<rightharpoonup> 'v) \<Rightarrow> ('k, 'v) map_op \<Rightarrow> ('k \<rightharpoonup> 'v) \<times> 'v map_out" where
  "spec_map_op m (MGet k) = (m, Got (m k))"
| "spec_map_op m (MAdd k v) = (if m k = None then m(k \<mapsto> v) else m, Flag (m k = None))"
| "spec_map_op m (MPut k v) = (m(k \<mapsto> v), Flag (m k = None))"
| "spec_map_op m (MDel k) = (m(k := None), Flag (m k \<noteq> None))"

fun spec_map :: "('k \<rightharpoonup> 'v) \<Rightarrow> ('k, 'v) map_op list \<Rightarrow> ('k \<rightharpoonup> 'v) \<times> 'v map_out list" where
  "spec_map m [] = (m, [])"
| "spec_map m (x # ops) =
     (let (m, r) = spec_map_op m x; (m, rs) = spec_map m ops in (m, r # rs))"

locale map_impl =
  fixes inv :: "'s \<Rightarrow> bool" and abs :: "'s \<Rightarrow> 'k \<rightharpoonup> 'v" and cap :: nat
    and get :: "'s \<Rightarrow> 'k \<Rightarrow> ('s \<times> 'v option) option"
    and add :: "'s \<Rightarrow> 'k \<Rightarrow> 'v \<Rightarrow> ('s \<times> bool) option"
    and put :: "'s \<Rightarrow> 'k \<Rightarrow> 'v \<Rightarrow> ('s \<times> bool) option"
    and del :: "'s \<Rightarrow> 'k \<Rightarrow> ('s \<times> bool) option"
  assumes get_spec: "inv s \<Longrightarrow> \<exists>s'. get s k = Some (s', abs s k) \<and> inv s' \<and> abs s' = abs s"
    and add_spec: "inv s \<Longrightarrow> card (dom (abs s)) < cap \<Longrightarrow>
      \<exists>s'. add s k v = Some (s', abs s k = None) \<and> inv s' \<and>
        abs s' = (if abs s k = None then (abs s)(k \<mapsto> v) else abs s)"
    and put_spec: "inv s \<Longrightarrow> card (dom (abs s)) < cap \<Longrightarrow>
      \<exists>s'. put s k v = Some (s', abs s k = None) \<and> inv s' \<and> abs s' = (abs s)(k \<mapsto> v)"
    and del_spec: "inv s \<Longrightarrow>
      \<exists>s'. del s k = Some (s', abs s k \<noteq> None) \<and> inv s' \<and> abs s' = (abs s)(k := None)"
    and abs_finite: "inv s \<Longrightarrow> finite (dom (abs s))"
begin

lemma card_upd: "inv s \<Longrightarrow> card (dom ((abs s)(k \<mapsto> v))) \<le> card (dom (abs s)) + 1"
  using abs_finite [of s] by (simp add: card_insert_if)

lemma run_map_refines:
  assumes "inv s" and "card (dom (abs s)) + length ops \<le> cap"
  shows "\<exists>s'. run_map get add put del s ops = Some (s', snd (spec_map (abs s) ops)) \<and>
     inv s' \<and> abs s' = fst (spec_map (abs s) ops)"
  using assms
proof (induction ops arbitrary: s)
  case (Cons x ops)
  have c: "card (dom (abs s)) < cap" using Cons.prems(2) by simp
  show ?case
  proof (cases x)
    case (MGet k)
    with get_spec [OF Cons.prems(1), of k] obtain s' where
      s': "get s k = Some (s', abs s k)" "inv s'" "abs s' = abs s" by auto
    with Cons.IH [OF s'(2)] Cons.prems MGet show ?thesis by (auto simp: split_beta)
  next
    case (MAdd k v)
    with add_spec [OF Cons.prems(1) c, of k v] obtain s' where
      s': "add s k v = Some (s', abs s k = None)" "inv s'"
        "abs s' = (if abs s k = None then (abs s)(k \<mapsto> v) else abs s)" by auto
    have "card (dom (abs s')) \<le> card (dom (abs s)) + 1"
      using card_upd [OF Cons.prems(1), of k v] by (simp add: s'(3))
    then have "card (dom (abs s')) + length ops \<le> cap" using Cons.prems(2) by simp
    from Cons.IH [OF s'(2) this] obtain s'' where
      "run_map get add put del s' ops = Some (s'', snd (spec_map (abs s') ops))" "inv s''"
        "abs s'' = fst (spec_map (abs s') ops)" by blast
    with s' MAdd show ?thesis by (cases "abs s k") (simp_all add: split_beta)
  next
    case (MPut k v)
    with put_spec [OF Cons.prems(1) c, of k v] obtain s' where
      s': "put s k v = Some (s', abs s k = None)" "inv s'" "abs s' = (abs s)(k \<mapsto> v)" by auto
    have "card (dom (abs s')) \<le> card (dom (abs s)) + 1"
      using card_upd [OF Cons.prems(1), of k v] by (simp add: s'(3))
    then have "card (dom (abs s')) + length ops \<le> cap" using Cons.prems(2) by simp
    from Cons.IH [OF s'(2) this] obtain s'' where
      "run_map get add put del s' ops = Some (s'', snd (spec_map (abs s') ops))" "inv s''"
        "abs s'' = fst (spec_map (abs s') ops)" by blast
    with s' MPut show ?thesis by (simp add: split_beta)
  next
    case (MDel k)
    with del_spec [OF Cons.prems(1), of k] obtain s' where
      s': "del s k = Some (s', abs s k \<noteq> None)" "inv s'" "abs s' = (abs s)(k := None)" by auto
    have "card (dom (abs s')) \<le> card (dom (abs s))"
      using abs_finite [OF Cons.prems(1)] by (simp add: s'(3) card_Diff1_le)
    then have "card (dom (abs s')) + length ops \<le> cap" using Cons.prems(2) by simp
    from Cons.IH [OF s'(2) this] obtain s'' where
      "run_map get add put del s' ops = Some (s'', snd (spec_map (abs s') ops))" "inv s''"
        "abs s'' = fst (spec_map (abs s') ops)" by blast
    with s' MDel show ?thesis by (simp add: split_beta)
  qed
qed simp

end

end
