(* ===== verification/Dict.thy ===== *)
theory Dict
  imports Map_Spec "HOL-Library.Multiset"
begin

text \<open>
  \<^verbatim>\<open>dict.c\<close>, \<^verbatim>\<open>dict.h\<close>: the hash table with two tables and incremental rehashing. A bucket is the
  list of the entries chained in it; a reference to an entry is its table, bucket and position.
  The hash function and the comparison of the keys are the fields of the dictionary's type, as in
  the code; duplicating and destroying keys and values (memory management) is not modelled. The
  global \<open>dict_can_resize\<close> is the argument \<open>cr\<close>. An access outside a table and a failed assertion
  are \<^term>\<open>None\<close>. Sizes are naturals: the code's \<open>unsigned long\<close> arithmetic does not wrap below
  the number of keys at which \<open>_dictNextPower\<close> saturates.
\<close>

type_synonym ('k, 'v) chain = "('k \<times> 'v) list"

record 'k dictType =
  hashFunction :: "'k \<Rightarrow> 32 word"
  keyCompare :: "'k \<Rightarrow> 'k \<Rightarrow> bool"

record ('k, 'v) dictht =
  table :: "('k, 'v) chain list"
  htsize :: nat
  sizemask :: nat
  used :: nat

record ('k, 'v) dict =
  dtype :: "'k dictType"
  ht0 :: "('k, 'v) dictht"
  ht1 :: "('k, 'v) dictht"
  rehashidx :: int
  iterators :: int

text \<open>An entry: table (0 or 1), bucket, position in the chain.\<close>

type_synonym entry_ref = "nat \<times> nat \<times> nat"

definition DICT_HT_INITIAL_SIZE :: nat where "DICT_HT_INITIAL_SIZE = 4"

definition dict_force_resize_ratio :: nat where "dict_force_resize_ratio = 5"

definition LONG_MAX :: int where "LONG_MAX = 2 ^ 63 - 1"

definition dictIsRehashing :: "('k, 'v) dict \<Rightarrow> bool" where
  "dictIsRehashing d \<longleftrightarrow> rehashidx d \<noteq> - 1"

definition dictSize :: "('k, 'v) dict \<Rightarrow> nat" where
  "dictSize d = used (ht0 d) + used (ht1 d)"

definition dictSlots :: "('k, 'v) dict \<Rightarrow> nat" where
  "dictSlots d = htsize (ht0 d) + htsize (ht1 d)"

definition dictHashKey :: "('k, 'v) dict \<Rightarrow> 'k \<Rightarrow> 32 word" where
  "dictHashKey d key = hashFunction (dtype d) key"

text \<open>\<open>hash & sizemask\<close>, and a read of \<open>ht->table[idx]\<close>.\<close>

definition slot :: "32 word \<Rightarrow> nat \<Rightarrow> nat" where
  "slot h m = unat h AND m"

definition bucket :: "('k, 'v) dictht \<Rightarrow> nat \<Rightarrow> ('k, 'v) chain option" where
  "bucket h i = (if i < length (table h) then Some (table h ! i) else None)"

section \<open>Creation and resizing\<close>

definition dictReset :: "('k, 'v) dictht" where
  "dictReset = \<lparr>table = [], htsize = 0, sizemask = 0, used = 0\<rparr>"

definition dictCreate :: "'k dictType \<Rightarrow> ('k, 'v) dict" where
  "dictCreate ty = \<lparr>dtype = ty, ht0 = dictReset, ht1 = dictReset, rehashidx = - 1, iterators = 0\<rparr>"

function next_power_loop :: "nat \<Rightarrow> nat \<Rightarrow> nat" where
  "next_power_loop i sz = (if i = 0 \<or> i \<ge> sz then i else next_power_loop (i * 2) sz)"
  by pat_completeness auto
termination by (relation "measure (\<lambda>(i, sz). sz - i)") auto

declare next_power_loop.simps [simp del]

definition dictNextPower :: "nat \<Rightarrow> nat" where
  "dictNextPower sz = (if int sz \<ge> LONG_MAX then nat LONG_MAX else next_power_loop DICT_HT_INITIAL_SIZE sz)"

definition dictExpand :: "('k, 'v) dict \<Rightarrow> nat \<Rightarrow> ('k, 'v) dict \<times> bool" where
  "dictExpand d sz =
     (let realsize = dictNextPower sz in
      if dictIsRehashing d \<or> used (ht0 d) > sz then (d, False)
      else
        let n = \<lparr>table = replicate realsize [], htsize = realsize, sizemask = realsize - 1, used = 0\<rparr> in
        if table (ht0 d) = [] then (d\<lparr>ht0 := n\<rparr>, True)
        else (d\<lparr>ht1 := n, rehashidx := 0\<rparr>, True))"

definition dictResize :: "bool \<Rightarrow> ('k, 'v) dict \<Rightarrow> ('k, 'v) dict \<times> bool" where
  "dictResize cr d =
     (if \<not> cr \<or> dictIsRehashing d then (d, False)
      else
        let minimal = s32 (int (used (ht0 d)));
            minimal = (if minimal < int DICT_HT_INITIAL_SIZE then int DICT_HT_INITIAL_SIZE else minimal)
        in dictExpand d (nat minimal))"

definition dictExpandIfNeeded :: "bool \<Rightarrow> ('k, 'v) dict \<Rightarrow> ('k, 'v) dict \<times> bool" where
  "dictExpandIfNeeded cr d =
     (if dictIsRehashing d then (d, True)
      else if htsize (ht0 d) = 0 then dictExpand d DICT_HT_INITIAL_SIZE
      else if used (ht0 d) \<ge> htsize (ht0 d) \<and>
          (cr \<or> used (ht0 d) div htsize (ht0 d) > dict_force_resize_ratio)
      then dictExpand d (used (ht0 d) * 2)
      else (d, True))"

section \<open>Rehashing\<close>

function skip_empty :: "('k, 'v) chain list \<Rightarrow> nat \<Rightarrow> nat option" where
  "skip_empty t i =
     (if i < length t then (if t ! i = [] then skip_empty t (i + 1) else Some i) else None)"
  by pat_completeness auto
termination by (relation "measure (\<lambda>(t, i). length t - i)") auto

declare skip_empty.simps [simp del]

text \<open>Chaining an entry in front of a bucket.\<close>

definition ht_push :: "('k, 'v) dictht \<Rightarrow> nat \<Rightarrow> 'k \<times> 'v \<Rightarrow> ('k, 'v) dictht option" where
  "ht_push h i e = do {
     b \<leftarrow> bucket h i;
     Some (h\<lparr>table := (table h)[i := e # b], used := used h + 1\<rparr>) }"

fun move_bucket :: "('k, 'v) dict \<Rightarrow> ('k, 'v) chain \<Rightarrow> ('k, 'v) dict option" where
  "move_bucket d [] = Some d"
| "move_bucket d (e # de) = do {
     h \<leftarrow> ht_push (ht1 d) (slot (dictHashKey d (fst e)) (sizemask (ht1 d))) e;
     move_bucket (d\<lparr>ht0 := (ht0 d)\<lparr>used := used (ht0 d) - 1\<rparr>, ht1 := h\<rparr>) de }"

fun dictRehash_loop :: "nat \<Rightarrow> ('k, 'v) dict \<Rightarrow> (('k, 'v) dict \<times> bool) option" where
  "dictRehash_loop 0 d = Some (d, True)"
| "dictRehash_loop (Suc n) d =
     (if used (ht0 d) = 0
      then Some (d\<lparr>ht0 := ht1 d, ht1 := dictReset, rehashidx := - 1\<rparr>, False)
      else if \<not> int (htsize (ht0 d)) > rehashidx d then None
      else do {
        i \<leftarrow> skip_empty (table (ht0 d)) (nat (rehashidx d));
        de \<leftarrow> bucket (ht0 d) i;
        d \<leftarrow> move_bucket d de;
        dictRehash_loop n
          (d\<lparr>ht0 := (ht0 d)\<lparr>table := (table (ht0 d))[i := []]\<rparr>, rehashidx := int i + 1\<rparr>) })"

definition dictRehash :: "('k, 'v) dict \<Rightarrow> nat \<Rightarrow> (('k, 'v) dict \<times> bool) option" where
  "dictRehash d n = (if \<not> dictIsRehashing d then Some (d, False) else dictRehash_loop n d)"

definition dictRehashStep :: "('k, 'v) dict \<Rightarrow> ('k, 'v) dict option" where
  "dictRehashStep d = (if iterators d = 0 then map_option fst (dictRehash d 1) else Some d)"

definition rehash_step_if :: "('k, 'v) dict \<Rightarrow> ('k, 'v) dict option" where
  "rehash_step_if d = (if dictIsRehashing d then dictRehashStep d else Some d)"

section \<open>Lookup, insertion, deletion\<close>

fun chain_find :: "('k \<Rightarrow> 'k \<Rightarrow> bool) \<Rightarrow> 'k \<Rightarrow> ('k, 'v) chain \<Rightarrow> nat option" where
  "chain_find cmp key [] = None"
| "chain_find cmp key (e # es) =
     (if cmp key (fst e) then Some 0 else map_option Suc (chain_find cmp key es))"

text \<open>The search over the two tables: the second one is looked at only while rehashing.\<close>

definition dict_search :: "('k, 'v) dict \<Rightarrow> 'k \<Rightarrow> entry_ref option option" where
  "dict_search d key =
     (let h = dictHashKey d key; i0 = slot h (sizemask (ht0 d)); i1 = slot h (sizemask (ht1 d)) in
      do {
        b0 \<leftarrow> bucket (ht0 d) i0;
        (case chain_find (keyCompare (dtype d)) key b0 of
           Some p \<Rightarrow> Some (Some (0, i0, p))
         | None \<Rightarrow>
             if \<not> dictIsRehashing d then Some None
             else do {
               b1 \<leftarrow> bucket (ht1 d) i1;
               Some (case chain_find (keyCompare (dtype d)) key b1 of
                       Some p \<Rightarrow> Some (1, i1, p) | None \<Rightarrow> None) }) })"

definition dictFind :: "('k, 'v) dict \<Rightarrow> 'k \<Rightarrow> (('k, 'v) dict \<times> entry_ref option) option" where
  "dictFind d key =
     (if htsize (ht0 d) = 0 then Some (d, None)
      else do { d \<leftarrow> rehash_step_if d; r \<leftarrow> dict_search d key; Some (d, r) })"

definition entry_val :: "('k, 'v) dict \<Rightarrow> entry_ref \<Rightarrow> 'v" where
  "entry_val d r = (case r of (t, i, p) \<Rightarrow> snd (table (if t = 0 then ht0 d else ht1 d) ! i ! p))"

definition dictFetchValue :: "('k, 'v) dict \<Rightarrow> 'k \<Rightarrow> (('k, 'v) dict \<times> 'v option) option" where
  "dictFetchValue d key = do {
     (d, r) \<leftarrow> dictFind d key;
     Some (d, map_option (entry_val d) r) }"

text \<open>\<open>_dictKeyIndex\<close>: the bucket for a new key, or nothing if the key is present.\<close>

definition dictKeyIndex :: "bool \<Rightarrow> ('k, 'v) dict \<Rightarrow> 'k \<Rightarrow> (('k, 'v) dict \<times> nat option) option" where
  "dictKeyIndex cr d key =
     (let (d, ok) = dictExpandIfNeeded cr d in
      if \<not> ok then Some (d, None)
      else do {
        r \<leftarrow> dict_search d key;
        Some (d, case r of
                   Some _ \<Rightarrow> None
                 | None \<Rightarrow> Some (slot (dictHashKey d key)
                                   (sizemask (if dictIsRehashing d then ht1 d else ht0 d)))) })"

text \<open>The value of a new entry is whatever the fresh memory holds, until the caller sets it.\<close>

definition dictAddRaw :: "bool \<Rightarrow> 'v \<Rightarrow> ('k, 'v) dict \<Rightarrow> 'k \<Rightarrow> (('k, 'v) dict \<times> entry_ref option) option" where
  "dictAddRaw cr junk d key = do {
     d \<leftarrow> rehash_step_if d;
     (d, index) \<leftarrow> dictKeyIndex cr d key;
     (case index of
        None \<Rightarrow> Some (d, None)
      | Some i \<Rightarrow>
          if dictIsRehashing d
          then do { h \<leftarrow> ht_push (ht1 d) i (key, junk); Some (d\<lparr>ht1 := h\<rparr>, Some (1, i, 0)) }
          else do { h \<leftarrow> ht_push (ht0 d) i (key, junk); Some (d\<lparr>ht0 := h\<rparr>, Some (0, i, 0)) }) }"

definition ht_set_val :: "('k, 'v) dictht \<Rightarrow> nat \<Rightarrow> nat \<Rightarrow> 'v \<Rightarrow> ('k, 'v) dictht" where
  "ht_set_val h i p v =
     h\<lparr>table := (table h)[i := (table h ! i)[p := (fst (table h ! i ! p), v)]]\<rparr>"

definition dictSetVal :: "('k, 'v) dict \<Rightarrow> entry_ref \<Rightarrow> 'v \<Rightarrow> ('k, 'v) dict" where
  "dictSetVal d r v =
     (case r of (t, i, p) \<Rightarrow>
        if t = 0 then d\<lparr>ht0 := ht_set_val (ht0 d) i p v\<rparr> else d\<lparr>ht1 := ht_set_val (ht1 d) i p v\<rparr>)"

definition dictAdd :: "bool \<Rightarrow> 'v \<Rightarrow> ('k, 'v) dict \<Rightarrow> 'k \<Rightarrow> 'v \<Rightarrow> (('k, 'v) dict \<times> bool) option" where
  "dictAdd cr junk d key v = do {
     (d, entry) \<leftarrow> dictAddRaw cr junk d key;
     (case entry of None \<Rightarrow> Some (d, False) | Some r \<Rightarrow> Some (dictSetVal d r v, True)) }"

definition dictReplace :: "bool \<Rightarrow> 'v \<Rightarrow> ('k, 'v) dict \<Rightarrow> 'k \<Rightarrow> 'v \<Rightarrow> (('k, 'v) dict \<times> bool) option" where
  "dictReplace cr junk d key v = do {
     (d, added) \<leftarrow> dictAdd cr junk d key v;
     if added then Some (d, True)
     else do {
       (d, entry) \<leftarrow> dictFind d key;
       r \<leftarrow> entry;
       Some (dictSetVal d r v, False) } }"

definition dictReplaceRaw :: "bool \<Rightarrow> 'v \<Rightarrow> ('k, 'v) dict \<Rightarrow> 'k \<Rightarrow> (('k, 'v) dict \<times> entry_ref option) option" where
  "dictReplaceRaw cr junk d key = do {
     (d, entry) \<leftarrow> dictFind d key;
     (case entry of Some r \<Rightarrow> Some (d, Some r) | None \<Rightarrow> dictAddRaw cr junk d key) }"

definition ht_unlink :: "('k, 'v) dictht \<Rightarrow> nat \<Rightarrow> nat \<Rightarrow> ('k, 'v) dictht" where
  "ht_unlink h i p =
     h\<lparr>table := (table h)[i := take p (table h ! i) @ drop (p + 1) (table h ! i)], used := used h - 1\<rparr>"

definition dictGenericDelete :: "('k, 'v) dict \<Rightarrow> 'k \<Rightarrow> (('k, 'v) dict \<times> bool) option" where
  "dictGenericDelete d key =
     (if htsize (ht0 d) = 0 then Some (d, False)
      else do {
        d \<leftarrow> rehash_step_if d;
        r \<leftarrow> dict_search d key;
        Some (case r of
                None \<Rightarrow> (d, False)
              | Some (t, i, p) \<Rightarrow>
                  (if t = 0 then d\<lparr>ht0 := ht_unlink (ht0 d) i p\<rparr> else d\<lparr>ht1 := ht_unlink (ht1 d) i p\<rparr>,
                   True)) })"

text \<open>\<open>_dictClear\<close>: the entries it frees, bucket by bucket while the table is not empty; the table is
  reset afterwards.\<close>

fun clear_loop :: "('k, 'v) chain list \<Rightarrow> nat \<Rightarrow> ('k, 'v) chain" where
  "clear_loop [] n = []"
| "clear_loop (b # bs) n = (if n > 0 then b @ clear_loop bs (n - length b) else [])"

definition dictClear :: "('k, 'v) dictht \<Rightarrow> ('k, 'v) dictht \<times> ('k, 'v) chain" where
  "dictClear h = (dictReset, clear_loop (table h) (used h))"

definition dictEmpty :: "('k, 'v) dict \<Rightarrow> ('k, 'v) dict \<times> ('k, 'v) chain" where
  "dictEmpty d =
     (let (h0, f0) = dictClear (ht0 d); (h1, f1) = dictClear (ht1 d) in
      (d\<lparr>ht0 := h0, ht1 := h1, rehashidx := - 1, iterators := 0\<rparr>, f0 @ f1))"

section \<open>Well-formed dictionaries\<close>

definition elist :: "('k, 'v) dict \<Rightarrow> ('k, 'v) chain" where
  "elist d = concat (table (ht0 d)) @ concat (table (ht1 d))"

definition dict_map :: "('k, 'v) dict \<Rightarrow> 'k \<rightharpoonup> 'v" where
  "dict_map d = map_of (elist d)"

definition ht_ok :: "'k dictType \<Rightarrow> ('k, 'v) dictht \<Rightarrow> bool" where
  "ht_ok ty h \<longleftrightarrow> length (table h) = htsize h \<and> used h = length (concat (table h)) \<and>
     (\<exists>b \<le> 63. htsize h = 2 ^ b \<and> sizemask h = 2 ^ b - 1) \<and>
     (\<forall>i < htsize h. \<forall>e \<in> set (table h ! i). slot (hashFunction ty (fst e)) (sizemask h) = i)"

definition dict_wf :: "('k, 'v) dict \<Rightarrow> bool" where
  "dict_wf d \<longleftrightarrow> (\<forall>a b. keyCompare (dtype d) a b \<longleftrightarrow> a = b) \<and> distinct (map fst (elist d)) \<and>
     (if dictIsRehashing d
      then ht_ok (dtype d) (ht0 d) \<and> ht_ok (dtype d) (ht1 d) \<and> 0 \<le> rehashidx d \<and>
        rehashidx d \<le> int (htsize (ht0 d)) \<and>
        (\<forall>i < nat (rehashidx d). i < htsize (ht0 d) \<longrightarrow> table (ht0 d) ! i = [])
      else ht1 d = dictReset \<and> (ht0 d = dictReset \<or> ht_ok (dtype d) (ht0 d)))"

text \<open>The same entries in the same kind of dictionary: what rehashing and resizing keep.\<close>

definition same_entries :: "('k, 'v) dict \<Rightarrow> ('k, 'v) dict \<Rightarrow> bool" where
  "same_entries d d' \<longleftrightarrow> mset (elist d') = mset (elist d) \<and> dtype d' = dtype d \<and> iterators d' = iterators d"

lemma same_entries_refl [simp]: "same_entries d d"
  by (simp add: same_entries_def)

lemma same_entries_trans: "same_entries a b \<Longrightarrow> same_entries b c \<Longrightarrow> same_entries a c"
  by (simp add: same_entries_def)

lemma map_of_mset:
  assumes "distinct (map fst xs)" "mset xs = mset ys"
  shows "map_of xs = map_of ys"
proof -
  have "distinct (map fst ys)"
    using assms by (metis mset_eq_imp_distinct_iff mset_map)
  moreover have "set xs = set ys" using assms(2) by (rule mset_eq_setD)
  ultimately show ?thesis using assms(1) by (metis map_of_inject_set)
qed

lemma distinct_fst_mset: "mset xs = mset ys \<Longrightarrow> distinct (map fst xs) = distinct (map fst ys)"
  by (metis mset_eq_imp_distinct_iff mset_map)

lemma same_entries_map:
  "same_entries d d' \<Longrightarrow> distinct (map fst (elist d)) \<Longrightarrow> distinct (map fst (elist d')) \<and> dict_map d' = dict_map d"
  unfolding same_entries_def dict_map_def
  using map_of_mset [of "elist d" "elist d'"] distinct_fst_mset [of "elist d" "elist d'"] by metis

lemma mset_concat_update:
  assumes "i < length t"
  shows "mset (concat (t[i := b])) + mset (t ! i) = mset (concat t) + mset b"
proof -
  have "mset (concat t) = mset (concat (take i t)) + mset (t ! i) + mset (concat (drop (Suc i) t))"
    using arg_cong [OF id_take_nth_drop [OF assms], of "\<lambda>t. mset (concat t)"]
    by (simp only: concat_append concat.simps mset_append add.assoc)
  moreover have "mset (concat (t[i := b])) = mset (concat (take i t)) + mset b + mset (concat (drop (Suc i) t))"
    using assms by (simp add: upd_conv_take_nth_drop)
  ultimately show ?thesis by simp
qed

lemma slot_mask: "slot h (2 ^ b - 1) = unat h mod 2 ^ b"
proof -
  have "(2 :: nat) ^ b - 1 = mask b" by (simp only: mask_eq_exp_minus_1)
  then show ?thesis by (simp only: slot_def take_bit_eq_mask [symmetric] take_bit_eq_mod)
qed

lemma ht_ok_slot: "ht_ok ty h \<Longrightarrow> slot x (sizemask h) < length (table h)"
  by (auto simp: ht_ok_def slot_mask [simplified])

lemma ht_ok_bucket: "ht_ok ty h \<Longrightarrow> bucket h (slot x (sizemask h)) = Some (table h ! slot x (sizemask h))"
  using ht_ok_slot by (auto simp: bucket_def)

lemma ht_ok_in:
  assumes "ht_ok ty h"
  shows "(k, v) \<in> set (concat (table h)) \<longleftrightarrow> (k, v) \<in> set (table h ! slot (hashFunction ty k) (sizemask h))"
  using assms ht_ok_slot [OF assms, of "hashFunction ty k"]
  by (fastforce simp: ht_ok_def in_set_conv_nth [of _ "table h"])

lemma length_concat_update:
  "i < length t \<Longrightarrow> length (concat (t[i := b])) + length (t ! i) = length (concat t) + length b"
  using arg_cong [OF mset_concat_update [of i t b], of size] by simp

lemma ht_ok_update:
  assumes "ht_ok ty h" "i < length (table h)"
    and "\<forall>e \<in> set b. slot (hashFunction ty (fst e)) (sizemask h) = i"
    and "n + length (table h ! i) = used h + length b"
  shows "ht_ok ty (h\<lparr>table := (table h)[i := b], used := n\<rparr>)"
  using assms length_concat_update [OF assms(2), of b]
  by (auto simp: ht_ok_def nth_list_update)

lemma ht_push_ok:
  assumes "ht_ok ty h"
  shows "\<exists>h'. ht_push h (slot (hashFunction ty (fst e)) (sizemask h)) e = Some h' \<and> ht_ok ty h' \<and>
     mset (concat (table h')) = add_mset e (mset (concat (table h))) \<and>
     sizemask h' = sizemask h \<and> htsize h' = htsize h \<and>
     table h' ! slot (hashFunction ty (fst e)) (sizemask h) =
       e # table h ! slot (hashFunction ty (fst e)) (sizemask h)"
proof -
  let ?i = "slot (hashFunction ty (fst e)) (sizemask h)"
  have i: "?i < length (table h)" by (rule ht_ok_slot [OF assms])
  then have "\<forall>x \<in> set (table h ! ?i). slot (hashFunction ty (fst x)) (sizemask h) = ?i"
    using assms by (simp add: ht_ok_def)
  then have "ht_ok ty (h\<lparr>table := (table h)[?i := e # table h ! ?i], used := used h + 1\<rparr>)"
    by (intro ht_ok_update [OF assms i]) auto
  moreover have "mset (concat ((table h)[?i := e # table h ! ?i])) = add_mset e (mset (concat (table h)))"
    using mset_concat_update [OF i, of "e # table h ! ?i"] by simp
  ultimately show ?thesis using i by (auto simp: ht_push_def bucket_def)
qed

lemma next_power_loop_spec:
  "i = 2 ^ a \<Longrightarrow> sz \<le> 2 ^ c \<Longrightarrow> a \<le> c \<Longrightarrow> \<exists>b \<ge> a. b \<le> c \<and> next_power_loop i sz = 2 ^ b \<and> sz \<le> 2 ^ b"
proof (induction i sz arbitrary: a rule: next_power_loop.induct)
  case (1 i sz)
  show ?case
  proof (cases "i \<ge> sz")
    case True
    then show ?thesis using 1(2,4) by (subst next_power_loop.simps) auto
  next
    case False
    then have "a < c" using 1(2,3,4) by (cases "a = c") auto
    with False 1(1) [of "Suc a"] 1(2,3) obtain b where
      "Suc a \<le> b" "b \<le> c" "next_power_loop (i * 2) sz = 2 ^ b" "sz \<le> 2 ^ b" by auto
    with False 1(2) show ?thesis by (subst next_power_loop.simps) (auto intro: exI [of _ b])
  qed
qed

lemma dictNextPower_spec:
  assumes "int sz < LONG_MAX"
  shows "\<exists>b \<le> 63. dictNextPower sz = 2 ^ b \<and> sz \<le> 2 ^ b"
  using next_power_loop_spec [of 4 2 sz 63] assms
  by (fastforce simp: dictNextPower_def DICT_HT_INITIAL_SIZE_def LONG_MAX_def)

lemma dictNextPower_pos: "0 < dictNextPower sz"
proof (cases "int sz < LONG_MAX")
  case True
  then show ?thesis using dictNextPower_spec by force
qed (simp add: dictNextPower_def LONG_MAX_def)

lemma ht_ok_fresh:
  "b \<le> 63 \<Longrightarrow> ht_ok ty \<lparr>table = replicate (2 ^ b) [], htsize = 2 ^ b, sizemask = 2 ^ b - 1, used = 0\<rparr>"
  by (auto simp: ht_ok_def)

lemma ht_ok_htsize: "ht_ok ty h \<Longrightarrow> 0 < htsize h \<and> table h \<noteq> []"
  by (auto simp: ht_ok_def)

lemma dictReset_simps [simp]:
  "table dictReset = []" "htsize dictReset = 0" "sizemask dictReset = 0" "used dictReset = 0"
  by (simp_all add: dictReset_def)

lemma dictCreate_wf: "\<forall>a b. keyCompare ty a b \<longleftrightarrow> a = b \<Longrightarrow> dict_wf (dictCreate ty)"
  by (simp add: dictCreate_def dict_wf_def elist_def dictIsRehashing_def)

lemma dictCreate_map: "dict_map (dictCreate ty) = Map.empty"
  by (simp add: dictCreate_def dict_map_def elist_def)

lemma dictExpand_wf:
  assumes wf: "dict_wf d" and sz: "int sz < LONG_MAX"
  shows "dict_wf (fst (dictExpand d sz)) \<and> same_entries d (fst (dictExpand d sz))"
proof (cases "dictIsRehashing d \<or> used (ht0 d) > sz")
  case True
  with wf show ?thesis by (simp add: dictExpand_def)
next
  case False
  from dictNextPower_spec [OF sz] obtain b where b: "b \<le> 63" "dictNextPower sz = 2 ^ b" by blast
  have r: "rehashidx d = - 1" "ht1 d = dictReset" using wf False by (auto simp: dict_wf_def dictIsRehashing_def)
  have ne: "table (ht0 d) \<noteq> [] \<Longrightarrow> ht_ok (dtype d) (ht0 d)"
    using wf False by (auto simp: dict_wf_def)
  show ?thesis using False r wf ne ht_ok_fresh [OF b(1), of "dtype d"]
    by (auto simp: dictExpand_def b(2) dict_wf_def dictIsRehashing_def elist_def same_entries_def Let_def)
qed

section \<open>Rehashing keeps the entries\<close>

lemma skip_empty_spec:
  "skip_empty t i = Some j \<Longrightarrow> i \<le> j \<and> j < length t \<and> t ! j \<noteq> [] \<and> (\<forall>k. i \<le> k \<and> k < j \<longrightarrow> t ! k = [])"
proof (induction t i rule: skip_empty.induct)
  case (1 t i)
  show ?case
  proof (cases "i < length t \<and> t ! i = []")
    case True
    then have "skip_empty t (i + 1) = Some j" using 1(2) by (subst (asm) skip_empty.simps) simp
    with 1(1) True have j: "i + 1 \<le> j" "j < length t" "t ! j \<noteq> []"
        "\<forall>k. i + 1 \<le> k \<and> k < j \<longrightarrow> t ! k = []" by auto
    have "t ! k = []" if "i \<le> k" "k < j" for k
      using j(4) True that by (cases "k = i") auto
    with j show ?thesis by auto
  next
    case False
    then show ?thesis using 1(2) by (subst (asm) skip_empty.simps) (auto split: if_splits)
  qed
qed

lemma skip_empty_some:
  assumes "k < length t" "t ! k \<noteq> []" "i \<le> k"
  shows "\<exists>j. skip_empty t i = Some j"
  using assms
proof (induction t i rule: skip_empty.induct)
  case (1 t i)
  then show ?case
    by (subst skip_empty.simps) (auto simp: le_less dest: Suc_leI)
qed

lemma move_bucket_ok:
  assumes "ht_ok (dtype d) (ht1 d)"
  shows "\<exists>h. move_bucket d de = Some (d\<lparr>ht0 := (ht0 d)\<lparr>used := used (ht0 d) - length de\<rparr>, ht1 := h\<rparr>) \<and>
     ht_ok (dtype d) h \<and> mset (concat (table h)) = mset de + mset (concat (table (ht1 d))) \<and>
     htsize h = htsize (ht1 d)"
  using assms
proof (induction de arbitrary: d)
  case Nil
  then show ?case by (intro exI [of _ "ht1 d"]) simp
next
  case (Cons e de)
  from ht_push_ok [OF Cons.prems, of e] obtain h where h:
    "ht_push (ht1 d) (slot (dictHashKey d (fst e)) (sizemask (ht1 d))) e = Some h" "ht_ok (dtype d) h"
    "mset (concat (table h)) = add_mset e (mset (concat (table (ht1 d))))" "htsize h = htsize (ht1 d)"
    unfolding dictHashKey_def by blast
  let ?d = "d\<lparr>ht0 := (ht0 d)\<lparr>used := used (ht0 d) - 1\<rparr>, ht1 := h\<rparr>"
  from Cons.IH [of ?d] h obtain h' where
    "move_bucket ?d de = Some (?d\<lparr>ht0 := (ht0 ?d)\<lparr>used := used (ht0 ?d) - length de\<rparr>, ht1 := h'\<rparr>)"
    "ht_ok (dtype d) h'" "mset (concat (table h')) = mset de + mset (concat (table h))" "htsize h' = htsize h"
    by auto
  with h show ?case by (intro exI [of _ h']) simp
qed

text \<open>What a well-formed dictionary is while it rehashes.\<close>

lemma wf_rehashing:
  assumes "dict_wf d" "dictIsRehashing d"
  shows "ht_ok (dtype d) (ht0 d)" "ht_ok (dtype d) (ht1 d)" "0 \<le> rehashidx d"
    "\<And>i. i < nat (rehashidx d) \<Longrightarrow> i < htsize (ht0 d) \<Longrightarrow> table (ht0 d) ! i = []"
    "distinct (map fst (elist d))"
  using assms by (auto simp: dict_wf_def)

lemma rehash_one:
  assumes wf: "dict_wf d" and re: "dictIsRehashing d" and u: "used (ht0 d) \<noteq> 0"
  shows "\<exists>d'. dictRehash_loop (Suc n) d = dictRehash_loop n d' \<and> dict_wf d' \<and> dictIsRehashing d' \<and>
     same_entries d d' \<and> rehashidx d < rehashidx d' \<and> htsize (ht0 d') = htsize (ht0 d) \<and>
     rehashidx d < int (htsize (ht0 d)) \<and> htsize (ht1 d') = htsize (ht1 d)"
proof -
  note w = wf_rehashing [OF wf re]
  let ?t = "table (ht0 d)"
  have l: "length ?t = htsize (ht0 d)" "used (ht0 d) = length (concat ?t)" using w(1) by (auto simp: ht_ok_def)
  have "concat ?t \<noteq> []" using u l(2) by auto
  then obtain b where "b \<in> set ?t" "b \<noteq> []" by auto
  then obtain k where k: "k < length ?t" "?t ! k \<noteq> []" by (metis in_set_conv_nth)
  then have ge: "nat (rehashidx d) \<le> k" using w(4) [of k] l(1) by (metis not_le)
  have idx: "rehashidx d < int (htsize (ht0 d))" using ge k(1) l(1) w(3) by linarith
  obtain i where sk: "skip_empty ?t (nat (rehashidx d)) = Some i"
    using skip_empty_some [OF k ge] by blast
  note i = skip_empty_spec [OF sk]
  from move_bucket_ok [OF w(2), of "?t ! i"] obtain h where h:
    "move_bucket d (?t ! i) = Some (d\<lparr>ht0 := (ht0 d)\<lparr>used := used (ht0 d) - length (?t ! i)\<rparr>, ht1 := h\<rparr>)"
    "ht_ok (dtype d) h" "mset (concat (table h)) = mset (?t ! i) + mset (concat (table (ht1 d)))"
    "htsize h = htsize (ht1 d)"
    by blast
  define d' where "d' = d\<lparr>ht1 := h,
      ht0 := (ht0 d)\<lparr>used := used (ht0 d) - length (?t ! i), table := ?t[i := []]\<rparr>, rehashidx := int i + 1\<rparr>"
  have e: "mset (concat (?t[i := []])) + mset (?t ! i) = mset (concat ?t)"
    using mset_concat_update [of i ?t "[]"] i by simp
  have "length (?t ! i) \<le> used (ht0 d)" using arg_cong [OF e, of size] l(2) by simp
  then have ok0: "ht_ok (dtype d) (ht0 d')"
    using ht_ok_update [OF w(1), of i "[]" "used (ht0 d) - length (?t ! i)"] i by (simp add: d'_def ht_ok_def)
  have se: "same_entries d d'"
    using e h(3) by (simp add: same_entries_def elist_def d'_def add.assoc [symmetric])
  have empty: "?t[i := []] ! k = []" if "k < i + 1" "k < length ?t" for k
    using that i w(4) [of k] l(1) by (cases "k = i"; cases "k < nat (rehashidx d)") auto
  have "i < htsize (ht0 d)" using i l(1) by simp
  then have "dict_wf d'"
    using wf ok0 h(2) empty l(1) same_entries_map [OF se w(5)]
    by (auto simp: dict_wf_def d'_def dictIsRehashing_def nat_add_distrib)
  moreover have "dictRehash_loop (Suc n) d = dictRehash_loop n d'"
    using u idx sk h(1) i by (simp add: bucket_def d'_def)
  moreover have "rehashidx d < rehashidx d'" using i w(3) by (auto simp: d'_def)
  moreover have "dictIsRehashing d'" "htsize (ht0 d') = htsize (ht0 d)" "htsize (ht1 d') = htsize (ht1 d)"
    using h(4) by (auto simp: d'_def dictIsRehashing_def)
  ultimately show ?thesis using se idx by blast
qed

lemma rehash_finish:
  assumes wf: "dict_wf d" and re: "dictIsRehashing d" and u: "used (ht0 d) = 0"
  shows "\<exists>d'. dictRehash_loop (Suc n) d = Some (d', False) \<and> dict_wf d' \<and> \<not> dictIsRehashing d' \<and> same_entries d d'"
proof -
  note w = wf_rehashing [OF wf re]
  have "concat (table (ht0 d)) = []" using u w(1) by (auto simp: ht_ok_def)
  then have "elist (d\<lparr>ht0 := ht1 d, ht1 := dictReset, rehashidx := - 1\<rparr>) = elist d"
    by (simp add: elist_def)
  with u w(2,5) wf show ?thesis
    by (auto simp: dict_wf_def dictIsRehashing_def same_entries_def)
qed

lemma dictRehash_loop_ok:
  "dict_wf d \<Longrightarrow> dictIsRehashing d \<Longrightarrow> \<exists>d' r. dictRehash_loop n d = Some (d', r) \<and> dict_wf d' \<and>
     same_entries d d' \<and> dictIsRehashing d' = r"
proof (induction n arbitrary: d)
  case (Suc n)
  show ?case
  proof (cases "used (ht0 d) = 0")
    case True
    with rehash_finish [OF Suc.prems True, of n] show ?thesis by blast
  next
    case False
    with rehash_one [OF Suc.prems False, of n] Suc.IH show ?thesis by (metis same_entries_trans)
  qed
qed simp

lemma dictRehash_loop_done:
  "dict_wf d \<Longrightarrow> dictIsRehashing d \<Longrightarrow> int (htsize (ht0 d)) < rehashidx d + int n \<Longrightarrow>
   \<exists>d'. dictRehash_loop n d = Some (d', False)"
proof (induction n arbitrary: d)
  case 0
  then show ?case by (simp add: dict_wf_def)
next
  case (Suc n)
  show ?case
  proof (cases "used (ht0 d) = 0")
    case True
    with rehash_finish [OF Suc.prems(1,2) True, of n] show ?thesis by blast
  next
    case False
    with rehash_one [OF Suc.prems(1,2) False, of n] Suc.IH Suc.prems(3) show ?thesis by fastforce
  qed
qed

section \<open>Searching\<close>

lemma rehash_step_ok:
  assumes "dict_wf d"
  shows "\<exists>d'. rehash_step_if d = Some d' \<and> dict_wf d' \<and> same_entries d d'"
proof (cases "dictIsRehashing d \<and> iterators d = 0")
  case True
  then show ?thesis using dictRehash_loop_ok [OF assms, of 1]
    by (fastforce simp: rehash_step_if_def dictRehashStep_def dictRehash_def)
next
  case False
  with assms show ?thesis by (auto simp: rehash_step_if_def dictRehashStep_def)
qed

lemma wf_htsize: "dict_wf d \<Longrightarrow> htsize (ht0 d) = 0 \<longleftrightarrow> \<not> dictIsRehashing d \<and> ht0 d = dictReset"
  by (auto simp: dict_wf_def split: if_splits dest: ht_ok_htsize)

lemma wf_ht0: "dict_wf d \<Longrightarrow> htsize (ht0 d) \<noteq> 0 \<Longrightarrow> ht_ok (dtype d) (ht0 d)"
  by (auto simp: dict_wf_def split: if_splits)

lemma wf_reset_elist: "dict_wf d \<Longrightarrow> htsize (ht0 d) = 0 \<Longrightarrow> elist d = []"
  by (simp add: wf_htsize elist_def) (simp add: dict_wf_def)

lemma rehash_step_htsize:
  assumes "dict_wf d" "rehash_step_if d = Some d'" "htsize (ht0 d) \<noteq> 0"
  shows "htsize (ht0 d') \<noteq> 0"
proof (cases "dictIsRehashing d \<and> iterators d = 0")
  case True
  note w = wf_rehashing [OF assms(1)]
  have h1: "0 < htsize (ht1 d)" using w(2) True ht_ok_htsize by blast
  show ?thesis
  proof (cases "used (ht0 d) = 0")
    case u: True
    have "d' = d\<lparr>ht0 := ht1 d, ht1 := dictReset, rehashidx := - 1\<rparr>"
      using assms(2) True u by (simp add: rehash_step_if_def dictRehashStep_def dictRehash_def)
    with h1 show ?thesis by simp
  next
    case False
    with rehash_one [OF assms(1) _ False, of 0] True assms show ?thesis
      by (fastforce simp: rehash_step_if_def dictRehashStep_def dictRehash_def)
  qed
next
  case False
  with assms show ?thesis by (auto simp: rehash_step_if_def dictRehashStep_def split: if_splits)
qed

lemma chain_find_spec:
  "\<forall>a b. cmp a b \<longleftrightarrow> a = b \<Longrightarrow>
   (case chain_find cmp key es of
      None \<Rightarrow> key \<notin> fst ` set es
    | Some p \<Rightarrow> p < length es \<and> fst (es ! p) = key)"
  by (induction es) (auto split: option.splits)

definition ref_ht :: "('k, 'v) dict \<Rightarrow> entry_ref \<Rightarrow> ('k, 'v) dictht" where
  "ref_ht d r = (if fst r = 0 then ht0 d else ht1 d)"

definition ref_ok :: "('k, 'v) dict \<Rightarrow> 'k \<Rightarrow> entry_ref \<Rightarrow> bool" where
  "ref_ok d key r \<longleftrightarrow> (case r of (t, i, p) \<Rightarrow>
     i < length (table (ref_ht d r)) \<and> p < length (table (ref_ht d r) ! i) \<and>
     fst (table (ref_ht d r) ! i ! p) = key \<and> (fst r = 0 \<or> dictIsRehashing d) \<and>
     ht_ok (dtype d) (ref_ht d r))"

lemma nth_in_concat: "i < length t \<Longrightarrow> p < length (t ! i) \<Longrightarrow> t ! i ! p \<in> set (concat t)"
  by (auto intro!: bexI [OF _ nth_mem])

lemma ref_ok_entry:
  assumes "ref_ok d key r"
  shows "(key, entry_val d r) \<in> set (elist d)"
proof -
  obtain t i p where r: "r = (t, i, p)" by (cases r)
  let ?h = "ref_ht d r"
  have "table ?h ! i ! p \<in> set (concat (table ?h))" "fst (table ?h ! i ! p) = key"
    using assms r by (auto simp: ref_ok_def intro!: nth_in_concat [simplified])
  moreover have "snd (table ?h ! i ! p) = entry_val d r" by (simp add: entry_val_def r ref_ht_def)
  moreover have "set (concat (table ?h)) \<subseteq> set (elist d)" by (auto simp: elist_def ref_ht_def)
  ultimately show ?thesis by (metis prod.collapse subsetD)
qed

lemma dict_search_spec:
  assumes wf: "dict_wf d" and sz: "htsize (ht0 d) \<noteq> 0"
  shows "\<exists>r. dict_search d key = Some r \<and>
    (case r of None \<Rightarrow> key \<notin> fst ` set (elist d) | Some r \<Rightarrow> ref_ok d key r)"
proof -
  let ?i0 = "slot (dictHashKey d key) (sizemask (ht0 d))" and ?i1 = "slot (dictHashKey d key) (sizemask (ht1 d))"
  have cmp: "\<forall>a b. keyCompare (dtype d) a b \<longleftrightarrow> a = b" using wf by (simp add: dict_wf_def)
  note cf = chain_find_spec [OF cmp, of key]
  have ok0: "ht_ok (dtype d) (ht0 d)" by (rule wf_ht0 [OF wf sz])
  have b0: "bucket (ht0 d) ?i0 = Some (table (ht0 d) ! ?i0)" "?i0 < length (table (ht0 d))"
    using ht_ok_bucket [OF ok0] ht_ok_slot [OF ok0] by auto
  have n0: "key \<notin> fst ` set (concat (table (ht0 d))) \<longleftrightarrow> key \<notin> fst ` set (table (ht0 d) ! ?i0)"
    using ht_ok_in [OF ok0, of key] by (force simp: dictHashKey_def)
  show ?thesis
  proof (cases "chain_find (keyCompare (dtype d)) key (table (ht0 d) ! ?i0)")
    case (Some p)
    then show ?thesis using cf [of "table (ht0 d) ! ?i0"] b0 ok0
      by (auto simp: dict_search_def Let_def ref_ok_def ref_ht_def)
  next
    case None
    note c0 = this cf [of "table (ht0 d) ! ?i0"]
    show ?thesis
    proof (cases "dictIsRehashing d")
      case False
      then have "ht1 d = dictReset" using wf by (simp add: dict_wf_def)
      with False c0 b0 n0 show ?thesis by (auto simp: dict_search_def Let_def elist_def)
    next
      case True
      have ok1: "ht_ok (dtype d) (ht1 d)" using wf_rehashing [OF wf True] by blast
      have b1: "bucket (ht1 d) ?i1 = Some (table (ht1 d) ! ?i1)" "?i1 < length (table (ht1 d))"
        using ht_ok_bucket [OF ok1] ht_ok_slot [OF ok1] by auto
      have n1: "key \<notin> fst ` set (concat (table (ht1 d))) \<longleftrightarrow> key \<notin> fst ` set (table (ht1 d) ! ?i1)"
        using ht_ok_in [OF ok1, of key] by (force simp: dictHashKey_def)
      show ?thesis
        using cf [of "table (ht1 d) ! ?i1"] c0 b0 b1 n0 n1 True ok1
        by (auto simp: dict_search_def Let_def elist_def ref_ok_def ref_ht_def image_Un split: option.splits)
    qed
  qed
qed

section \<open>Operations on the map\<close>

lemma dictFind_ok:
  assumes wf: "dict_wf d"
  shows "\<exists>d' r. dictFind d key = Some (d', r) \<and> dict_wf d' \<and> same_entries d d' \<and>
    (case r of None \<Rightarrow> dict_map d key = None
     | Some r \<Rightarrow> ref_ok d' key r \<and> dict_map d key = Some (entry_val d' r))"
proof (cases "htsize (ht0 d) = 0")
  case True
  then show ?thesis using wf wf_reset_elist by (force simp: dictFind_def dict_map_def)
next
  case False
  from rehash_step_ok [OF wf] obtain d' where d': "rehash_step_if d = Some d'" "dict_wf d'" "same_entries d d'"
    by blast
  from dict_search_spec [OF d'(2) rehash_step_htsize [OF wf d'(1) False], of key] obtain r where r:
    "dict_search d' key = Some r"
    "case r of None \<Rightarrow> key \<notin> fst ` set (elist d') | Some r \<Rightarrow> ref_ok d' key r" by blast
  have di: "distinct (map fst (elist d'))" using d'(2) by (simp add: dict_wf_def)
  have m: "dict_map d' = dict_map d" using same_entries_map [OF d'(3)] wf by (simp add: dict_wf_def)
  have k: "dict_map d key = map_of (elist d') key" using fun_cong [OF m, of key] by (simp add: dict_map_def)
  have "case r of None \<Rightarrow> dict_map d key = None
     | Some r \<Rightarrow> ref_ok d' key r \<and> dict_map d key = Some (entry_val d' r)"
    using r(2) di unfolding k by (cases r) (auto simp: map_of_eq_None_iff dest: ref_ok_entry)
  with d' r(1) False show ?thesis by (auto simp: dictFind_def)
qed

lemma dictFetchValue_ok:
  assumes "dict_wf d"
  shows "\<exists>d'. dictFetchValue d key = Some (d', dict_map d key) \<and> dict_wf d' \<and> same_entries d d'"
  using dictFind_ok [OF assms, of key]
  by (fastforce simp: dictFetchValue_def split: option.splits)

definition set_ht :: "('k, 'v) dict \<Rightarrow> entry_ref \<Rightarrow> ('k, 'v) dictht \<Rightarrow> ('k, 'v) dict" where
  "set_ht d r h = (if fst r = 0 then d\<lparr>ht0 := h\<rparr> else d\<lparr>ht1 := h\<rparr>)"

lemma set_ht_elist:
  "mset (elist (set_ht d r h)) + mset (concat (table (ref_ht d r))) = mset (elist d) + mset (concat (table h))"
  by (simp add: set_ht_def elist_def ref_ht_def)

lemma set_ht_wf:
  assumes wf: "dict_wf d" and r: "fst r = 0 \<and> htsize (ht0 d) \<noteq> 0 \<or> dictIsRehashing d" "ht_ok (dtype d) h"
    and "htsize h = htsize (ref_ht d r)"
    and "\<And>j. j < htsize h \<Longrightarrow> fst r = 0 \<Longrightarrow> dictIsRehashing d \<Longrightarrow> table (ref_ht d r) ! j = [] \<Longrightarrow> table h ! j = []"
    and "distinct (map fst (elist (set_ht d r h)))"
  shows "dict_wf (set_ht d r h)"
  using assms
  by (cases "fst r = 0"; cases "dictIsRehashing d")
    (simp_all add: dict_wf_def set_ht_def ref_ht_def dictIsRehashing_def)

lemma map_of_replace:
  assumes "mset xs = add_mset (k, u) M" "mset ys = add_mset (k, v) M" "distinct (map fst xs)"
  shows "distinct (map fst ys) \<and> map_of ys = (map_of xs)(k \<mapsto> v)"
proof -
  obtain zs where z: "M = mset zs" by (metis ex_mset)
  have x: "mset xs = mset ((k, u) # zs)" and y: "mset ((k, v) # zs) = mset ys" using assms z by auto
  have "distinct (map fst ((k, v) # zs))"
    using distinct_fst_mset [OF x] assms(3) by auto
  then show ?thesis
    using map_of_mset [OF _ y] map_of_mset [OF assms(3) x] distinct_fst_mset [OF y] by auto
qed

lemma map_of_insert:
  assumes "mset ys = add_mset (k, v) (mset xs)" "distinct (map fst xs)" "k \<notin> fst ` set xs"
  shows "distinct (map fst ys) \<and> map_of ys = (map_of xs)(k \<mapsto> v)"
proof -
  have y: "mset ((k, v) # xs) = mset ys" using assms by simp
  have "distinct (map fst ((k, v) # xs))" using assms by auto
  then show ?thesis using map_of_mset [OF _ y] distinct_fst_mset [OF y] by auto
qed

lemma map_of_remove:
  assumes "mset xs = add_mset (k, u) (mset ys)" "distinct (map fst xs)"
  shows "distinct (map fst ys) \<and> map_of ys = (map_of xs)(k := None)"
proof -
  have x: "mset xs = mset ((k, u) # ys)" using assms by simp
  have d: "distinct (map fst ((k, u) # ys))" using distinct_fst_mset [OF x] assms(2) by blast
  then have "map_of ys k = None" by (simp add: map_of_eq_None_iff)
  then show ?thesis using map_of_mset [OF assms(2) x] d by auto
qed

lemma mset_swap:
  assumes "X + P = C + B" "B + U = P + (V :: 'a multiset)"
  shows "X + U = C + V"
proof -
  have "X + U + P = (X + P) + U" by (simp add: ac_simps)
  also have "\<dots> = C + (B + U)" by (simp add: assms(1) add.assoc)
  also have "\<dots> = C + V + P" by (simp add: assms(2) ac_simps)
  finally show ?thesis by simp
qed

lemma dictSetVal_ok:
  assumes wf: "dict_wf d" and r: "ref_ok d key r"
  shows "dict_wf (dictSetVal d r v) \<and> dict_map (dictSetVal d r v) = (dict_map d)(key \<mapsto> v)"
proof -
  obtain t i p where rr: "r = (t, i, p)" by (cases r)
  let ?h = "ref_ht d r"
  have i: "i < length (table ?h)" "p < length (table ?h ! i)" "fst (table ?h ! i ! p) = key"
    "t = 0 \<or> dictIsRehashing d" "ht_ok (dtype d) ?h"
    using r by (auto simp: ref_ok_def rr)
  let ?b = "(table ?h ! i)[p := (key, v)]"
  have e: "dictSetVal d r v = set_ht d r (?h\<lparr>table := (table ?h)[i := ?b]\<rparr>)"
    using i(3) by (cases "t = 0") (auto simp: dictSetVal_def rr set_ht_def ht_set_val_def ref_ht_def)
  have ok: "ht_ok (dtype d) (?h\<lparr>table := (table ?h)[i := ?b], used := used ?h\<rparr>)"
  proof (rule ht_ok_update [OF i(5) i(1)])
    have "\<forall>e \<in> set (table ?h ! i). slot (hashFunction (dtype d) (fst e)) (sizemask ?h) = i"
      using i by (simp add: ht_ok_def)
    moreover have "set ?b \<subseteq> insert (key, v) (set (table ?h ! i))" by (rule set_update_subset_insert)
    moreover have "key = fst (table ?h ! i ! p)" "table ?h ! i ! p \<in> set (table ?h ! i)" using i by auto
    ultimately show "\<forall>e \<in> set ?b. slot (hashFunction (dtype d) (fst e)) (sizemask ?h) = i" by fastforce
  qed simp
  let ?u = "entry_val d r"
  have "table ?h ! i ! p = (key, ?u)"
    using i(3) by (simp add: entry_val_def rr ref_ht_def prod_eq_iff)
  moreover from this have "(key, ?u) \<in> set (table ?h ! i)" using i(2) nth_mem by fastforce
  ultimately have "mset ?b + {#(key, ?u)#} = mset (table ?h ! i) + {#(key, v)#}"
    using i(2) by (simp add: mset_update)
  then have "mset (concat ((table ?h)[i := ?b])) + {#(key, ?u)#} = mset (concat (table ?h)) + {#(key, v)#}"
    by (rule mset_swap [OF mset_concat_update [OF i(1), of ?b]])
  then have "mset (elist (dictSetVal d r v)) + {#(key, ?u)#} = mset (elist d) + {#(key, v)#}"
    unfolding e by (intro mset_swap [OF set_ht_elist]) simp
  moreover have "(key, ?u) \<in># mset (elist d)" using ref_ok_entry [OF r] by simp
  then obtain M where M: "mset (elist d) = add_mset (key, ?u) M" by (metis mset_add)
  ultimately have "mset (elist (dictSetVal d r v)) = add_mset (key, v) M" by simp
  from map_of_replace [OF M this] wf have m: "distinct (map fst (elist (dictSetVal d r v)))"
    "map_of (elist (dictSetVal d r v)) = (map_of (elist d))(key \<mapsto> v)" by (auto simp: dict_wf_def)
  have "dict_wf (dictSetVal d r v)"
    unfolding e
  proof (rule set_ht_wf [OF wf])
    show "fst r = 0 \<and> htsize (ht0 d) \<noteq> 0 \<or> dictIsRehashing d"
      using i(4,5) ht_ok_htsize [OF i(5)] by (auto simp: rr ref_ht_def)
    show "ht_ok (dtype d) (?h\<lparr>table := (table ?h)[i := ?b]\<rparr>)" using ok by simp
    show "distinct (map fst (elist (set_ht d r (?h\<lparr>table := (table ?h)[i := ?b]\<rparr>))))"
      using m(1) unfolding e .
  qed (use i in \<open>auto simp: nth_list_update\<close>)
  with m(2) show ?thesis by (simp add: dict_map_def)
qed

lemma ht_unlink_ok:
  assumes ok: "ht_ok ty h" and i: "i < length (table h)" "p < length (table h ! i)"
  shows "ht_ok ty (ht_unlink h i p) \<and> htsize (ht_unlink h i p) = htsize h \<and>
     mset (concat (table (ht_unlink h i p))) + {#table h ! i ! p#} = mset (concat (table h)) \<and>
     (\<forall>j < htsize h. table h ! j = [] \<longrightarrow> table (ht_unlink h i p) ! j = [])"
proof -
  let ?b = "take p (table h ! i) @ drop (p + 1) (table h ! i)"
  have "table h ! i = take p (table h ! i) @ table h ! i ! p # drop (Suc p) (table h ! i)"
    using i(2) by (rule id_take_nth_drop)
  then have b: "mset ?b + {#table h ! i ! p#} = mset (table h ! i)"
    by (metis Suc_eq_plus1 add_mset_add_single mset.simps(2) mset_append union_mset_add_mset_right)
  have sub: "set ?b \<subseteq> set (table h ! i)" using set_take_subset set_drop_subset by fastforce
  have u: "used h - 1 + length (table h ! i) = used h + length ?b"
  proof -
    have "0 < length (concat (table h))"
      using nth_in_concat [OF i] by (rule length_pos_if_in_set)
    then have "0 < used h" using ok by (simp only: ht_ok_def)
    moreover have "length ?b + 1 = length (table h ! i)" using arg_cong [OF b, of size] by simp
    ultimately show ?thesis by linarith
  qed
  have "ht_ok ty (h\<lparr>table := (table h)[i := ?b], used := used h - 1\<rparr>)"
  proof (rule ht_ok_update [OF ok i(1) _ u])
    show "\<forall>e \<in> set ?b. slot (hashFunction ty (fst e)) (sizemask h) = i"
      using ok i(1) sub by (simp add: ht_ok_def) blast
  qed
  moreover have "mset (concat ((table h)[i := ?b])) + {#table h ! i ! p#} = mset (concat (table h))"
    using mset_swap [OF mset_concat_update [OF i(1), of ?b], of "{#table h ! i ! p#}" "{#}"] b by simp
  moreover have "table h ! j = [] \<longrightarrow> (table h)[i := ?b] ! j = []" for j
    using i by (cases "i = j") auto
  ultimately show ?thesis by (simp add: ht_unlink_def)
qed

lemma dictGenericDelete_ok:
  assumes wf: "dict_wf d"
  shows "\<exists>d'. dictGenericDelete d key = Some (d', dict_map d key \<noteq> None) \<and> dict_wf d' \<and>
    dict_map d' = (dict_map d)(key := None)"
proof (cases "htsize (ht0 d) = 0")
  case True
  then have "dict_map d = Map.empty" using wf_reset_elist [OF wf] by (simp add: dict_map_def)
  then show ?thesis using wf True by (auto simp: dictGenericDelete_def)
next
  case False
  from dictFind_ok [OF wf, of key] False obtain d1 d' r where
    d1: "rehash_step_if d = Some d1" and f: "dict_search d1 key = Some r" "dict_wf d1" "same_entries d d1"
    "case r of None \<Rightarrow> dict_map d key = None
     | Some r \<Rightarrow> ref_ok d1 key r \<and> dict_map d key = Some (entry_val d1 r)"
    by (auto simp: dictFind_def split: Option.bind_splits)
  have m: "dict_map d1 = dict_map d" and di: "distinct (map fst (elist d1))"
    using same_entries_map [OF f(3)] wf by (auto simp: dict_wf_def)
  show ?thesis
  proof (cases r)
    case None
    then show ?thesis using False d1 f m by (auto simp: dictGenericDelete_def)
  next
    case (Some q)
    obtain t i p where q: "q = (t, i, p)" by (cases q)
    let ?h = "ref_ht d1 q"
    have i: "i < length (table ?h)" "p < length (table ?h ! i)" "fst (table ?h ! i ! p) = key"
      "t = 0 \<or> dictIsRehashing d1" "ht_ok (dtype d1) ?h"
      using f(4) Some by (auto simp: ref_ok_def q)
    note ok = ht_unlink_ok [OF i(5,1,2)]
    define d' where "d' = set_ht d1 q (ht_unlink ?h i p)"
    have "mset (elist d') + {#table ?h ! i ! p#} = mset (elist d1)"
      using mset_swap [OF set_ht_elist [of d1 q "ht_unlink ?h i p"], of "{#table ?h ! i ! p#}" "{#}"] ok
      by (simp add: d'_def)
    moreover have "table ?h ! i ! p = (key, entry_val d1 q)"
      using i(3) by (simp add: entry_val_def q ref_ht_def prod_eq_iff)
    ultimately have "mset (elist d1) = add_mset (key, entry_val d1 q) (mset (elist d'))" by simp
    from map_of_remove [OF this di] have r: "distinct (map fst (elist d'))"
      "dict_map d' = (dict_map d)(key := None)" unfolding m [symmetric] by (auto simp: dict_map_def)
    have "dict_wf d'"
      unfolding d'_def
    proof (rule set_ht_wf [OF f(2)])
      show "fst q = 0 \<and> htsize (ht0 d1) \<noteq> 0 \<or> dictIsRehashing d1"
        using i(4,5) ht_ok_htsize [OF i(5)] by (auto simp: q ref_ht_def)
      show "distinct (map fst (elist (set_ht d1 q (ht_unlink ?h i p))))" using r(1) unfolding d'_def .
    qed (use ok in auto)
    moreover have "dictGenericDelete d key = Some (d', True)"
      using False d1 f(1) Some by (auto simp: dictGenericDelete_def q d'_def set_ht_def ref_ht_def)
    ultimately show ?thesis using r(2) f(4) Some by auto
  qed
qed

lemma dictExpandIfNeeded_ok:
  assumes wf: "dict_wf d" and cap: "length (elist d) < 2 ^ 62"
  shows "\<exists>d'. dictExpandIfNeeded cr d = (d', True) \<and> dict_wf d' \<and> same_entries d d' \<and> htsize (ht0 d') \<noteq> 0"
proof -
  have u: "used (ht0 d) \<le> length (elist d)"
    using wf_ht0 [OF wf] wf_htsize [OF wf] by (cases "htsize (ht0 d) = 0") (auto simp: ht_ok_def elist_def)
  then have s: "int (used (ht0 d) * 2) < LONG_MAX" "int DICT_HT_INITIAL_SIZE < LONG_MAX"
    using cap by (auto simp: LONG_MAX_def DICT_HT_INITIAL_SIZE_def)
  consider "dictIsRehashing d" | "\<not> dictIsRehashing d" "htsize (ht0 d) = 0" | "\<not> dictIsRehashing d" "htsize (ht0 d) \<noteq> 0" by blast
  then show ?thesis
  proof cases
    case 1
    with wf show ?thesis using wf_htsize [OF wf] by (auto simp: dictExpandIfNeeded_def)
  next
    case 2
    then have "ht0 d = dictReset" using wf_htsize [OF wf] by simp
    then show ?thesis
      using 2 dictExpand_wf [OF wf s(2)] dictNextPower_pos [of DICT_HT_INITIAL_SIZE]
      by (auto simp: dictExpandIfNeeded_def dictExpand_def Let_def)
  next
    case 3
    then have "table (ht0 d) \<noteq> []" using wf_ht0 [OF wf] ht_ok_htsize by blast
    then show ?thesis
      using 3 dictExpand_wf [OF wf s(1)] wf
      by (auto simp: dictExpandIfNeeded_def dictExpand_def Let_def)
  qed
qed

lemma wf_card: "dict_wf d \<Longrightarrow> card (dom (dict_map d)) = length (elist d)"
  by (simp add: dict_wf_def dict_map_def dom_map_of_conv_image_fst)
    (metis distinct_card length_map list.set_map)

lemma dictKeyIndex_ok:
  assumes wf: "dict_wf d" and cap: "length (elist d) < 2 ^ 62"
  shows "\<exists>d' r. dictKeyIndex cr d key = Some (d', r) \<and> dict_wf d' \<and> same_entries d d' \<and> htsize (ht0 d') \<noteq> 0 \<and>
    (case r of None \<Rightarrow> dict_map d key \<noteq> None
     | Some i \<Rightarrow> dict_map d key = None \<and>
         i = slot (dictHashKey d' key) (sizemask (if dictIsRehashing d' then ht1 d' else ht0 d')))"
proof -
  from dictExpandIfNeeded_ok [OF wf cap, of cr] obtain d' where d':
    "dictExpandIfNeeded cr d = (d', True)" "dict_wf d'" "same_entries d d'" "htsize (ht0 d') \<noteq> 0" by blast
  from dict_search_spec [OF d'(2,4), of key] obtain r where r: "dict_search d' key = Some r"
    "case r of None \<Rightarrow> key \<notin> fst ` set (elist d') | Some r \<Rightarrow> ref_ok d' key r" by blast
  have m: "dict_map d' = dict_map d" using same_entries_map [OF d'(3)] wf by (simp add: dict_wf_def)
  have k: "dict_map d key = map_of (elist d') key" using fun_cong [OF m, of key] by (simp add: dict_map_def)
  show ?thesis using d' r ref_ok_entry [of d' key]
    by (cases r) (auto simp: dictKeyIndex_def k map_of_eq_None_iff, metis fst_conv image_eqI)
qed

lemma dictAddRaw_ok:
  assumes wf: "dict_wf d" and cap: "length (elist d) < 2 ^ 62"
  shows "\<exists>d' r. dictAddRaw cr junk d key = Some (d', r) \<and> dict_wf d' \<and>
    (case r of None \<Rightarrow> dict_map d key \<noteq> None \<and> dict_map d' = dict_map d
     | Some r \<Rightarrow> dict_map d key = None \<and> dict_map d' = (dict_map d)(key \<mapsto> junk) \<and> ref_ok d' key r)"
proof -
  from rehash_step_ok [OF wf] obtain d1 where d1: "rehash_step_if d = Some d1" "dict_wf d1" "same_entries d d1"
    by blast
  have "length (elist d1) < 2 ^ 62" using d1(3) cap unfolding same_entries_def by (metis size_mset)
  from dictKeyIndex_ok [OF d1(2) this, of cr key] obtain d2 r where d2:
    "dictKeyIndex cr d1 key = Some (d2, r)" "dict_wf d2" "same_entries d1 d2" "htsize (ht0 d2) \<noteq> 0"
    "case r of None \<Rightarrow> dict_map d1 key \<noteq> None
     | Some i \<Rightarrow> dict_map d1 key = None \<and>
         i = slot (dictHashKey d2 key) (sizemask (if dictIsRehashing d2 then ht1 d2 else ht0 d2))" by blast
  have m1: "dict_map d1 = dict_map d" using same_entries_map [OF d1(3)] wf by (simp add: dict_wf_def)
  have m2: "dict_map d2 = dict_map d" "distinct (map fst (elist d2))"
    using same_entries_map [OF d2(3)] d1(2) m1 by (simp_all add: dict_wf_def)
  show ?thesis
  proof (cases r)
    case None
    then show ?thesis using d1 d2 m1 m2 by (auto simp: dictAddRaw_def)
  next
    case (Some i)
    define q :: entry_ref where "q = (if dictIsRehashing d2 then 1 else 0, i, 0)"
    let ?h = "ref_ht d2 q"
    have h: "?h = (if dictIsRehashing d2 then ht1 d2 else ht0 d2)" by (simp add: ref_ht_def q_def)
    have ok: "ht_ok (dtype d2) ?h"
      using wf_rehashing(2) [OF d2(2)] wf_ht0 [OF d2(2,4)] by (simp add: h)
    have i: "i = slot (hashFunction (dtype d2) (fst (key, junk))) (sizemask ?h)"
      using d2(5) Some by (simp add: dictHashKey_def h)
    from ht_push_ok [OF ok, of "(key, junk)"] obtain h' where h': "ht_push ?h i (key, junk) = Some h'"
      "ht_ok (dtype d2) h'" "mset (concat (table h')) = add_mset (key, junk) (mset (concat (table ?h)))"
      "htsize h' = htsize ?h" "table h' ! i = (key, junk) # table ?h ! i" unfolding i [symmetric] by blast
    define d' where "d' = set_ht d2 q h'"
    have "mset (elist d') = add_mset (key, junk) (mset (elist d2))"
      using set_ht_elist [of d2 q h'] by (simp add: d'_def h'(3))
    moreover have "key \<notin> fst ` set (elist d2)"
      using d2(5) Some m1 m2(1) by (simp add: dict_map_def map_of_eq_None_iff [symmetric])
    ultimately have r: "distinct (map fst (elist d'))" "dict_map d' = (dict_map d)(key \<mapsto> junk)"
      using map_of_insert [of "elist d'" key junk "elist d2"] m2 by (auto simp: dict_map_def)
    have "dict_wf d'"
      unfolding d'_def
      by (rule set_ht_wf [OF d2(2) _ h'(2,4)]) (use d2(4) r(1) in \<open>auto simp: q_def d'_def\<close>)
    moreover have "i < length (table h')"
      using ht_ok_slot [OF ok] h'(2,4) ok by (simp add: i ht_ok_def)
    then have "ref_ok d' key q"
      using h'(2,5) by (auto simp: ref_ok_def q_def d'_def set_ht_def ref_ht_def dictIsRehashing_def)
    moreover have "dictAddRaw cr junk d key = Some (d', Some q)"
      using d1(1) d2(1) Some h'(1)
      by (cases "dictIsRehashing d2") (simp_all add: dictAddRaw_def d'_def q_def set_ht_def ref_ht_def)
    ultimately show ?thesis using r(2) d2(5) Some m1 by auto
  qed
qed

lemma dictAdd_ok:
  assumes wf: "dict_wf d" and cap: "length (elist d) < 2 ^ 62"
  shows "\<exists>d'. dictAdd cr junk d key v = Some (d', dict_map d key = None) \<and> dict_wf d' \<and>
    dict_map d' = (if dict_map d key = None then (dict_map d)(key \<mapsto> v) else dict_map d)"
proof -
  from dictAddRaw_ok [OF assms, of cr junk key] obtain d' r where
    "dictAddRaw cr junk d key = Some (d', r)" "dict_wf d'"
    "case r of None \<Rightarrow> dict_map d key \<noteq> None \<and> dict_map d' = dict_map d
     | Some r \<Rightarrow> dict_map d key = None \<and> dict_map d' = (dict_map d)(key \<mapsto> junk) \<and> ref_ok d' key r" by blast
  then show ?thesis using dictSetVal_ok [of d' key _ v]
    by (cases r) (auto simp: dictAdd_def)
qed

lemma dictReplace_ok:
  assumes wf: "dict_wf d" and cap: "length (elist d) < 2 ^ 62"
  shows "\<exists>d'. dictReplace cr junk d key v = Some (d', dict_map d key = None) \<and> dict_wf d' \<and>
    dict_map d' = (dict_map d)(key \<mapsto> v)"
proof -
  from dictAdd_ok [OF assms, of cr junk key v] obtain d1 where d1:
    "dictAdd cr junk d key v = Some (d1, dict_map d key = None)" "dict_wf d1"
    "dict_map d1 = (if dict_map d key = None then (dict_map d)(key \<mapsto> v) else dict_map d)" by blast
  show ?thesis
  proof (cases "dict_map d key = None")
    case True
    with d1 show ?thesis by (auto simp: dictReplace_def)
  next
    case False
    from dictFind_ok [OF d1(2), of key] obtain d2 r where d2: "dictFind d1 key = Some (d2, r)" "dict_wf d2"
      "same_entries d1 d2"
      "case r of None \<Rightarrow> dict_map d1 key = None
       | Some r \<Rightarrow> ref_ok d2 key r \<and> dict_map d1 key = Some (entry_val d2 r)" by blast
    then obtain q where q: "r = Some q" "ref_ok d2 key q" using False d1(3) by (cases r) auto
    have "dict_map d2 = dict_map d"
      using same_entries_map [OF d2(3)] d1 False by (simp add: dict_wf_def)
    with dictSetVal_ok [OF d2(2) q(2), of v] d1 d2(1) q False show ?thesis
      by (auto simp: dictReplace_def)
  qed
qed

interpretation dictm: map_impl "dict_wf :: ('k, 'v) dict \<Rightarrow> bool" dict_map "2 ^ 62" dictFetchValue
  "dictAdd cr junk" "dictReplace cr junk" dictGenericDelete for cr junk
proof
  fix s :: "('k, 'v) dict" and k :: 'k and v :: 'v
  assume wf: "dict_wf s"
  show "\<exists>s'. dictFetchValue s k = Some (s', dict_map s k) \<and> dict_wf s' \<and> dict_map s' = dict_map s"
  proof -
    from dictFetchValue_ok [OF wf, of k] obtain s' where
      "dictFetchValue s k = Some (s', dict_map s k)" "dict_wf s'" "same_entries s s'" by blast
    moreover have "distinct (map fst (elist s))" using wf by (simp add: dict_wf_def)
    ultimately show ?thesis using same_entries_map by blast
  qed
  show "\<exists>s'. dictGenericDelete s k = Some (s', dict_map s k \<noteq> None) \<and> dict_wf s' \<and> dict_map s' = (dict_map s)(k := None)"
    by (rule dictGenericDelete_ok [OF wf])
  show "finite (dom (dict_map s))" by (simp add: dict_map_def finite_dom_map_of)
  assume "card (dom (dict_map s)) < 2 ^ 62"
  then have c: "length (elist s) < 2 ^ 62" by (simp add: wf_card [OF wf])
  show "\<exists>s'. dictAdd cr junk s k v = Some (s', dict_map s k = None) \<and> dict_wf s' \<and>
      dict_map s' = (if dict_map s k = None then (dict_map s)(k \<mapsto> v) else dict_map s)"
    by (rule dictAdd_ok [OF wf c])
  show "\<exists>s'. dictReplace cr junk s k v = Some (s', dict_map s k = None) \<and> dict_wf s' \<and>
      dict_map s' = (dict_map s)(k \<mapsto> v)"
    by (rule dictReplace_ok [OF wf c])
qed

section \<open>Properties\<close>



text \<open>C21: incremental rehashing ends: one more step than the old table has buckets completes it,
  and it keeps the map.\<close>
theorem dictRehash_completes:
  assumes "dict_wf d" and "dictIsRehashing d" and "htsize (ht0 d) < n"
  shows "\<exists>d'. dictRehash d n = Some (d', False) \<and> dict_wf d' \<and> \<not> dictIsRehashing d' \<and> dict_map d' = dict_map d"
proof -
  have "0 \<le> rehashidx d" using wf_rehashing [OF assms(1,2)] by blast
  with assms(3) have "int (htsize (ht0 d)) < rehashidx d + int n" by simp
  from dictRehash_loop_done [OF assms(1,2) this] obtain d' where "dictRehash_loop n d = Some (d', False)" ..
  with dictRehash_loop_ok [OF assms(1,2), of n] have
    "dictRehash d n = Some (d', False)" "dict_wf d'" "same_entries d d'" "\<not> dictIsRehashing d'"
    using assms(2) by (auto simp: dictRehash_def)
  moreover have "distinct (map fst (elist d))" using assms(1) by (simp add: dict_wf_def)
  ultimately show ?thesis using same_entries_map by blast
qed

lemma fresh_table_ok:
  "ht_ok ty \<lparr>table = [[], [], [], []], htsize = 4, sizemask = 3, used = 0\<rparr>"
  using ht_ok_fresh [of 2 ty] by (simp add: numeral_eq_Suc)

lemma dictRehash_completes_witness:
  "\<exists>d' :: (nat, nat) dict. dictRehash
      \<lparr>dtype = \<lparr>hashFunction = of_nat, keyCompare = (=)\<rparr>,
       ht0 = \<lparr>table = [[], [], [], []], htsize = 4, sizemask = 3, used = 0\<rparr>,
       ht1 = \<lparr>table = [[], [], [], []], htsize = 4, sizemask = 3, used = 0\<rparr>, rehashidx = 0, iterators = 0\<rparr> 5 =
     Some (d', False) \<and> dict_map d' = Map.empty"
proof -
  let ?d = "\<lparr>dtype = \<lparr>hashFunction = of_nat, keyCompare = (=)\<rparr>,
       ht0 = \<lparr>table = [[], [], [], []], htsize = 4, sizemask = 3, used = 0\<rparr>,
       ht1 = \<lparr>table = [[], [], [], []], htsize = 4, sizemask = 3, used = 0\<rparr>, rehashidx = 0, iterators = 0\<rparr>
     :: (nat, nat) dict"
  have "dict_wf ?d" by (simp add: dict_wf_def dictIsRehashing_def elist_def fresh_table_ok)
  from dictRehash_completes [OF this, of 5] show ?thesis
    by (auto simp: dictIsRehashing_def dict_map_def elist_def)
qed

end
