(* ===== verification/Dict_Scan.thy ===== *)
theory Dict_Scan
  imports Dict
begin

text \<open>
  \<^verbatim>\<open>dictScan\<close> of \<^verbatim>\<open>dict.c\<close>: the stateless iteration with a reversed binary cursor. The entries
  passed to the callback are collected in a list; the callback does not change the dictionary.
  The central lemma, \<open>dictScan_step\<close>, says which entries one call returns and how the reversed
  cursor advances; from it follows that a complete iteration returns every key present all along,
  also when the table is resized between the calls, as long as the cursor has no bits above the
  smaller mask when a call is made during a rehash. Without that condition the loop over the
  expansions of the cursor can skip buckets, which the last section shows on an example.
\<close>

section \<open>The code\<close>

text \<open>\<open>rev\<close> reverses the bits of an \<open>unsigned long\<close>: one round swaps neighbouring blocks of \<open>s\<close> bits.\<close>

definition rev_step :: "nat \<Rightarrow> 64 word \<Rightarrow> 64 word \<Rightarrow> 64 word" where
  "rev_step s m v = (drop_bit s v AND m) OR (push_bit s v AND NOT m)"
function rev_loop :: "nat \<Rightarrow> 64 word \<Rightarrow> 64 word \<Rightarrow> 64 word" where
  "rev_loop s m v =
     (let s = s div 2 in
      if s > 0 then let m = m XOR push_bit s m in rev_loop s m (rev_step s m v) else v)"
  by pat_completeness auto
termination by (relation "measure (\<lambda>(s, m, v). s)") auto
declare rev_loop.simps [simp del]
definition rev_ul :: "64 word \<Rightarrow> 64 word" where "rev_ul v = rev_loop 64 (NOT 0) v"

fun scan_loop ::
  "nat \<Rightarrow> ('k, 'v) dictht \<Rightarrow> 64 word \<Rightarrow> 64 word \<Rightarrow> 64 word \<Rightarrow> ('k, 'v) chain \<Rightarrow> (('k, 'v) chain \<times> 64 word) option" where
  "scan_loop 0 t1 m0 m1 v acc = None"
| "scan_loop (Suc n) t1 m0 m1 v acc = do {
     de \<leftarrow> bucket t1 (unat (v AND m1));
     let v = (((v OR m0) + 1) AND NOT m0) OR (v AND m0)
     in if v AND (m0 XOR m1) \<noteq> 0 then scan_loop n t1 m0 m1 v (acc @ de) else Some (acc @ de, v) }"

text \<open>The end of the function: the bits above the mask are set, then the reversed cursor is
  incremented.\<close>

definition scan_next :: "64 word \<Rightarrow> 64 word \<Rightarrow> 64 word" where
  "scan_next m0 v = (let v = v OR NOT m0; v = rev_ul v; v = v + 1 in rev_ul v)"

definition dictScan :: "('k, 'v) dict \<Rightarrow> 64 word \<Rightarrow> (('k, 'v) chain \<times> 64 word) option" where
  "dictScan d v =
     (if dictSize d = 0 then Some ([], 0)
      else do {
        (m0, emitted, v) \<leftarrow>
          (if \<not> dictIsRehashing d then
             let m0 = of_nat (sizemask (ht0 d)) in
             do { de \<leftarrow> bucket (ht0 d) (unat (v AND m0)); Some (m0, de, v) }
           else
             let (t0, t1) = (if htsize (ht0 d) > htsize (ht1 d) then (ht1 d, ht0 d) else (ht0 d, ht1 d));
                 m0 = of_nat (sizemask t0); m1 = of_nat (sizemask t1)
             in do {
               de \<leftarrow> bucket t0 (unat (v AND m0));
               (es, v) \<leftarrow> scan_loop (htsize t1) t1 m0 m1 v [];
               Some (m0, de @ es, v) });
        Some (emitted, scan_next m0 v) })"

text \<open>An iteration: one call on each of the successive states of the dictionary.\<close>

fun scan_run :: "('k, 'v) dict list \<Rightarrow> 64 word \<Rightarrow> (('k, 'v) chain \<times> 64 word) option" where
  "scan_run [] v = Some ([], v)"
| "scan_run (d # ds) v = do {
     (es, v) \<leftarrow> dictScan d v;
     (es', v) \<leftarrow> scan_run ds v;
     Some (es @ es', v) }"

section \<open>Reversing the bits\<close>

text \<open>The mask of a round selects the even blocks of \<open>s\<close> bits; the round moves bit \<open>i\<close> to \<open>flip s i\<close>.\<close>

definition alt_mask :: "nat \<Rightarrow> 64 word \<Rightarrow> bool" where
  "alt_mask s m \<longleftrightarrow> (\<forall>i < 64. bit m i \<longleftrightarrow> even (i div s))"

definition flip :: "nat \<Rightarrow> nat \<Rightarrow> nat" where
  "flip s i = (if even (i div s) then i + s else i - s)"

lemma half_parity: "even (q div 2) \<noteq> (1 \<le> q \<and> even ((q - 1) div 2)) \<longleftrightarrow> even (q :: nat)"
  by presburger

lemma alt_mask_half:
  assumes "alt_mask (2 * s) m" "0 < s"
  shows "alt_mask s (m XOR push_bit s m)"
  unfolding alt_mask_def
proof (intro allI impI)
  fix i :: nat assume i: "i < 64"
  let ?q = "i div s"
  have d: "i div (2 * s) = ?q div 2" by (metis div_mult2_eq mult.commute)
  have e: "(i - s) div (2 * s) = (?q - 1) div 2" if "s \<le> i"
    using that assms(2) by (metis div_mult2_eq mult.commute le_div_geq diff_Suc_1)
  have q: "s \<le> i \<longleftrightarrow> 1 \<le> ?q" using assms(2) by (metis Suc_le_eq div_greater_zero_iff One_nat_def)
  have "bit (m XOR push_bit s m) i \<longleftrightarrow> even (?q div 2) \<noteq> (1 \<le> ?q \<and> even ((?q - 1) div 2))"
    using assms(1) i d e q by (auto simp: bit_simps alt_mask_def)
  also have "\<dots> \<longleftrightarrow> even ?q" by (rule half_parity)
  finally show "bit (m XOR push_bit s m) i \<longleftrightarrow> even ?q" .
qed

lemma bit_rev_step:
  assumes "alt_mask s m" "i < 64" "0 < s" "i + s < 64 \<or> odd (i div s)"
  shows "bit (rev_step s m v) i \<longleftrightarrow> bit v (flip s i)"
proof -
  have "s \<le> i" if "odd (i div s)" using that by (cases "s \<le> i") auto
  moreover have "bit m i \<longleftrightarrow> even (i div s)" using assms(1,2) by (simp add: alt_mask_def)
  ultimately show ?thesis using assms(2,4)
    by (cases "even (i div s)") (simp_all add: rev_step_def bit_simps flip_def add.commute [of s])
qed

lemma flip_flip_bit: "flip (2 ^ j) i = flip_bit j i"
proof (cases "bit i j")
  case True
  then have "i = set_bit j (unset_bit j i)"
    by (intro bit_eqI) (auto simp: bit_simps)
  also have "\<dots> = unset_bit j i + 2 ^ j" by (simp add: set_bit_eq bit_simps)
  finally have "i - 2 ^ j = unset_bit j i" by simp
  then show ?thesis using True by (simp add: flip_def flip_bit_eq_if bit_iff_odd)
next
  case False
  then show ?thesis by (simp add: flip_def flip_bit_eq_if bit_iff_odd set_bit_eq)
qed

lemma bit_63_minus:
  assumes "i < 64"
  shows "bit (63 - i) k \<longleftrightarrow> k < 6 \<and> \<not> bit (i :: nat) k"
proof -
  have "int (63 - i) = take_bit 6 (NOT (int i))"
    using assms by (simp add: take_bit_not_eq_mask_diff take_bit_int_eq_self mask_eq_exp_minus_1)
  then have "bit (int (63 - i)) k \<longleftrightarrow> k < 6 \<and> \<not> bit (int i) k" by (simp add: bit_simps)
  then show ?thesis by (simp only: bit_of_nat_iff) simp
qed

lemma bit_below_64: "i < (64 :: nat) \<Longrightarrow> bit i k \<Longrightarrow> k < 6"
proof (rule ccontr)
  assume "i < 64" "bit i k" "\<not> k < 6"
  then have "(2 :: nat) ^ 6 \<le> 2 ^ k" by (intro power_increasing) auto
  with \<open>i < 64\<close> \<open>bit i k\<close> show False by (simp add: bit_iff_odd)
qed

lemma flips:
  assumes "i < 64"
  shows "flip 32 (flip 16 (flip 8 (flip 4 (flip 2 (flip 1 i))))) = 63 - i"
proof -
  have "flip_bit 5 (flip_bit 4 (flip_bit 3 (flip_bit 2 (flip_bit 1 (flip_bit 0 i))))) = 63 - i"
  proof (rule bit_eqI)
    fix k
    show "bit (flip_bit 5 (flip_bit 4 (flip_bit 3 (flip_bit 2 (flip_bit 1 (flip_bit 0 i)))))) k \<longleftrightarrow> bit (63 - i) k"
      using bit_below_64 [OF assms, of k]
      by (auto simp: bit_63_minus [OF assms] bit_flip_bit_iff)
  qed
  then show ?thesis
    using flip_flip_bit [of 0] flip_flip_bit [of 1] flip_flip_bit [of 2] flip_flip_bit [of 3]
      flip_flip_bit [of 4] flip_flip_bit [of 5] by simp
qed

lemma flip_range:
  assumes "s \<in> {1, 2, 4, 8, 16, 32}" "i < 64"
  shows "flip s i < 64 \<and> (i + s < 64 \<or> odd (i div s))"
proof -
  have "2 * s dvd 64" using assms(1) by auto
  then obtain c where c: "64 = 2 * s * c" unfolding dvd_def by blast
  have s: "0 < s" using assms(1) by auto
  have "i + s < 64" if ev: "even (i div s)"
  proof -
    obtain q where q: "i div s = 2 * q" using ev by (rule evenE)
    have i: "i = s * (2 * q) + i mod s" by (metis mult_div_mod_eq q)
    have "64 = s * (2 * c)" using c by (simp only: mult.assoc mult.left_commute [of s])
    then have "s * (2 * q) < s * (2 * c)" using assms(2) i by linarith
    then have "q + 1 \<le> c" using s by simp
    then have "2 * s * (q + 1) \<le> 64" unfolding c by (rule mult_le_mono2)
    then show ?thesis using i mod_less_divisor [OF s, of i] by (simp add: algebra_simps)
  qed
  then show ?thesis using assms(2) by (auto simp: flip_def)
qed

lemma rev_loop_step:
  assumes "alt_mask (2 * s) m" "s \<in> {1, 2, 4, 8, 16, 32}"
  shows "\<exists>m'. alt_mask s m' \<and> rev_loop (2 * s) m v = rev_loop s m' (rev_step s m' v) \<and>
    (\<forall>i < 64. bit (rev_step s m' v) i \<longleftrightarrow> bit v (flip s i))"
proof (intro exI conjI allI impI)
  have s: "0 < s" using assms(2) by auto
  show a: "alt_mask s (m XOR push_bit s m)" by (rule alt_mask_half [OF assms(1) s])
  show "rev_loop (2 * s) m v = rev_loop s (m XOR push_bit s m) (rev_step s (m XOR push_bit s m) v)"
    using s by (subst rev_loop.simps) (simp add: Let_def)
  fix i :: nat assume "i < 64"
  with flip_range [OF assms(2) this] s show "bit (rev_step s (m XOR push_bit s m) v) i \<longleftrightarrow> bit v (flip s i)"
    by (intro bit_rev_step [OF a]) auto
qed

lemma bit_rev_ul: assumes "i < 64" shows "bit (rev_ul v) i \<longleftrightarrow> bit v (63 - i)"
proof -
  have "alt_mask (2 * 32) (NOT 0)" by (auto simp: alt_mask_def)
  from rev_loop_step [OF this, of v] obtain m1 v1 where 1: "alt_mask (2 * 16) m1"
    "rev_loop (2 * 32) (NOT 0) v = rev_loop (2 * 16) m1 v1" "\<forall>i < 64. bit v1 i \<longleftrightarrow> bit v (flip 32 i)" by auto
  from rev_loop_step [OF 1(1), of v1] obtain m2 v2 where 2: "alt_mask (2 * 8) m2"
    "rev_loop (2 * 16) m1 v1 = rev_loop (2 * 8) m2 v2" "\<forall>i < 64. bit v2 i \<longleftrightarrow> bit v1 (flip 16 i)" by auto
  from rev_loop_step [OF 2(1), of v2] obtain m3 v3 where 3: "alt_mask (2 * 4) m3"
    "rev_loop (2 * 8) m2 v2 = rev_loop (2 * 4) m3 v3" "\<forall>i < 64. bit v3 i \<longleftrightarrow> bit v2 (flip 8 i)" by auto
  from rev_loop_step [OF 3(1), of v3] obtain m4 v4 where 4: "alt_mask (2 * 2) m4"
    "rev_loop (2 * 4) m3 v3 = rev_loop (2 * 2) m4 v4" "\<forall>i < 64. bit v4 i \<longleftrightarrow> bit v3 (flip 4 i)" by auto
  from rev_loop_step [OF 4(1), of v4] obtain m5 v5 where 5: "alt_mask (2 * 1) m5"
    "rev_loop (2 * 2) m4 v4 = rev_loop (2 * 1) m5 v5" "\<forall>i < 64. bit v5 i \<longleftrightarrow> bit v4 (flip 2 i)" by auto
  from rev_loop_step [OF 5(1), of v5] obtain m6 v6 where 6:
    "rev_loop (2 * 1) m5 v5 = rev_loop 1 m6 v6" "\<forall>i < 64. bit v6 i \<longleftrightarrow> bit v5 (flip 1 i)" by auto
  have "rev_ul v = v6" using 1(2) 2(2) 3(2) 4(2) 5(2) 6(1)
    by (simp add: rev_ul_def rev_loop.simps [of "Suc 0"] del: bit.compl_zero)
  then show ?thesis
    using 1(3) 2(3) 3(3) 4(3) 5(3) 6(2) assms flip_range flips [OF assms] by simp
qed

lemma rev_ul_rev_ul [simp]: "rev_ul (rev_ul v) = v"
  by (rule bit_word_eqI) (simp add: bit_rev_ul)

definition ridx :: "64 word \<Rightarrow> nat" where "ridx v = unat (rev_ul v)"

lemma ridx_div: "b \<le> 64 \<Longrightarrow> ridx x div 2 ^ (64 - b) = ridx y div 2 ^ (64 - b) \<longleftrightarrow> x AND mask b = y AND mask b"
proof -
  assume b: "b \<le> 64"
  have d: "ridx z div 2 ^ (64 - b) = unat (drop_bit (64 - b) (rev_ul z))" for z
    unfolding ridx_def unat_drop_bit_eq by (rule drop_bit_eq_div [symmetric])
  have bits: "bit (drop_bit (64 - b) (rev_ul z)) i \<longleftrightarrow> i < b \<and> bit z (b - 1 - i)" for z i
  proof (cases "i < b")
    case True
    then have "64 - b + i < 64" "63 - (64 - b + i) = b - 1 - i" using b by auto
    then show ?thesis using True by (simp add: bit_simps bit_rev_ul add.commute)
  next
    case False
    then have "\<not> bit (rev_ul z) (64 - b + i)" using bit_imp_le_length [of "rev_ul z" "64 - b + i"] b by auto
    then show ?thesis using False by (simp add: bit_simps add.commute)
  qed
  have "drop_bit (64 - b) (rev_ul x) = drop_bit (64 - b) (rev_ul y) \<longleftrightarrow> (\<forall>i < b. bit x i = bit y i)"
  proof
    assume e: "drop_bit (64 - b) (rev_ul x) = drop_bit (64 - b) (rev_ul y)"
    show "\<forall>i < b. bit x i = bit y i"
    proof (intro allI impI)
      fix i assume "i < b"
      then have "b - 1 - (b - 1 - i) = i" "b - 1 - i < b" by auto
      with bits [of x "b - 1 - i"] bits [of y "b - 1 - i"] e show "bit x i = bit y i" by simp
    qed
  next
    assume "\<forall>i < b. bit x i = bit y i"
    then show "drop_bit (64 - b) (rev_ul x) = drop_bit (64 - b) (rev_ul y)"
      by (intro bit_word_eqI) (auto simp: bits)
  qed
  also have "\<dots> \<longleftrightarrow> x AND mask b = y AND mask b"
    using b by (auto simp: bit_eq_iff bit_simps) (meson order_less_le_trans)+
  finally show ?thesis unfolding d by (metis unsigned_word_eqI)
qed

lemma ridx_or: "b \<le> 64 \<Longrightarrow> ridx (v OR NOT (mask b)) = 2 ^ (64 - b) * (ridx v div 2 ^ (64 - b)) + (2 ^ (64 - b) - 1)"
proof -
  assume b: "b \<le> 64"
  let ?n = "64 - b" and ?w = "unat (rev_ul v)"
  have "rev_ul (v OR NOT (mask b)) = rev_ul v OR mask ?n"
    by (rule bit_word_eqI) (auto simp: bit_simps bit_rev_ul)
  then have e: "ridx (v OR NOT (mask b)) = ?w OR unat (mask ?n :: 64 word)"
    by (simp add: ridx_def unsigned_or_eq)
  have m: "unat (mask ?n :: 64 word) = mask ?n"
    by (rule bit_eqI) (auto simp: bit_simps)
  have "drop_bit ?n (?w OR mask ?n) = drop_bit ?n ?w" "take_bit ?n (?w OR mask ?n) = mask ?n"
    by (rule bit_eqI; auto simp: bit_simps)+
  then have "(?w OR mask ?n) div 2 ^ ?n = ?w div 2 ^ ?n" "(?w OR mask ?n) mod 2 ^ ?n = 2 ^ ?n - 1"
    by (simp_all only: drop_bit_eq_div take_bit_eq_mod mask_eq_exp_minus_1)
  then show ?thesis
    using mult_div_mod_eq [of "2 ^ ?n" "?w OR mask ?n"] unfolding e m by (simp add: ridx_def)
qed

lemma cursor_add:
  assumes "b < 64"
  shows "(((v OR mask b) + 1) AND NOT (mask b)) OR (v AND mask b) = v + (2 ^ b :: 64 word)"
proof -
  let ?A = "v AND NOT (mask b)" and ?L = "v AND mask b"
  have "?A AND mask b = 0" "?A OR mask b = v OR mask b" by (rule bit_word_eqI; auto simp: bit_simps)+
  then have "v OR mask b = ?A + mask b" using disjunctive_add_eq_or [of ?A "mask b"] by simp
  then have 1: "(v OR mask b) + 1 = ?A + 2 ^ b" by (simp add: mask_eq_exp_minus_1)
  have "?A = push_bit b (drop_bit b v)" by (rule bit_word_eqI) (auto simp: bit_simps)
  then have "?A + 2 ^ b = push_bit b (drop_bit b v + 1)" by (simp add: push_bit_eq_mult algebra_simps)
  then have nb: "i < b \<Longrightarrow> \<not> bit (?A + 2 ^ b) i" for i by (simp add: bit_simps)
  have 2: "(?A + 2 ^ b) AND NOT (mask b) = ?A + 2 ^ b"
    by (rule bit_word_eqI) (use nb in \<open>auto simp: bit_simps\<close>)
  have "(?A + 2 ^ b) AND ?L = 0" by (rule bit_word_eqI) (use nb in \<open>auto simp: bit_simps\<close>)
  then have 3: "(?A + 2 ^ b) OR ?L = ?A + 2 ^ b + ?L" using disjunctive_add_eq_or [of "?A + 2 ^ b" ?L] by simp
  have "?A AND ?L = 0" "?A OR ?L = v" by (rule bit_word_eqI; auto simp: bit_simps)+
  then have "?A + ?L = v" using disjunctive_add_eq_or [of ?A ?L] by simp
  then show ?thesis unfolding 1 2 3 by (simp add: algebra_simps)
qed

section \<open>How the cursor advances\<close>

lemma ridx_less: "ridx v < 2 ^ 64"
  unfolding ridx_def using unsigned_less [of "rev_ul v"] by simp

lemma ridx_0: "ridx v = 0 \<longleftrightarrow> v = 0"
proof
  assume "ridx v = 0"
  then have "rev_ul v = 0" by (simp add: ridx_def unsigned_eq_0_iff)
  then have "rev_ul (rev_ul v) = rev_ul 0" by simp
  also have "rev_ul 0 = 0" by (rule bit_word_eqI) (simp add: bit_rev_ul)
  finally show "v = 0" by simp
next
  have "rev_ul 0 = 0" by (rule bit_word_eqI) (simp add: bit_rev_ul)
  then show "v = 0 \<Longrightarrow> ridx v = 0" by (simp add: ridx_def)
qed

lemma ridx_inj: "ridx v = ridx w \<Longrightarrow> v = w"
  unfolding ridx_def by (metis unsigned_word_eqI rev_ul_rev_ul)

text \<open>One step of the reversed cursor for a table of \<open>2 ^ b\<close> buckets: the first reversed position
  after the block of the current one.\<close>

definition block_end :: "nat \<Rightarrow> 64 word \<Rightarrow> nat" where
  "block_end b v = 2 ^ (64 - b) * (ridx v div 2 ^ (64 - b) + 1)"

lemma block_end_le:
  assumes "b \<le> 64"
  shows "block_end b v \<le> 2 ^ 64"
proof -
  have p: "(2 :: nat) ^ 64 = 2 ^ (64 - b) * 2 ^ b" using assms by (simp flip: power_add)
  have "ridx v div 2 ^ (64 - b) < 2 ^ b"
    using ridx_less [of v] by (intro less_mult_imp_div_less) (simp only: p mult.commute)
  then have "ridx v div 2 ^ (64 - b) + 1 \<le> 2 ^ b" by simp
  then show ?thesis unfolding block_end_def p by (rule mult_le_mono2)
qed

lemma block_end_gt: "ridx v < block_end b v"
  unfolding block_end_def
  using dividend_less_div_times [of "2 ^ (64 - b)" "ridx v"] by (simp add: algebra_simps)

lemma scan_next_ridx:
  assumes "b \<le> 64"
  shows "ridx (scan_next (mask b) v) = block_end b v mod 2 ^ 64"
proof -
  have "ridx (scan_next (mask b) v) = (ridx (v OR NOT (mask b)) + 1) mod 2 ^ 64"
    by (simp add: scan_next_def Let_def ridx_def unat_word_ariths)
  also have "ridx (v OR NOT (mask b)) + 1 = block_end b v"
    unfolding ridx_or [OF assms] block_end_def by (simp add: algebra_simps)
  finally show ?thesis .
qed

lemma block_end_mask:
  assumes "b \<le> 64" "v AND mask b = w AND mask b"
  shows "block_end b v = block_end b w"
  using ridx_div [OF assms(1), of v w] assms(2) by (simp add: block_end_def)

section \<open>What one call returns\<close>

definition hash64 :: "('k, 'v) dict \<Rightarrow> 'k \<Rightarrow> 64 word" where
  "hash64 d k = ucast (dictHashKey d k)"

lemma unat_and_mask: "unat ((x :: 64 word) AND mask b) = unat x mod 2 ^ b"
  by (simp only: take_bit_eq_mask [symmetric] unsigned_take_bit_eq) (rule take_bit_eq_mod)

lemma hash64_slot: "unat (hash64 d k AND mask b) = slot (dictHashKey d k) (2 ^ b - 1)"
proof -
  have "unat (dictHashKey d k) < 2 ^ 32" using unsigned_less [of "dictHashKey d k", where 'a = nat] by simp
  then have "unat (dictHashKey d k) < 2 ^ 64" by simp
  then have "unat (hash64 d k) = unat (dictHashKey d k)"
    by (simp add: hash64_def unsigned_ucast_eq take_bit_nat_eq_self)
  then show ?thesis by (simp only: unat_and_mask slot_mask)
qed

lemma of_nat_sizemask: "(of_nat (2 ^ b - 1) :: 64 word) = mask b"
  by (simp flip: mask_eq_exp_minus_1 add: of_nat_mask_eq)

text \<open>The entries of a table in the buckets that the cursor selects under a mask.\<close>

definition sel :: "('k, 'v) dict \<Rightarrow> nat \<Rightarrow> 64 word \<Rightarrow> ('k, 'v) dictht \<Rightarrow> ('k \<times> 'v) set" where
  "sel d b v h = {e \<in> set (concat (table h)). hash64 d (fst e) AND mask b = v AND mask b}"

lemma word_eq_unat: "(x :: 64 word) = y \<longleftrightarrow> unat x = unat y"
  by (rule word_unat_eq_iff)

lemma ht_ok_mask:
  assumes "ht_ok ty h"
  obtains b where "b \<le> 63" "htsize h = 2 ^ b" "sizemask h = 2 ^ b - 1" "(of_nat (sizemask h) :: 64 word) = mask b"
    "length (table h) = 2 ^ b"
  using assms of_nat_sizemask unfolding ht_ok_def by metis

lemma set_nth_slot:
  assumes "ht_ok ty h" "i < length (table h)"
  shows "set (table h ! i) = {e \<in> set (concat (table h)). slot (hashFunction ty (fst e)) (sizemask h) = i}"
proof -
  have all: "\<forall>j < length (table h). \<forall>e \<in> set (table h ! j). slot (hashFunction ty (fst e)) (sizemask h) = j"
    using assms(1) by (simp add: ht_ok_def)
  show ?thesis
  proof (intro set_eqI iffI)
    fix e assume "e \<in> set (table h ! i)"
    then show "e \<in> {e \<in> set (concat (table h)). slot (hashFunction ty (fst e)) (sizemask h) = i}"
      using all assms(2) by auto
  next
    fix e assume "e \<in> {e \<in> set (concat (table h)). slot (hashFunction ty (fst e)) (sizemask h) = i}"
    then obtain j where "j < length (table h)" "e \<in> set (table h ! j)"
      "slot (hashFunction ty (fst e)) (sizemask h) = i" by (auto simp: in_set_conv_nth [of _ "table h"])
    with all show "e \<in> set (table h ! i)" by fastforce
  qed
qed

lemma bucket_sel:
  assumes ok: "ht_ok (dtype d) h" and b: "sizemask h = 2 ^ b - 1" "htsize h = 2 ^ b"
  shows "\<exists>de. bucket h (unat (v AND mask b)) = Some de \<and> set de = sel d b v h"
proof -
  let ?i = "unat (v AND mask b)"
  have l: "length (table h) = 2 ^ b" using ok b by (simp add: ht_ok_def)
  have i: "?i < length (table h)" by (simp add: l unat_and_mask)
  have "hash64 d k AND mask b = v AND mask b \<longleftrightarrow> slot (hashFunction (dtype d) k) (sizemask h) = ?i" for k
    using hash64_slot [of d k b] by (simp only: word_eq_unat b dictHashKey_def)
  then have "set (table h ! ?i) = sel d b v h" unfolding set_nth_slot [OF ok i] sel_def by blast
  with i show ?thesis by (auto simp: bucket_def)
qed

text \<open>Reduction of a cursor to two nested masks.\<close>

lemma unat_add_mask: "b < 64 \<Longrightarrow> b \<le> c \<Longrightarrow> c \<le> 63 \<Longrightarrow>
   unat ((v + 2 ^ b :: 64 word) AND mask c) = (unat (v AND mask c) + 2 ^ b) mod 2 ^ c"
proof -
  assume b: "b < 64" "b \<le> c" "c \<le> 63"
  have p: "unat (2 ^ b :: 64 word) = 2 ^ b" using b by (intro bit_eqI) (auto simp: bit_simps)
  have dv: "(2 :: nat) ^ c dvd 2 ^ 64" using b by (intro le_imp_power_dvd) simp
  have "unat ((v + 2 ^ b :: 64 word) AND mask c) = (unat v + 2 ^ b) mod 2 ^ 64 mod 2 ^ c"
    by (simp only: unat_and_mask unat_word_ariths p) simp
  also have "\<dots> = (unat v + 2 ^ b) mod 2 ^ c" by (rule mod_mod_cancel [OF dv])
  finally show ?thesis by (simp only: unat_and_mask mod_add_left_eq)
qed

lemma mask_diff_zero: "b \<le> c \<Longrightarrow> v AND (mask b XOR mask c) = 0 \<longleftrightarrow> (v :: 64 word) AND mask c = v AND mask b"
  by (auto simp: bit_eq_iff bit_simps)

lemma mask_mask: "b \<le> c \<Longrightarrow> unat ((v :: 64 word) AND mask c) mod 2 ^ b = unat (v AND mask b)"
  unfolding unat_and_mask by (rule mod_mod_cancel) (rule le_imp_power_dvd)

lemma scan_loop_spec:
  fixes d :: "('k, 'v) dict" and t1 :: "('k, 'v) dictht"
  assumes ok: "ht_ok (dtype d) t1" and c: "sizemask t1 = 2 ^ c - 1" "htsize t1 = 2 ^ c" "b \<le> c" "c \<le> 63"
    and lo: "lo < 2 ^ b"
  shows "unat (v AND mask c) = lo + n * 2 ^ b \<Longrightarrow> n < 2 ^ (c - b) \<Longrightarrow> 2 ^ (c - b) \<le> fuel + n \<Longrightarrow>
    \<exists>es v'. scan_loop fuel t1 (mask b) (mask c) v acc = Some (acc @ es, v') \<and> v' AND mask b = v AND mask b \<and>
      set es = {e \<in> set (concat (table t1)). \<exists>j. n \<le> j \<and> j < 2 ^ (c - b) \<and>
        unat (hash64 d (fst e) AND mask c) = lo + j * 2 ^ b}"
proof (induction fuel arbitrary: v n acc)
  case 0
  then show ?case by simp
next
  case (Suc fuel)
  let ?S = "\<lambda>n. {e \<in> set (concat (table t1)). \<exists>j. n \<le> j \<and> j < 2 ^ (c - b) \<and>
        unat (hash64 d (fst e) AND mask c) = lo + j * 2 ^ b}"
  let ?v = "v + 2 ^ b"
  obtain de where de: "bucket t1 (unat (v AND mask c)) = Some de" "set de = sel d c v t1"
    using bucket_sel [OF ok c(1,2), of v] by blast
  have bb: "b < 64" using c by simp
  have pc: "(2 :: nat) ^ c = 2 ^ b * 2 ^ (c - b)" using c(3) by (simp flip: power_add)
  have low: "?v AND mask b = v AND mask b"
    using unat_add_mask [OF bb order_refl, of v] c by (simp add: word_eq_unat unat_and_mask)
  have nx: "unat (?v AND mask c) = (lo + (n + 1) * 2 ^ b) mod 2 ^ c"
    using unat_add_mask [OF bb c(3,4), of v] Suc.prems(1) by (simp add: algebra_simps)
  have lov: "unat (v AND mask b) = lo"
    using mask_mask [OF c(3), of v] Suc.prems(1) lo by simp
  have de': "set de = {e \<in> set (concat (table t1)). unat (hash64 d (fst e) AND mask c) = lo + n * 2 ^ b}"
    by (simp only: de(2) sel_def word_eq_unat Suc.prems(1))
  have step: "scan_loop (Suc fuel) t1 (mask b) (mask c) v acc =
     (if ?v AND (mask b XOR mask c) \<noteq> 0 then scan_loop fuel t1 (mask b) (mask c) ?v (acc @ de) else Some (acc @ de, ?v))"
    using de(1) cursor_add [OF bb, of v] by (simp add: Let_def)
  show ?case
  proof (cases "n + 1 < 2 ^ (c - b)")
    case True
    then have "2 ^ b * (n + 2) \<le> 2 ^ c" unfolding pc by (intro mult_le_mono2) simp
    then have "lo + (n + 1) * 2 ^ b < 2 ^ c" using lo by (simp add: algebra_simps)
    then have nx': "unat (?v AND mask c) = lo + (n + 1) * 2 ^ b" by (simp only: nx mod_less)
    have "unat (?v AND mask c) \<noteq> unat (?v AND mask b)" unfolding nx' low lov by simp
    then have "?v AND (mask b XOR mask c) \<noteq> 0" unfolding mask_diff_zero [OF c(3)] by metis
    moreover obtain es v' where
      "scan_loop fuel t1 (mask b) (mask c) ?v (acc @ de) = Some ((acc @ de) @ es, v')"
      "v' AND mask b = ?v AND mask b" "set es = ?S (n + 1)"
      using Suc.IH [OF nx' True, of "acc @ de"] Suc.prems(3) by auto
    moreover have "?S n = set de \<union> ?S (n + 1)"
      unfolding de' using Suc.prems(2) by (auto simp: Suc_le_eq)
    ultimately show ?thesis unfolding step low by (intro exI [of _ "de @ es"] exI [of _ v']) auto
  next
    case False
    then have n: "n + 1 = 2 ^ (c - b)" using Suc.prems(2) by simp
    then have "unat (?v AND mask c) = (lo + 2 ^ c) mod 2 ^ c" unfolding nx pc by (simp add: mult.commute)
    also have "\<dots> = lo mod 2 ^ c" by simp
    also have "\<dots> = lo" by (rule mod_less, rule order_less_le_trans [OF lo], rule power_increasing [OF c(3)]) simp
    finally have "?v AND mask c = ?v AND mask b" unfolding word_eq_unat low lov .
    then have "?v AND (mask b XOR mask c) = 0" unfolding mask_diff_zero [OF c(3)] .
    moreover have "?S n = set de"
    proof -
      have jn: "(n \<le> j \<and> j < 2 ^ (c - b)) = (j = n)" for j using n by linarith
      show ?thesis unfolding de' conj_assoc [symmetric] jn by simp
    qed
    ultimately show ?thesis unfolding step using low by simp
  qed
qed

lemma scan_loop_sel:
  fixes d :: "('k, 'v) dict" and t1 :: "('k, 'v) dictht"
  assumes ok: "ht_ok (dtype d) t1" and c: "sizemask t1 = 2 ^ c - 1" "htsize t1 = 2 ^ c" "b \<le> c" "c \<le> 63"
    and fits: "v AND (mask b XOR mask c) = 0"
  shows "\<exists>es v'. scan_loop (htsize t1) t1 (mask b) (mask c) v [] = Some (es, v') \<and>
    v' AND mask b = v AND mask b \<and> set es = sel d b v t1"
proof -
  let ?lo = "unat (v AND mask b)"
  have eq: "v AND mask c = v AND mask b" using fits mask_diff_zero [OF c(3)] by blast
  have lo: "?lo < 2 ^ b" by (simp add: unat_and_mask)
  have pc: "(2 :: nat) ^ c = 2 ^ b * 2 ^ (c - b)" using c(3) by (simp flip: power_add)
  have "(2 :: nat) ^ (c - b) \<le> 2 ^ c" by (rule power_increasing) auto
  with scan_loop_spec [OF ok c lo, of v 0 "htsize t1" "[]"] eq obtain es v' where
    r: "scan_loop (htsize t1) t1 (mask b) (mask c) v [] = Some (es, v')" "v' AND mask b = v AND mask b"
      "set es = {e \<in> set (concat (table t1)). \<exists>j < 2 ^ (c - b). unat (hash64 d (fst e) AND mask c) = ?lo + j * 2 ^ b}"
    by (auto simp: c(2))
  have "(\<exists>j < 2 ^ (c - b). unat (hash64 d k AND mask c) = ?lo + j * 2 ^ b) \<longleftrightarrow>
      hash64 d k AND mask b = v AND mask b" for k
  proof -
    let ?x = "unat (hash64 d k AND mask c)"
    have m: "?x mod 2 ^ b = unat (hash64 d k AND mask b)" by (rule mask_mask [OF c(3)])
    have "?x < 2 ^ c" by (simp add: unat_and_mask)
    then have "?x div 2 ^ b < 2 ^ (c - b)" unfolding pc by (intro less_mult_imp_div_less) (simp add: mult.commute)
    moreover have "?x = ?x mod 2 ^ b + ?x div 2 ^ b * 2 ^ b" by (rule mod_div_mult_eq [symmetric])
    ultimately have "(\<exists>j < 2 ^ (c - b). ?x = ?lo + j * 2 ^ b) \<longleftrightarrow> ?x mod 2 ^ b = ?lo"
      using lo by (metis mod_less mod_mult_self1)
    then show ?thesis by (simp only: m word_eq_unat)
  qed
  with r show ?thesis by (auto simp: sel_def)
qed

text \<open>The condition under which the loop over the expansions starts at the first one: the cursor has
  no bits between the two masks. It holds when the tables have not shrunk since the previous call.\<close>

definition scan_fits :: "('k, 'v) dict \<Rightarrow> 64 word \<Rightarrow> bool" where
  "scan_fits d v \<longleftrightarrow> (dictIsRehashing d \<longrightarrow>
     v AND (of_nat (sizemask (ht0 d)) XOR of_nat (sizemask (ht1 d))) = 0)"

lemma wf_dictSize: "dict_wf d \<Longrightarrow> dictSize d = length (elist d)"
  by (auto simp: dict_wf_def dictSize_def elist_def ht_ok_def split: if_splits)

lemma sel_elist: "sel d b v (ht0 d) \<union> sel d b v (ht1 d) =
    {e \<in> set (elist d). hash64 d (fst e) AND mask b = v AND mask b}"
  by (auto simp: sel_def elist_def)

lemma dictScan_step:
  assumes wf: "dict_wf d" and ne: "elist d \<noteq> []" and fits: "scan_fits d v"
  shows "\<exists>es b. b \<le> 63 \<and> dictScan d v = Some (es, scan_next (mask b) v) \<and>
    set es = {e \<in> set (elist d). hash64 d (fst e) AND mask b = v AND mask b} \<and>
    (\<not> dictIsRehashing d \<longrightarrow> htsize (ht0 d) = 2 ^ b)"
proof (cases "dictIsRehashing d")
  case False
  have sz: "dictSize d \<noteq> 0" using wf_dictSize [OF wf] ne by simp
  have "htsize (ht0 d) \<noteq> 0" using wf_reset_elist [OF wf] ne by blast
  then have ok: "ht_ok (dtype d) (ht0 d)" by (rule wf_ht0 [OF wf])
  then obtain b where b: "b \<le> 63" "htsize (ht0 d) = 2 ^ b" "sizemask (ht0 d) = 2 ^ b - 1"
    "(of_nat (sizemask (ht0 d)) :: 64 word) = mask b" by (rule ht_ok_mask)
  obtain de where de: "bucket (ht0 d) (unat (v AND mask b)) = Some de" "set de = sel d b v (ht0 d)"
    using bucket_sel [OF ok b(3,2), of v] by blast
  have "ht1 d = dictReset" using wf False by (simp add: dict_wf_def)
  then have "set de = {e \<in> set (elist d). hash64 d (fst e) AND mask b = v AND mask b}"
    by (simp add: de(2) sel_def elist_def)
  moreover have "dictScan d v = Some (de, scan_next (mask b) v)"
    using sz False de(1) unfolding dictScan_def Let_def b(4) by simp
  ultimately show ?thesis using b(1,2) by blast
next
  case True
  have sz: "dictSize d \<noteq> 0" using wf_dictSize [OF wf] ne by simp
  note w = wf_rehashing [OF wf True]
  obtain b0 where b0: "b0 \<le> 63" "htsize (ht0 d) = 2 ^ b0" "sizemask (ht0 d) = 2 ^ b0 - 1"
    "(of_nat (sizemask (ht0 d)) :: 64 word) = mask b0" by (rule ht_ok_mask [OF w(1)])
  obtain b1 where b1: "b1 \<le> 63" "htsize (ht1 d) = 2 ^ b1" "sizemask (ht1 d) = 2 ^ b1 - 1"
    "(of_nat (sizemask (ht1 d)) :: 64 word) = mask b1" by (rule ht_ok_mask [OF w(2)])
  have f: "v AND (mask b0 XOR mask b1) = 0" using fits True by (simp only: scan_fits_def b0(4) b1(4))
  define t0 where "t0 = (if htsize (ht0 d) > htsize (ht1 d) then ht1 d else ht0 d)"
  define t1 where "t1 = (if htsize (ht0 d) > htsize (ht1 d) then ht0 d else ht1 d)"
  define b where "b = min b0 b1"
  define c where "c = max b0 b1"
  have gt: "htsize (ht0 d) > htsize (ht1 d) \<longleftrightarrow> b0 > b1" by (simp add: b0(2) b1(2))
  have t0: "ht_ok (dtype d) t0" "sizemask t0 = 2 ^ b - 1" "htsize t0 = 2 ^ b" "(of_nat (sizemask t0) :: 64 word) = mask b"
    using w(1,2) b0 b1 gt by (auto simp: t0_def b_def min_def)
  have t1: "ht_ok (dtype d) t1" "sizemask t1 = 2 ^ c - 1" "htsize t1 = 2 ^ c" "(of_nat (sizemask t1) :: 64 word) = mask c"
    using w(1,2) b0 b1 gt by (auto simp: t1_def c_def max_def)
  have bc: "b \<le> c" "b \<le> 63" "c \<le> 63" using b0(1) b1(1) by (auto simp: b_def c_def)
  have f': "v AND (mask b XOR mask c) = 0" using f by (auto simp: b_def c_def min_def max_def xor.commute)
  obtain de where de: "bucket t0 (unat (v AND mask b)) = Some de" "set de = sel d b v t0"
    using bucket_sel [OF t0(1,2,3), of v] by blast
  obtain es v' where es: "scan_loop (htsize t1) t1 (mask b) (mask c) v [] = Some (es, v')"
    "v' AND mask b = v AND mask b" "set es = sel d b v t1"
    using scan_loop_sel [OF t1(1,2,3) bc(1,3) f'] by blast
  have S: "set (de @ es) = {e \<in> set (elist d). hash64 d (fst e) AND mask b = v AND mask b}"
    unfolding sel_elist [symmetric] using de(2) es(3) by (auto simp: t0_def t1_def)
  have "ridx (scan_next (mask b) v') = ridx (scan_next (mask b) v)"
    using bc(2) block_end_mask [OF _ es(2)] by (simp add: scan_next_ridx)
  then have N: "scan_next (mask b) v' = scan_next (mask b) v" by (rule ridx_inj)
  have p: "(if htsize (ht0 d) > htsize (ht1 d) then (ht1 d, ht0 d) else (ht0 d, ht1 d)) = (t0, t1)"
    by (simp add: t0_def t1_def)
  have D: "dictScan d v = Some (de @ es, scan_next (mask b) v')"
    using sz True de(1) es(1) unfolding dictScan_def p by (simp add: t0(4) t1(4) Let_def)
  show ?thesis using S D bc(2) True unfolding N by blast
qed

section \<open>A complete iteration\<close>

fun fits_run :: "('k, 'v) dict list \<Rightarrow> 64 word \<Rightarrow> bool" where
  "fits_run [] v = True"
| "fits_run (d # ds) v =
     (scan_fits d v \<and> (case dictScan d v of None \<Rightarrow> True | Some (es, v') \<Rightarrow> fits_run ds v'))"

lemma in_block:
  assumes "b \<le> 64" "ridx v \<le> ridx w" "ridx w < block_end b v"
  shows "w AND mask b = v AND mask b"
proof -
  let ?p = "2 ^ (64 - b) :: nat"
  have "ridx w div ?p < ridx v div ?p + 1"
    using assms(3) unfolding block_end_def by (intro less_mult_imp_div_less) (simp add: mult.commute)
  moreover have "ridx v div ?p \<le> ridx w div ?p" by (rule div_le_mono [OF assms(2)])
  ultimately have "ridx w div ?p = ridx v div ?p" by simp
  then show ?thesis using ridx_div [OF assms(1)] by blast
qed

lemma dict_map_in: "dict_map d k \<noteq> None \<longleftrightarrow> k \<in> fst ` set (elist d)"
  by (simp add: dict_map_def map_of_eq_None_iff)

lemma scan_run_some:
  "\<forall>d \<in> set ds. dict_wf d \<and> elist d \<noteq> [] \<Longrightarrow> fits_run ds v \<Longrightarrow> \<exists>es v'. scan_run ds v = Some (es, v')"
proof (induction ds arbitrary: v)
  case (Cons d ds)
  then have "dict_wf d" "elist d \<noteq> []" "scan_fits d v" by auto
  from dictScan_step [OF this] obtain es b where "dictScan d v = Some (es, scan_next (mask b) v)" by blast
  with Cons.IH [of "scan_next (mask b) v"] Cons.prems show ?case by auto
qed simp

lemma scan_run_covers:
  "\<forall>d \<in> set ds. dict_wf d \<and> dict_map d k \<noteq> None \<and> hash64 d k = w \<Longrightarrow> fits_run ds v \<Longrightarrow> ridx v \<le> ridx w \<Longrightarrow>
   \<exists>es v'. scan_run ds v = Some (es, v') \<and>
     (k \<in> fst ` set es \<or> (ds \<noteq> [] \<longrightarrow> v' \<noteq> 0) \<and> ridx v' \<le> ridx w)"
proof (induction ds arbitrary: v)
  case (Cons d ds)
  then have d0: "dict_wf d" "dict_map d k \<noteq> None" "hash64 d k = w" "scan_fits d v" by auto
  note d = d0(1) d0(2) [unfolded dict_map_in] d0(3,4)
  from d(2) have "elist d \<noteq> []" by auto
  from dictScan_step [OF d(1) this d(4)] obtain es b where s: "b \<le> 63" "dictScan d v = Some (es, scan_next (mask b) v)"
    "set es = {e \<in> set (elist d). hash64 d (fst e) AND mask b = v AND mask b}" by blast
  let ?v = "scan_next (mask b) v"
  have f: "fits_run ds ?v" using Cons.prems(2) s(2) by simp
  show ?case
  proof (cases "ridx w < block_end b v")
    case True
    then have "w AND mask b = v AND mask b" using in_block Cons.prems(3) s(1) by simp
    then have k: "k \<in> fst ` set es" using d(2,3) s(3) by auto
    have "\<forall>d \<in> set ds. dict_wf d \<and> elist d \<noteq> []"
      using Cons.prems(1) unfolding dict_map_in by fastforce
    then obtain es' v' where "scan_run ds ?v = Some (es', v')" using scan_run_some [OF _ f] by blast
    then show ?thesis using k s(2) by auto
  next
    case False
    then have e: "ridx ?v = block_end b v"
      using scan_next_ridx [of b v] s(1) ridx_less [of w] by simp
    then have "?v \<noteq> 0" using block_end_gt [of v b] ridx_0 [of ?v] by auto
    moreover from Cons.IH [OF _ f] Cons.prems(1) e False obtain es' v' where
      "scan_run ds ?v = Some (es', v')"
      "k \<in> fst ` set es' \<or> (ds \<noteq> [] \<longrightarrow> v' \<noteq> 0) \<and> ridx v' \<le> ridx w" by auto
    moreover from calculation(2) s(2) have "scan_run (d # ds) v = Some (es @ es', v')" by simp
    moreover have "ds = [] \<Longrightarrow> v' = ?v" using calculation(2) by simp
    ultimately show ?thesis using e False by (intro exI [of _ "es @ es'"] exI [of _ v']) auto
  qed
qed simp

text \<open>C8: the guarantee of \<open>dictScan\<close>: an iteration that starts and ends with the cursor 0 returns
  every key present in all the states it was called on, whatever the tables' sizes and however the
  table was resized in between, provided no call during a rehash is made with a cursor that has
  bits above the smaller mask.\<close>
theorem dictScan_complete:
  assumes "ds \<noteq> []" and "scan_run ds 0 = Some (es, 0)" and "fits_run ds 0"
    and "\<forall>d \<in> set ds. dict_wf d \<and> dict_map d k \<noteq> None \<and> hash64 d k = w"
  shows "k \<in> fst ` set es"
proof -
  have "ridx 0 \<le> ridx w" using ridx_0 [of 0] by simp
  from scan_run_covers [OF assms(4,3) this] assms(1,2) show ?thesis by auto
qed

lemma scan_static_run:
  assumes wf: "dict_wf d" and re: "\<not> dictIsRehashing d" and ne: "elist d \<noteq> []"
    and b: "htsize (ht0 d) = 2 ^ b" "b \<le> 63"
  shows "ridx v = i * 2 ^ (64 - b) \<Longrightarrow> i + n = 2 ^ b \<Longrightarrow> 0 < n \<Longrightarrow>
    \<exists>es. scan_run (replicate n d) v = Some (es, 0) \<and>
      set es = {e \<in> set (elist d). ridx v \<le> ridx (hash64 d (fst e))}"
proof (induction n arbitrary: v i)
  case (Suc n)
  have fits: "scan_fits d v" using re by (simp add: scan_fits_def)
  from dictScan_step [OF wf ne fits] obtain es b' where
    s': "b' \<le> 63" "dictScan d v = Some (es, scan_next (mask b') v)"
      "set es = {e \<in> set (elist d). hash64 d (fst e) AND mask b' = v AND mask b'}"
      "htsize (ht0 d) = 2 ^ b'" using re by blast
  have "b' = b" using s'(4) b(1) by simp
  note s = s'(2,3) [unfolded this]
  let ?v = "scan_next (mask b) v"
  have bl: "block_end b v = (i + 1) * 2 ^ (64 - b)" by (simp add: block_end_def Suc.prems(1))
  have p: "(2 :: nat) ^ 64 = 2 ^ b * 2 ^ (64 - b)" using b(2) by (simp flip: power_add)
  have nv: "ridx ?v = (i + 1) * 2 ^ (64 - b) mod 2 ^ 64" using scan_next_ridx [of b v] b(2) by (simp add: bl)
  have emitted: "w AND mask b = v AND mask b \<longleftrightarrow> ridx v \<le> ridx w \<and> ridx w < block_end b v" for w
  proof
    assume "w AND mask b = v AND mask b"
    then have e: "ridx w div 2 ^ (64 - b) = ridx v div 2 ^ (64 - b)" using ridx_div [of b w v] b(2) by simp
    have "ridx w < block_end b v" using block_end_gt [of w b] e by (simp add: block_end_def)
    moreover have "ridx v \<le> ridx w"
      using e div_mult_mod_eq [of "ridx w" "2 ^ (64 - b)"] by (simp add: Suc.prems(1))
    ultimately show "ridx v \<le> ridx w \<and> ridx w < block_end b v" by simp
  qed (use in_block [of b v w] b(2) in auto)
  show ?case
  proof (cases "n = 0")
    case True
    then have "i + 1 = 2 ^ b" using Suc.prems(2) by simp
    then have e: "block_end b v = 2 ^ 64" unfolding bl p by (simp only:)
    then have "ridx ?v = 0" using scan_next_ridx [of b v] b(2) by simp
    then have "?v = 0" by (simp only: ridx_0)
    moreover have "set es = {e \<in> set (elist d). ridx v \<le> ridx (hash64 d (fst e))}"
      unfolding s(2) emitted e using ridx_less by blast
    ultimately show ?thesis using s(1) True by simp
  next
    case False
    then have "i + 1 < 2 ^ b" using Suc.prems(2) by simp
    then have "(i + 1) * 2 ^ (64 - b) < 2 ^ b * 2 ^ (64 - b)" by (rule mult_less_mono1) simp
    then have nv': "ridx ?v = (i + 1) * 2 ^ (64 - b)" using nv by (simp only: p mod_less)
    from Suc.IH [OF nv'] Suc.prems(2) False obtain es' where
      "scan_run (replicate n d) ?v = Some (es', 0)"
      "set es' = {e \<in> set (elist d). ridx ?v \<le> ridx (hash64 d (fst e))}" by auto
    moreover have "ridx ?v = block_end b v" by (simp only: nv' bl)
    ultimately show ?thesis using s block_end_gt [of v b] by (auto simp: emitted)
  qed
qed simp

text \<open>C18: on a dictionary that is not changed, the iteration ends after exactly one call per
  bucket, and returns exactly the entries of the dictionary.\<close>
theorem dictScan_terminates:
  assumes "dict_wf d" and "\<not> dictIsRehashing d" and "elist d \<noteq> []"
  shows "\<exists>es. scan_run (replicate (htsize (ht0 d)) d) 0 = Some (es, 0) \<and> set es = set (elist d)"
proof -
  have "htsize (ht0 d) \<noteq> 0" using wf_reset_elist [OF assms(1)] assms(3) by blast
  then obtain b where b: "b \<le> 63" "htsize (ht0 d) = 2 ^ b"
    using ht_ok_mask [OF wf_ht0 [OF assms(1)]] by metis
  have z: "ridx 0 = 0" by (simp add: ridx_0)
  then have "ridx 0 = 0 * 2 ^ (64 - b)" by simp
  from scan_static_run [OF assms b(2,1) this, of "2 ^ b"] show ?thesis by (simp add: b(2) z)
qed

section \<open>An iteration that misses a key\<close>

lemma scan_next_eq: "b \<le> 64 \<Longrightarrow> ridx w = block_end b v mod 2 ^ 64 \<Longrightarrow> scan_next (mask b) v = w"
  by (rule ridx_inj) (simp only: scan_next_ridx)

lemma rev_ul_or: "rev_ul (v OR w) = rev_ul v OR rev_ul w"
  by (rule bit_word_eqI) (simp add: bit_rev_ul bit_simps)

lemma rev_ul_exp: "j < 64 \<Longrightarrow> rev_ul (2 ^ j) = 2 ^ (63 - j)"
  by (rule bit_word_eqI) (auto simp: bit_rev_ul bit_simps)

lemma rev_vals: "rev_ul 0 = 0" "rev_ul 1 = 2 ^ 63" "rev_ul 2 = 2 ^ 62" "rev_ul 8 = 2 ^ 60" "rev_ul 16 = 2 ^ 59"
  "rev_ul 3 = 2 ^ 63 OR 2 ^ 62" "rev_ul 18 = 2 ^ 62 OR 2 ^ 59" "rev_ul 17 = 2 ^ 63 OR 2 ^ 59"
  "rev_ul 19 = 2 ^ 63 OR 2 ^ 62 OR 2 ^ 59"
proof -
  show z: "rev_ul 0 = 0" by (rule bit_word_eqI) (simp add: bit_rev_ul)
  show 1: "rev_ul 1 = 2 ^ 63" "rev_ul 2 = 2 ^ 62" "rev_ul 8 = 2 ^ 60" "rev_ul 16 = 2 ^ 59"
    using rev_ul_exp [of 0] rev_ul_exp [of 1] rev_ul_exp [of 3] rev_ul_exp [of 4] by simp_all
  show "rev_ul 3 = 2 ^ 63 OR 2 ^ 62" "rev_ul 18 = 2 ^ 62 OR 2 ^ 59" "rev_ul 17 = 2 ^ 63 OR 2 ^ 59"
    "rev_ul 19 = 2 ^ 63 OR 2 ^ 62 OR 2 ^ 59"
    using rev_ul_or [of 1 2] rev_ul_or [of 2 16] rev_ul_or [of 1 16] rev_ul_or [of 1 18] rev_ul_or [of 2 16]
    by (simp_all add: 1)
qed

lemma scan_next_vals:
  "scan_next 15 0 = 8" "scan_next 3 0 = 2" "scan_next 3 2 = 1" "scan_next 3 1 = 3" "scan_next 3 3 = 0"
  "scan_next 3 16 = 2" "scan_next 3 18 = 1" "scan_next 3 17 = 3" "scan_next 3 19 = 0"
  using scan_next_eq [of 4 8 0] scan_next_eq [of 2 2 0] scan_next_eq [of 2 1 2] scan_next_eq [of 2 3 1]
    scan_next_eq [of 2 0 3] scan_next_eq [of 2 2 16] scan_next_eq [of 2 1 18] scan_next_eq [of 2 3 17]
    scan_next_eq [of 2 0 19]
  by (simp_all add: block_end_def ridx_def rev_vals mask_eq_exp_minus_1)

text \<open>Keys that are their own hash values; a table of 16 buckets with one key, 4, and the same table
  when \<open>dictResize\<close> has started to shrink it to 4 buckets.\<close>

definition id_type :: "32 word dictType" where
  "id_type = \<lparr>hashFunction = (\<lambda>k. k), keyCompare = (=)\<rparr>"

definition big_dict :: "(32 word, nat) dict" where
  "big_dict = \<lparr>dtype = id_type,
     ht0 = \<lparr>table = (replicate 16 [])[4 := [(4, 0)]], htsize = 16, sizemask = 15, used = 1\<rparr>,
     ht1 = dictReset, rehashidx = - 1, iterators = 0\<rparr>"

lemma big_table:
  "i < 16 \<Longrightarrow> table (ht0 big_dict) ! i = (if i = 4 then [(4, 0)] else [])" "length (table (ht0 big_dict)) = 16"
  by (simp_all add: big_dict_def nth_list_update)

lemma big_concat: "concat (table (ht0 big_dict)) = [(4, 0)]"
  by (simp add: big_dict_def numeral_eq_Suc)

lemma ex_le63: "2 ^ b = n \<Longrightarrow> m = n - 1 \<Longrightarrow> b \<le> 63 \<Longrightarrow> \<exists>b \<le> (63 :: nat). n = (2 :: nat) ^ b \<and> m = 2 ^ b - 1"
  by auto

lemma big_dict_wf: "dict_wf big_dict"
proof -
  have "ht_ok id_type (ht0 big_dict)"
    unfolding ht_ok_def
  proof (intro conjI)
    show "\<exists>b \<le> 63. htsize (ht0 big_dict) = 2 ^ b \<and> sizemask (ht0 big_dict) = 2 ^ b - 1"
      by (rule ex_le63 [of 4]) (simp_all add: big_dict_def)
    show "\<forall>i < htsize (ht0 big_dict). \<forall>e \<in> set (table (ht0 big_dict) ! i).
        slot (hashFunction id_type (fst e)) (sizemask (ht0 big_dict)) = i"
    proof (intro allI impI ballI)
      fix i and e :: "32 word \<times> nat"
      assume "i < htsize (ht0 big_dict)" and e: "e \<in> set (table (ht0 big_dict) ! i)"
      then have "i < 16" by (simp add: big_dict_def)
      with e have "i = 4 \<and> e = (4, 0)" by (simp add: big_table split: if_splits)
      then show "slot (hashFunction id_type (fst e)) (sizemask (ht0 big_dict)) = i"
        by (simp add: big_dict_def id_type_def slot_def)
    qed
    show "used (ht0 big_dict) = length (concat (table (ht0 big_dict)))"
      by (simp add: big_concat) (simp add: big_dict_def)
  qed (simp_all add: big_dict_def)
  then show ?thesis
    by (simp add: dict_wf_def dictIsRehashing_def elist_def big_concat) (simp add: big_dict_def id_type_def)
qed

definition shrunk_dict :: "(32 word, nat) dict" where
  "shrunk_dict = fst (dictResize True big_dict)"

lemma shrunk_dict_eq: "shrunk_dict = big_dict\<lparr>ht1 := \<lparr>table = replicate 4 [], htsize = 4, sizemask = 3, used = 0\<rparr>,
     rehashidx := 0\<rparr>"
  by (simp add: shrunk_dict_def dictResize_def dictExpand_def dictNextPower_def LONG_MAX_def big_dict_def Let_def
      DICT_HT_INITIAL_SIZE_def dictIsRehashing_def s32_def spat_def upat_def next_power_loop.simps)

lemma big_loop:
  "scan_loop (Suc (Suc (Suc (Suc n)))) (ht0 big_dict) 3 15 8 [] = Some ([], 16)"
  "scan_loop (Suc (Suc (Suc (Suc n)))) (ht0 big_dict) 3 15 2 [] = Some ([], 18)"
  "scan_loop (Suc (Suc (Suc (Suc n)))) (ht0 big_dict) 3 15 1 [] = Some ([], 17)"
  "scan_loop (Suc (Suc (Suc (Suc n)))) (ht0 big_dict) 3 15 3 [] = Some ([], 19)"
  by (simp_all add: bucket_def big_table)

lemma fuel16: "(16 :: nat) = Suc (Suc (Suc (Suc 12)))"
  by simp

lemma shrunk_scans:
  "dictScan shrunk_dict 8 = Some ([], 2)" "dictScan shrunk_dict 2 = Some ([], 1)"
  "dictScan shrunk_dict 1 = Some ([], 3)" "dictScan shrunk_dict 3 = Some ([], 0)"
proof -
  have h: "htsize (ht0 big_dict) = Suc (Suc (Suc (Suc 12)))" "sizemask (ht0 big_dict) = 15" "used (ht0 big_dict) = 1"
    by (simp_all add: big_dict_def)
  show "dictScan shrunk_dict 8 = Some ([], 2)" "dictScan shrunk_dict 2 = Some ([], 1)"
    "dictScan shrunk_dict 1 = Some ([], 3)" "dictScan shrunk_dict 3 = Some ([], 0)"
    by (simp_all add: dictScan_def shrunk_dict_eq dictSize_def dictIsRehashing_def h scan_next_vals
        big_loop [of 12, folded fuel16]
        bucket_def del: scan_loop.simps)
qed

text \<open>C19: the guarantee fails without the condition: the first call on 16 buckets returns the cursor
  8; then the table starts to shrink to 4 buckets, and the second call, with that cursor, visits the
  buckets 8 and 12 of the large table but never 4 (nor 0), so the key in it is not returned by the
  complete iteration although it is present in every state.\<close>
theorem dictScan_misses_key:
  "scan_run [big_dict, shrunk_dict, shrunk_dict, shrunk_dict, shrunk_dict] 0 = Some ([], 0) \<and>
   dict_map big_dict 4 = Some 0 \<and> dict_map shrunk_dict 4 = Some 0 \<and> dict_wf big_dict \<and> dict_wf shrunk_dict"
proof (intro conjI)
  have d1: "dictScan big_dict 0 = Some ([], 8)"
    by (simp add: dictScan_def big_dict_def dictSize_def dictIsRehashing_def bucket_def scan_next_vals)
  show "scan_run [big_dict, shrunk_dict, shrunk_dict, shrunk_dict, shrunk_dict] 0 = Some ([], 0)"
    by (simp add: d1 shrunk_scans)
  show "dict_map big_dict 4 = Some 0" by (simp add: dict_map_def elist_def big_concat)
  show "dict_map shrunk_dict 4 = Some 0"
    by (simp add: dict_map_def elist_def shrunk_dict_eq big_concat)
  show "dict_wf big_dict" by (rule big_dict_wf)
  have "int 4 < LONG_MAX" by (simp add: LONG_MAX_def)
  from dictExpand_wf [OF big_dict_wf this] show "dict_wf shrunk_dict"
    by (simp add: shrunk_dict_def dictResize_def big_dict_def dictIsRehashing_def Let_def
        DICT_HT_INITIAL_SIZE_def s32_def spat_def upat_def)
qed

section \<open>Witnesses\<close>

definition small_dict :: "(32 word, nat) dict" where
  "small_dict = \<lparr>dtype = id_type, ht0 = \<lparr>table = [[], [(1, 7)], [], []], htsize = 4, sizemask = 3, used = 1\<rparr>,
     ht1 = dictReset, rehashidx = - 1, iterators = 0\<rparr>"

lemma small_dict_wf: "dict_wf small_dict"
proof -
  have "ht_ok id_type (ht0 small_dict)"
    unfolding ht_ok_def
  proof (intro conjI)
    show "\<exists>b \<le> 63. htsize (ht0 small_dict) = 2 ^ b \<and> sizemask (ht0 small_dict) = 2 ^ b - 1"
      by (rule ex_le63 [of 2]) (simp_all add: small_dict_def)
    show "\<forall>i < htsize (ht0 small_dict). \<forall>e \<in> set (table (ht0 small_dict) ! i).
        slot (hashFunction id_type (fst e)) (sizemask (ht0 small_dict)) = i"
    proof (intro allI impI ballI)
      fix i and e :: "32 word \<times> nat"
      assume i: "i < htsize (ht0 small_dict)" and e: "e \<in> set (table (ht0 small_dict) ! i)"
      then consider "i = 0" | "i = 1" | "i = 2" | "i = 3" by (fastforce simp: small_dict_def)
      then show "slot (hashFunction id_type (fst e)) (sizemask (ht0 small_dict)) = i"
        using e by cases (simp_all add: small_dict_def id_type_def slot_def)
    qed
  qed (simp_all add: small_dict_def)
  then show ?thesis
    by (simp add: dict_wf_def dictIsRehashing_def elist_def) (simp add: small_dict_def id_type_def)
qed

lemma small_scans:
  "dictScan small_dict 0 = Some ([], 2)" "dictScan small_dict 2 = Some ([], 1)"
  "dictScan small_dict 1 = Some ([(1, 7)], 3)" "dictScan small_dict 3 = Some ([], 0)"
  by (simp_all add: dictScan_def small_dict_def dictSize_def dictIsRehashing_def bucket_def scan_next_vals)

lemma dictScan_complete_witness: "(1 :: 32 word) \<in> fst ` set [(1 :: 32 word, 7 :: nat)]"
proof (rule dictScan_complete)
  show "[small_dict, small_dict, small_dict, small_dict] \<noteq> []" by simp
  show "scan_run [small_dict, small_dict, small_dict, small_dict] 0 = Some ([(1, 7)], 0)"
    by (simp add: small_scans)
  show "fits_run [small_dict, small_dict, small_dict, small_dict] 0"
    by (simp add: small_scans scan_fits_def) (simp add: small_dict_def dictIsRehashing_def)
  show "\<forall>d \<in> set [small_dict, small_dict, small_dict, small_dict].
      dict_wf d \<and> dict_map d 1 \<noteq> None \<and> hash64 d 1 = 1"
    by (simp add: small_dict_wf) (simp add: dict_map_def elist_def small_dict_def hash64_def dictHashKey_def id_type_def)
qed

lemma dictScan_terminates_witness:
  "\<exists>es. scan_run (replicate 4 small_dict) 0 = Some (es, 0) \<and> set es = {(1, 7)}"
  using dictScan_terminates [OF small_dict_wf]
  by (simp add: elist_def) (simp add: small_dict_def dictIsRehashing_def)

end
