(* ===== verification/Dict_Iter.thy ===== *)
theory Dict_Iter
  imports Dict Util
begin

text \<open>
  The remaining parts of \<^verbatim>\<open>dict.c\<close>: the hash functions, the iterators with their fingerprint, the
  choice of a random entry and rehashing against the clock. An iterator keeps the rest of the chain
  it is in (the code's \<open>entry\<close> and \<open>nextEntry\<close>); the dictionary is not changed between the calls
  except for its counter of iterators. The results of \<open>random\<close> and of the clock are arguments.
\<close>

section \<open>Hash functions\<close>

definition dictIntHashFunction :: "32 word \<Rightarrow> 32 word" where
  "dictIntHashFunction key =
     (let key = key + NOT (push_bit 15 key);
          key = key XOR drop_bit 10 key;
          key = key + push_bit 3 key;
          key = key XOR drop_bit 6 key;
          key = key + NOT (push_bit 11 key);
          key = key XOR drop_bit 16 key
      in key)"

definition dictIdentityHashFunction :: "32 word \<Rightarrow> 32 word" where
  "dictIdentityHashFunction key = key"

text \<open>MurmurHash2. \<open>be\<close> is the byte order in which four bytes of the key are read as a word.\<close>

function murmur_blocks :: "bool \<Rightarrow> bytes \<Rightarrow> nat \<Rightarrow> nat \<Rightarrow> 32 word \<Rightarrow> (32 word \<times> nat \<times> nat) option" where
  "murmur_blocks be m off n h =
     (if n \<ge> 4 then
        (case mread m (int off) 4 of
           None \<Rightarrow> None
         | Some b \<Rightarrow>
             let k = of_nat (host_val be b) * 0x5bd1e995;
                 k = k XOR drop_bit 24 k;
                 k = k * 0x5bd1e995;
                 h = h * 0x5bd1e995;
                 h = h XOR k
             in murmur_blocks be m (off + 4) (n - 4) h)
      else Some (h, off, n))"
  by pat_completeness auto
termination by (relation "measure (\<lambda>(be, m, off, n, h). n)") auto

declare murmur_blocks.simps [simp del]

definition byte_at :: "bytes \<Rightarrow> nat \<Rightarrow> 32 word option" where
  "byte_at m i = (if i < length m then Some (ucast (m ! i)) else None)"

text \<open>The cases of the switch fall through.\<close>

definition murmur_tail :: "bytes \<Rightarrow> nat \<Rightarrow> nat \<Rightarrow> 32 word \<Rightarrow> 32 word option" where
  "murmur_tail m off n h = do {
     h \<leftarrow> (if n = 3 then do { b \<leftarrow> byte_at m (off + 2); Some (h XOR push_bit 16 b) } else Some h);
     h \<leftarrow> (if n = 3 \<or> n = 2 then do { b \<leftarrow> byte_at m (off + 1); Some (h XOR push_bit 8 b) } else Some h);
     (if n = 3 \<or> n = 2 \<or> n = 1 then do { b \<leftarrow> byte_at m off; Some ((h XOR b) * 0x5bd1e995) } else Some h) }"

definition dictGenHashFunction :: "bool \<Rightarrow> 32 word \<Rightarrow> bytes \<Rightarrow> nat \<Rightarrow> 32 word option" where
  "dictGenHashFunction be seed key n = do {
     (h, off, n) \<leftarrow> murmur_blocks be key 0 n (seed XOR of_nat n);
     h \<leftarrow> murmur_tail key off n h;
     let h = h XOR drop_bit 13 h;
         h = h * 0x5bd1e995;
         h = h XOR drop_bit 15 h
     in Some h }"

fun dictGenCaseHashFunction :: "32 word \<Rightarrow> bytes \<Rightarrow> nat \<Rightarrow> 32 word option" where
  "dictGenCaseHashFunction hash buf 0 = Some hash"
| "dictGenCaseHashFunction hash [] (Suc n) = None"
| "dictGenCaseHashFunction hash (c # buf) (Suc n) =
     dictGenCaseHashFunction ((push_bit 5 hash + hash) + ucast (tolower c)) buf n"

lemma murmur_blocks_some:
  "off + n \<le> length m \<Longrightarrow> \<exists>h' off' n'. murmur_blocks be m off n h = Some (h', off', n') \<and>
     off' + n' = off + n \<and> n' < 4"
proof (induction be m off n h rule: murmur_blocks.induct)
  case (1 be m off n h)
  show ?case
  proof (cases "n \<ge> 4")
    case True
    with 1(2) have "mread m (int off) 4 = Some (take 4 (drop off m))" by (simp add: mread_def)
    with 1 True show ?thesis by (subst murmur_blocks.simps) (fastforce simp: Let_def)
  next
    case False
    then show ?thesis by (subst murmur_blocks.simps) auto
  qed
qed

lemma dictGenHashFunction_in_bounds: "n \<le> length key \<Longrightarrow> \<exists>h. dictGenHashFunction be seed key n = Some h"
  using murmur_blocks_some [of 0 n key be "seed XOR of_nat n"]
  by (fastforce simp: dictGenHashFunction_def murmur_tail_def byte_at_def Let_def)

lemma dictGenCaseHashFunction_case:
  "map tolower x = map tolower y \<Longrightarrow> n = length x \<Longrightarrow>
   dictGenCaseHashFunction h x n = dictGenCaseHashFunction h y n"
proof (induction h x n arbitrary: y rule: dictGenCaseHashFunction.induct)
  case (3 hash c buf n)
  then obtain c' y' where "y = c' # y'" "tolower c = tolower c'" "map tolower buf = map tolower y'" by auto
  with 3 show ?case by simp
qed auto

section \<open>Iterators\<close>

definition fp_step :: "64 word \<Rightarrow> 64 word \<Rightarrow> 64 word" where
  "fp_step hash i =
     (let hash = hash + i;
          hash = NOT hash + push_bit 21 hash;
          hash = hash XOR signed_drop_bit 24 hash;
          hash = (hash + push_bit 3 hash) + push_bit 8 hash;
          hash = hash XOR signed_drop_bit 14 hash;
          hash = (hash + push_bit 2 hash) + push_bit 4 hash;
          hash = hash XOR signed_drop_bit 28 hash
      in hash + push_bit 31 hash)"

text \<open>\<open>a0\<close> and \<open>a1\<close> are the addresses of the two tables.\<close>

definition dictFingerprint :: "64 word \<Rightarrow> 64 word \<Rightarrow> ('k, 'v) dict \<Rightarrow> 64 word" where
  "dictFingerprint a0 a1 d =
     foldl fp_step 0 [a0, of_nat (htsize (ht0 d)), of_nat (used (ht0 d)),
                      a1, of_nat (htsize (ht1 d)), of_nat (used (ht1 d))]"

record ('k, 'v) dictIterator =
  itable :: nat
  iindex :: int
  isafe :: bool
  ientry :: "('k, 'v) chain"
  inext :: "('k, 'v) chain"
  ifp :: "64 word"

definition dictGetIterator :: "('k, 'v) dictIterator" where
  "dictGetIterator = \<lparr>itable = 0, iindex = - 1, isafe = False, ientry = [], inext = [], ifp = 0\<rparr>"

definition dictGetSafeIterator :: "('k, 'v) dictIterator" where
  "dictGetSafeIterator = dictGetIterator\<lparr>isafe := True\<rparr>"

definition iter_ht :: "('k, 'v) dict \<Rightarrow> ('k, 'v) dictIterator \<Rightarrow> ('k, 'v) dictht" where
  "iter_ht d it = (if itable it = 0 then ht0 d else ht1 d)"

text \<open>The first call registers a safe iterator, or takes the fingerprint for an unsafe one.\<close>

definition iter_start ::
  "64 word \<Rightarrow> 64 word \<Rightarrow> ('k, 'v) dict \<Rightarrow> ('k, 'v) dictIterator \<Rightarrow> ('k, 'v) dict \<times> ('k, 'v) dictIterator" where
  "iter_start a0 a1 d it =
     (if iindex it = - 1 \<and> itable it = 0 then
        if isafe it then (d\<lparr>iterators := iterators d + 1\<rparr>, it)
        else (d, it\<lparr>ifp := dictFingerprint a0 a1 d\<rparr>)
      else (d, it))"

function (sequential) dictNext ::
  "64 word \<Rightarrow> 64 word \<Rightarrow> ('k, 'v) dict \<Rightarrow> ('k, 'v) dictIterator \<Rightarrow>
   (('k, 'v) dict \<times> ('k, 'v) dictIterator \<times> ('k \<times> 'v) option) option" where
  "dictNext a0 a1 d it =
     (if ientry it = [] then
        let (d, it) = iter_start a0 a1 d it; i = iindex it + 1 in
        if i \<ge> int (htsize (iter_ht d it)) then
          if dictIsRehashing d \<and> itable it = 0 then
            (case bucket (ht1 d) 0 of
               None \<Rightarrow> None
             | Some [] \<Rightarrow> dictNext a0 a1 d (it\<lparr>itable := 1, iindex := 0, ientry := []\<rparr>)
             | Some (e # es) \<Rightarrow> Some (d, it\<lparr>itable := 1, iindex := 0, ientry := e # es, inext := es\<rparr>, Some e))
          else Some (d, it\<lparr>iindex := i\<rparr>, None)
        else
          (case bucket (iter_ht d it) (nat i) of
             None \<Rightarrow> None
           | Some [] \<Rightarrow> dictNext a0 a1 d (it\<lparr>iindex := i, ientry := []\<rparr>)
           | Some (e # es) \<Rightarrow> Some (d, it\<lparr>iindex := i, ientry := e # es, inext := es\<rparr>, Some e))
      else
        (case inext it of
           [] \<Rightarrow> dictNext a0 a1 d (it\<lparr>ientry := []\<rparr>)
         | e # es \<Rightarrow> Some (d, it\<lparr>ientry := e # es, inext := es\<rparr>, Some e)))"
  by pat_completeness auto
termination
  by (relation "measures [\<lambda>(a0, a1, d, it). 1 - itable it, \<lambda>(a0, a1, d, it). nat (int (htsize (iter_ht d it)) - iindex it),
      \<lambda>(a0, a1, d, it). length (ientry it)]")
    (auto simp: iter_start_def iter_ht_def split: if_splits)

declare dictNext.simps [simp del]

text \<open>The assertion on the fingerprint aborts.\<close>

definition dictReleaseIterator ::
  "64 word \<Rightarrow> 64 word \<Rightarrow> ('k, 'v) dict \<Rightarrow> ('k, 'v) dictIterator \<Rightarrow> ('k, 'v) dict option" where
  "dictReleaseIterator a0 a1 d it =
     (if \<not> (iindex it = - 1 \<and> itable it = 0) then
        if isafe it then Some (d\<lparr>iterators := iterators d - 1\<rparr>)
        else if ifp it = dictFingerprint a0 a1 d then Some d else None
      else Some d)"

text \<open>The loop of every client: call \<open>dictNext\<close> until it returns \<open>NULL\<close>, then release.\<close>

fun iterate ::
  "nat \<Rightarrow> 64 word \<Rightarrow> 64 word \<Rightarrow> ('k, 'v) dict \<Rightarrow> ('k, 'v) dictIterator \<Rightarrow> (('k, 'v) dict \<times> ('k, 'v) chain) option" where
  "iterate 0 a0 a1 d it = None"
| "iterate (Suc n) a0 a1 d it = do {
     (d, it, r) \<leftarrow> dictNext a0 a1 d it;
     (case r of
        None \<Rightarrow> do { d \<leftarrow> dictReleaseIterator a0 a1 d it; Some (d, []) }
      | Some e \<Rightarrow> do { (d, es) \<leftarrow> iterate n a0 a1 d it; Some (d, e # es) }) }"

definition first_call :: "('k, 'v) dictIterator \<Rightarrow> bool" where
  "first_call it \<longleftrightarrow> iindex it = - 1 \<and> itable it = 0"

definition iter_ok :: "('k, 'v) dict \<Rightarrow> ('k, 'v) dictIterator \<Rightarrow> bool" where
  "iter_ok d it \<longleftrightarrow> - 1 \<le> iindex it \<and> (itable it = 0 \<or> itable it = 1 \<and> dictIsRehashing d \<and> 0 \<le> iindex it) \<and>
     (first_call it \<longrightarrow> ientry it = []) \<and>
     length (table (ht0 d)) = htsize (ht0 d) \<and> length (table (ht1 d)) = htsize (ht1 d) \<and>
     (dictIsRehashing d \<longrightarrow> table (ht1 d) \<noteq> [])"

text \<open>The entries an iterator has still to return.\<close>

definition iter_rest :: "('k, 'v) dict \<Rightarrow> ('k, 'v) dictIterator \<Rightarrow> ('k, 'v) chain" where
  "iter_rest d it = (if ientry it = [] then [] else inext it) @
     concat (drop (nat (iindex it + 1)) (table (iter_ht d it))) @
     (if itable it = 0 \<and> dictIsRehashing d then concat (table (ht1 d)) else [])"

definition next_result :: "('k, 'v) chain \<Rightarrow> ('k \<times> 'v) option" where
  "next_result r = (case r of [] \<Rightarrow> None | e # _ \<Rightarrow> Some e)"

lemma iter_start_tables:
  assumes "iter_start a0 a1 d it = (d1, it1)"
  shows "ht0 d1 = ht0 d" "ht1 d1 = ht1 d" "dictIsRehashing d1 = dictIsRehashing d"
    "itable it1 = itable it" "iindex it1 = iindex it" "ientry it1 = ientry it" "inext it1 = inext it" "isafe it1 = isafe it"
  using assms by (auto simp: iter_start_def dictIsRehashing_def split: if_splits)

lemma iter_start_notfirst: "\<not> first_call it \<Longrightarrow> iter_start a0 a1 d it = (d, it)"
  by (auto simp: iter_start_def first_call_def)

definition next_spec where
  "next_spec a0 a1 d it \<longleftrightarrow> (\<exists>it'. dictNext a0 a1 d it =
       Some (fst (iter_start a0 a1 d it), it', next_result (iter_rest d it)) \<and>
     iter_ok d it' \<and> \<not> first_call it' \<and> isafe it' = isafe it \<and> ifp it' = ifp (snd (iter_start a0 a1 d it)) \<and>
     (iter_rest d it \<noteq> [] \<longrightarrow> iter_rest d it' = tl (iter_rest d it)))"

lemma next_specI:
  assumes "dictNext a0 a1 d it = Some (d1, it', next_result (iter_rest d it))"
    and "d1 = fst (iter_start a0 a1 d it)" "iter_ok d it'" "\<not> first_call it'" "isafe it' = isafe it"
    and "ifp it' = ifp (snd (iter_start a0 a1 d it))"
    and "iter_rest d it \<noteq> [] \<Longrightarrow> iter_rest d it' = tl (iter_rest d it)"
  shows "next_spec a0 a1 d it"
  using assms unfolding next_spec_def by blast

text \<open>A call that finds an empty chain continues like a call on the advanced iterator.\<close>

lemma next_spec_step:
  assumes "dictNext a0 a1 d it = dictNext a0 a1 d1 it1" and s: "iter_start a0 a1 d it = (d1, it0)"
    and "\<not> first_call it1" "isafe it1 = isafe it" "ifp it1 = ifp it0"
    and "iter_rest d1 it1 = iter_rest d it" and "next_spec a0 a1 d1 it1"
  shows "next_spec a0 a1 d it"
proof -
  note t = iter_start_tables [OF s]
  have ok: "iter_ok d1 x = iter_ok d x" "iter_rest d1 x = iter_rest d x" for x
    by (simp_all add: iter_ok_def iter_rest_def iter_ht_def t)
  show ?thesis
    using assms(7) unfolding next_spec_def assms(1) iter_start_notfirst [OF assms(3)] ok
    using assms(4,5,6) s by (simp add: ok)
qed

lemma drop_cons: "i < length t \<Longrightarrow> concat (drop i t) = t ! i @ concat (drop (Suc i) t)"
  by (subst Cons_nth_drop_Suc [symmetric]) auto

lemma dictNext_ok: "iter_ok d it \<Longrightarrow> next_spec a0 a1 d it"
proof (induction a0 a1 d it rule: dictNext.induct)
  case (1 a0 a1 d it)
  note ok = 1(4) [unfolded iter_ok_def]
  show ?case
  proof (cases "ientry it = []")
    case False
    then have nf: "\<not> first_call it" using ok by blast
    note st = iter_start_notfirst [OF nf]
    show ?thesis
    proof (cases "inext it")
      case Nil
      let ?it = "it\<lparr>ientry := []\<rparr>"
      have p: "iter_ok d ?it" "\<not> first_call ?it" "iter_rest d ?it = iter_rest d it"
        using ok nf Nil by (auto simp: iter_ok_def first_call_def iter_rest_def iter_ht_def)
      have e: "dictNext a0 a1 d it = dictNext a0 a1 d ?it"
        using False Nil by (subst dictNext.simps) simp
      show ?thesis
        by (rule next_spec_step [OF e st p(2) _ _ p(3) 1(3) [OF False Nil p(1)]]) simp_all
    next
      case (Cons e es)
      let ?it = "it\<lparr>ientry := e # es, inext := es\<rparr>"
      have "dictNext a0 a1 d it = Some (d, ?it, Some e)"
        using False Cons by (subst dictNext.simps) simp
      moreover have "iter_rest d it = e # iter_rest d ?it" if "es \<noteq> []"
        using False Cons that by (simp add: iter_rest_def iter_ht_def)
      ultimately show ?thesis using False Cons ok nf st
        by (intro next_specI [of _ _ _ _ d ?it]) (auto simp: next_result_def iter_rest_def iter_ht_def iter_ok_def first_call_def)
    qed
  next
    case True
    obtain d1 it0 where st: "iter_start a0 a1 d it = (d1, it0)" by fastforce
    note t = iter_start_tables [OF st]
    let ?i = "iindex it + 1" and ?h = "iter_ht d it"
    have h: "iter_ht d1 it0 = ?h" by (simp add: iter_ht_def t)
    have len: "length (table ?h) = htsize ?h" using ok by (simp add: iter_ht_def)
    have un: "dictNext a0 a1 d it =
       (if ?i \<ge> int (htsize ?h) then
          if dictIsRehashing d \<and> itable it = 0 then
            (case bucket (ht1 d) 0 of
               None \<Rightarrow> None
             | Some [] \<Rightarrow> dictNext a0 a1 d1 (it0\<lparr>itable := 1, iindex := 0, ientry := []\<rparr>)
             | Some (e # es) \<Rightarrow> Some (d1, it0\<lparr>itable := 1, iindex := 0, ientry := e # es, inext := es\<rparr>, Some e))
          else Some (d1, it0\<lparr>iindex := ?i\<rparr>, None)
        else
          (case bucket ?h (nat ?i) of
             None \<Rightarrow> None
           | Some [] \<Rightarrow> dictNext a0 a1 d1 (it0\<lparr>iindex := ?i, ientry := []\<rparr>)
           | Some (e # es) \<Rightarrow> Some (d1, it0\<lparr>iindex := ?i, ientry := e # es, inext := es\<rparr>, Some e)))"
      using True by (subst dictNext.simps) (simp add: st t h Let_def cong: if_cong option.case_cong list.case_cong)
    have i0: "0 \<le> ?i" using ok by simp
    show ?thesis
    proof (cases "?i \<ge> int (htsize ?h)")
      case ge: True
      then have dr: "drop (nat ?i) (table ?h) = []" using len by simp
      show ?thesis
      proof (cases "dictIsRehashing d \<and> itable it = 0")
        case re: True
        then have ne: "table (ht1 d) \<noteq> []" using ok by blast
        then have b: "bucket (ht1 d) 0 = Some (table (ht1 d) ! 0)"
          and c: "concat (table (ht1 d)) = table (ht1 d) ! 0 @ concat (drop 1 (table (ht1 d)))"
          using drop_cons [of 0 "table (ht1 d)"] by (auto simp: bucket_def)
        have r: "iter_rest d it = table (ht1 d) ! 0 @ concat (drop 1 (table (ht1 d)))"
          using True re by (simp add: iter_rest_def dr c)
        show ?thesis
        proof (cases "table (ht1 d) ! 0")
          case Nil
          let ?it = "it0\<lparr>itable := 1, iindex := 0, ientry := []\<rparr>"
          have p: "iter_ok d1 ?it" "\<not> first_call ?it" "iter_rest d1 ?it = iter_rest d it"
            using ok re Nil r by (auto simp: iter_ok_def first_call_def iter_rest_def iter_ht_def t)
          have e: "dictNext a0 a1 d it = dictNext a0 a1 d1 ?it"
            using ge re b Nil by (simp add: un)
          have n: "next_spec a0 a1 d1 ?it"
            using 1(1) [OF True st [symmetric] refl refl] ge re b Nil p(1) by (simp add: t h)
          show ?thesis by (rule next_spec_step [OF e st p(2) _ _ p(3) n]) (simp_all add: t(8))
        next
          case (Cons e es)
          let ?it = "it0\<lparr>itable := 1, iindex := 0, ientry := e # es, inext := es\<rparr>"
          have e: "dictNext a0 a1 d it = Some (d1, ?it, next_result (iter_rest d it))"
            using ge re b Cons by (simp add: un r next_result_def)
          show ?thesis
          proof (rule next_specI [OF e])
            show "iter_ok d ?it" using ok re by (auto simp: iter_ok_def first_call_def t)
            show "iter_rest d ?it = tl (iter_rest d it)"
              unfolding r Cons by (simp add: iter_rest_def iter_ht_def t)
          qed (simp_all add: st t first_call_def)
        qed
      next
        case nre: False
        let ?it = "it0\<lparr>iindex := ?i\<rparr>"
        have "iter_rest d it = []" using True nre dr by (auto simp: iter_rest_def)
        moreover have "dictNext a0 a1 d it = Some (d1, ?it, None)" using ge nre by (auto simp: un)
        ultimately show ?thesis using ok i0 st t True
          by (intro next_specI [of _ _ _ _ d1 ?it]) (auto simp: next_result_def iter_ok_def first_call_def)
      qed
    next
      case lt: False
      then have il: "nat ?i < length (table ?h)" using i0 len by simp
      then have b: "bucket ?h (nat ?i) = Some (table ?h ! nat ?i)" by (simp add: bucket_def)
      have nn: "nat (?i + 1) = Suc (nat ?i)" using i0 by simp
      have r: "iter_rest d it = table ?h ! nat ?i @ concat (drop (nat (?i + 1)) (table ?h)) @
          (if itable it = 0 \<and> dictIsRehashing d then concat (table (ht1 d)) else [])"
        using True drop_cons [OF il] unfolding nn by (simp add: iter_rest_def)
      show ?thesis
      proof (cases "table ?h ! nat ?i")
        case Nil
        let ?it = "it0\<lparr>iindex := ?i, ientry := []\<rparr>"
        have p: "iter_ok d1 ?it" "\<not> first_call ?it" "iter_rest d1 ?it = iter_rest d it"
          using ok i0 Nil r by (auto simp: iter_ok_def first_call_def iter_rest_def iter_ht_def t)
        have e: "dictNext a0 a1 d it = dictNext a0 a1 d1 ?it"
          using lt b Nil by (simp add: un)
        have n: "next_spec a0 a1 d1 ?it"
          using 1(2) [OF True st [symmetric] refl refl] lt b Nil p(1) by (simp add: t h)
        show ?thesis by (rule next_spec_step [OF e st p(2) _ _ p(3) n]) (simp_all add: t(8))
      next
        case (Cons e es)
        let ?it = "it0\<lparr>iindex := ?i, ientry := e # es, inext := es\<rparr>"
        have e: "dictNext a0 a1 d it = Some (d1, ?it, next_result (iter_rest d it))"
          using lt b Cons by (simp add: un r next_result_def)
        show ?thesis
        proof (rule next_specI [OF e])
          show "iter_ok d ?it" using ok i0 by (auto simp: iter_ok_def first_call_def t)
          show "\<not> first_call ?it" using i0 by (simp add: first_call_def)
          show "iter_rest d ?it = tl (iter_rest d it)"
            unfolding r Cons by (simp add: iter_rest_def iter_ht_def t)
        qed (simp_all add: st t)
      qed
    qed
  qed
qed

lemma iterate_Some:
  "dictNext a0 a1 d it = Some (d', it', Some e) \<Longrightarrow> iterate n a0 a1 d' it' = Some (d'', es) \<Longrightarrow>
   iterate (Suc n) a0 a1 d it = Some (d'', e # es)"
  by simp

lemma iterate_rest:
  "iter_ok d it \<Longrightarrow> \<not> first_call it \<Longrightarrow> isafe it \<or> ifp it = dictFingerprint a0 a1 d \<Longrightarrow>
   iterate (Suc (length (iter_rest d it))) a0 a1 d it =
     Some (if isafe it then d\<lparr>iterators := iterators d - 1\<rparr> else d, iter_rest d it)"
proof (induction "iter_rest d it" arbitrary: it)
  case Nil
  from dictNext_ok [OF Nil(2), of a0 a1] Nil obtain it' where
    "dictNext a0 a1 d it = Some (d, it', None)" "\<not> first_call it'" "isafe it' = isafe it" "ifp it' = ifp it"
    by (auto simp: next_spec_def iter_start_notfirst next_result_def)
  with Nil show ?case by (auto simp: dictReleaseIterator_def first_call_def)
next
  case (Cons e r)
  from dictNext_ok [OF Cons(3), of a0 a1, unfolded next_spec_def iter_start_notfirst [OF Cons(4)] Cons(2) [symmetric]]
  obtain it' where
    "dictNext a0 a1 d it = Some (d, it', Some e)" "iter_ok d it'" "\<not> first_call it'" "isafe it' = isafe it"
    "ifp it' = ifp it" "iter_rest d it' = r"
    by (auto simp: next_result_def)
  note n = this
  have "iterate (Suc (length (iter_rest d it'))) a0 a1 d it' =
      Some (if isafe it' then d\<lparr>iterators := iterators d - 1\<rparr> else d, iter_rest d it')"
    by (rule Cons(1) [OF n(6) [symmetric] n(2,3)]) (simp only: n(4,5) Cons(5))
  then have "iterate (Suc (length r)) a0 a1 d it' = Some (if isafe it then d\<lparr>iterators := iterators d - 1\<rparr> else d, r)"
    unfolding n(4,6) .
  with n(1) show ?case unfolding Cons(2) [symmetric] by (simp only: length_Cons) (rule iterate_Some)
qed

lemma dictFingerprint_iterators [simp]: "dictFingerprint a0 a1 (d\<lparr>iterators := n\<rparr>) = dictFingerprint a0 a1 d"
  by (simp add: dictFingerprint_def)

lemma wf_lengths: "dict_wf d \<Longrightarrow> length (table (ht0 d)) = htsize (ht0 d) \<and> length (table (ht1 d)) = htsize (ht1 d) \<and>
   (dictIsRehashing d \<longrightarrow> table (ht1 d) \<noteq> [])"
  by (auto simp: dict_wf_def ht_ok_def split: if_splits)

lemma iterate_fresh:
  assumes wf: "dict_wf d" and f: "first_call it" "ientry it = []"
  shows "iterate (Suc (length (elist d))) a0 a1 d it = Some (d, elist d)"
proof -
  have ok: "iter_ok d it" using wf_lengths [OF wf] f by (auto simp: iter_ok_def first_call_def)
  have r: "iter_rest d it = elist d"
    using wf f by (auto simp: iter_rest_def first_call_def iter_ht_def elist_def dict_wf_def split: if_splits)
  obtain d1 it0 where st: "iter_start a0 a1 d it = (d1, it0)" by fastforce
  have d1: "isafe it \<Longrightarrow> d1 = d\<lparr>iterators := iterators d + 1\<rparr>" "\<not> isafe it \<Longrightarrow> d1 = d \<and> ifp it0 = dictFingerprint a0 a1 d"
    using st f by (auto simp: iter_start_def first_call_def split: if_splits)
  note t = iter_start_tables [OF st]
  have sub: "iter_ok d1 x = iter_ok d x" "iter_rest d1 x = iter_rest d x" for x
    by (simp_all add: iter_ok_def iter_rest_def iter_ht_def t)
  from dictNext_ok [OF ok, of a0 a1] obtain it' where it':
    "dictNext a0 a1 d it = Some (d1, it', next_result (elist d))" "iter_ok d it'" "\<not> first_call it'"
    "isafe it' = isafe it" "ifp it' = ifp it0" "elist d \<noteq> [] \<longrightarrow> iter_rest d it' = tl (elist d)"
    by (auto simp: next_spec_def st r)
  show ?thesis
  proof (cases "elist d")
    case Nil
    then show ?thesis using it' d1
      by (cases "isafe it") (auto simp: next_result_def dictReleaseIterator_def first_call_def)
  next
    case (Cons e es)
    have "iterate (Suc (length (iter_rest d1 it'))) a0 a1 d1 it' =
        Some (if isafe it' then d1\<lparr>iterators := iterators d1 - 1\<rparr> else d1, iter_rest d1 it')"
      by (rule iterate_rest) (use it'(2-5) d1 in \<open>auto simp: sub\<close>)
    moreover have "iter_rest d1 it' = es" using it'(6) Cons by (simp add: sub)
    moreover have "(if isafe it' then d1\<lparr>iterators := iterators d1 - 1\<rparr> else d1) = d"
      using d1 it'(4) by (cases "isafe it") auto
    ultimately have "iterate (Suc (length es)) a0 a1 d1 it' = Some (d, es)" by (simp only:)
    moreover have "dictNext a0 a1 d it = Some (d1, it', Some e)" using it'(1) Cons by (simp add: next_result_def)
    ultimately show ?thesis unfolding Cons length_Cons by (intro iterate_Some)
  qed
qed



section \<open>A random entry\<close>

text \<open>The bucket is drawn until it is not empty; the successive results of \<open>random\<close> are the list
  \<open>rs\<close>, and running out of them is \<^term>\<open>None\<close>.\<close>

fun random_bucket :: "('k, 'v) dict \<Rightarrow> nat list \<Rightarrow> (('k, 'v) chain \<times> nat list) option" where
  "random_bucket d [] = None"
| "random_bucket d (r # rs) = do {
     he \<leftarrow> (if dictIsRehashing d then
             let h = r mod (htsize (ht0 d) + htsize (ht1 d)) in
             if h \<ge> htsize (ht0 d) then bucket (ht1 d) (h - htsize (ht0 d)) else bucket (ht0 d) h
           else bucket (ht0 d) (r AND sizemask (ht0 d)));
     if he = [] then random_bucket d rs else Some (he, rs) }"

definition dictGetRandomKey :: "('k, 'v) dict \<Rightarrow> nat list \<Rightarrow> (('k, 'v) dict \<times> ('k \<times> 'v) option) option" where
  "dictGetRandomKey d rs =
     (if dictSize d = 0 then Some (d, None)
      else do {
        d \<leftarrow> rehash_step_if d;
        (he, rs) \<leftarrow> random_bucket d rs;
        (case rs of [] \<Rightarrow> None | r # _ \<Rightarrow> Some (d, Some (he ! (r mod length he)))) })"

lemma random_bucket_sub:
  "random_bucket d rs = Some (he, rs') \<Longrightarrow> he \<noteq> [] \<and> set he \<subseteq> set (elist d)"
proof (induction d rs rule: random_bucket.induct)
  case (2 d r rs)
  then show ?case
    by (auto simp: bucket_def elist_def Let_def split: if_splits Option.bind_splits)
qed simp

lemma dictGetRandomKey_in:
  assumes "dict_wf d" "dictGetRandomKey d rs = Some (d', Some e)"
  shows "e \<in> set (elist d)"
proof -
  from rehash_step_ok [OF assms(1)] obtain d1 where d1: "rehash_step_if d = Some d1" "same_entries d d1" by blast
  from assms(2) d1(1) obtain he rs' r where "random_bucket d1 rs = Some (he, rs')" "e = he ! (r mod length he)"
    by (auto simp: dictGetRandomKey_def split: if_splits Option.bind_splits list.splits)
  with random_bucket_sub [of d1 rs he rs'] have "e \<in> set he" "set he \<subseteq> set (elist d1)" by auto
  then have "e \<in> set (elist d1)" by blast
  then show ?thesis using d1(2) by (auto simp: same_entries_def dest!: mset_eq_setD)
qed

section \<open>Rehashing against the clock\<close>

text \<open>\<open>clock i\<close> is the result of the \<open>i\<close>-th call of \<open>timeInMilliseconds\<close>. The loop ends at the
  latest when the dictionary is rehashed; \<open>fuel\<close> bounds it.\<close>

fun rehash_ms_loop ::
  "nat \<Rightarrow> (nat \<Rightarrow> int) \<Rightarrow> nat \<Rightarrow> int \<Rightarrow> int \<Rightarrow> ('k, 'v) dict \<Rightarrow> int \<Rightarrow> (('k, 'v) dict \<times> int) option" where
  "rehash_ms_loop 0 clock i start ms d rehashes = None"
| "rehash_ms_loop (Suc n) clock i start ms d rehashes = do {
     (d, more) \<leftarrow> dictRehash d 100;
     if \<not> more then Some (d, rehashes)
     else if clock i - start > ms then Some (d, rehashes + 100)
     else rehash_ms_loop n clock (i + 1) start ms d (rehashes + 100) }"

definition dictRehashMilliseconds ::
  "nat \<Rightarrow> (nat \<Rightarrow> int) \<Rightarrow> ('k, 'v) dict \<Rightarrow> int \<Rightarrow> (('k, 'v) dict \<times> int) option" where
  "dictRehashMilliseconds fuel clock d ms = rehash_ms_loop fuel clock 1 (clock 0) ms d 0"

end
