(* ===== verification/Object.thy ===== *)
theory Object
  imports Sds
begin

text \<open>
  String objects (\<open>object.c\<close>): a string value is either a raw sds string or, when it is the decimal
  text of a \<open>long\<close>, the number itself. Objects are values here; reference counts, which only decide
  when memory is released and whether a copy is made first, do not appear, except that
  \<open>tryObjectEncoding\<close> is told whether its object is shared. Raw strings are byte strings; the theory
  Sds relates them to the memory representation.
\<close>

datatype sobj = Raw bytes | IntEnc int

text \<open>The text of a string object: what \<open>getDecodedObject\<close> leaves in the sds string. The text of an
  encoded number is what \<^const>\<open>ll2string\<close> prints.\<close>

definition getDecodedObject :: "sobj \<Rightarrow> bytes" where
  "getDecodedObject o' = (case o' of Raw s \<Rightarrow> s | IntEnc v \<Rightarrow> ll_repr v)"

definition createStringObjectFromLongLong :: "int \<Rightarrow> sobj" where
  "createStringObjectFromLongLong v = IntEnc v"

definition isObjectRepresentableAsLongLong :: "sobj \<Rightarrow> int option" where
  "isObjectRepresentableAsLongLong o' = (case o' of IntEnc v \<Rightarrow> Some v | Raw s \<Rightarrow> string2ll s)"

text \<open>\<open>shared\<close>: the reference count is above one, so the object is left alone.\<close>

definition tryObjectEncoding :: "bool \<Rightarrow> sobj \<Rightarrow> sobj" where
  "tryObjectEncoding shared o' =
     (case o' of
        IntEnc v \<Rightarrow> o'
      | Raw s \<Rightarrow>
          if shared then o'
          else if length s > 21 then o'
          else (case string2l s of None \<Rightarrow> o' | Some value \<Rightarrow> IntEnc value))"

text \<open>The difference of the lengths is a \<open>size_t\<close> returned as an \<open>int\<close>.\<close>

definition compareStringObjects :: "sobj \<Rightarrow> sobj \<Rightarrow> int" where
  "compareStringObjects a b =
     (let astr = getDecodedObject a; bstr = getDecodedObject b;
          minlen = min (length astr) (length bstr);
          cmp = memcmp (take minlen astr) (take minlen bstr)
      in if cmp = 0 then s32 (int (length astr) - int (length bstr)) else cmp)"

definition equalStringObjects :: "sobj \<Rightarrow> sobj \<Rightarrow> bool" where
  "equalStringObjects a b =
     (case (a, b) of
        (IntEnc v, IntEnc w) \<Rightarrow> v = w
      | _ \<Rightarrow> compareStringObjects a b = 0)"

definition stringObjectLen :: "sobj \<Rightarrow> nat" where
  "stringObjectLen o' = (case o' of Raw s \<Rightarrow> length s | IntEnc v \<Rightarrow> length (ll_repr v))"

section \<open>Numbers given by clients\<close>

text \<open>\<open>strtoll(s, &eptr, 10)\<close> of the C library on a string without nul bytes: the value, what is left
  at \<open>eptr\<close>, and whether \<open>errno\<close> is set to \<open>ERANGE\<close>. Without any digit nothing is consumed.\<close>

definition strtoll :: "bytes \<Rightarrow> int \<times> bytes \<times> bool" where
  "strtoll s =
     (let t = dropWhile isspace s;
          neg = (t \<noteq> [] \<and> hd t = ch CHR ''-'');
          u = (if t \<noteq> [] \<and> (hd t = ch CHR ''-'' \<or> hd t = ch CHR ''+'') then tl t else t);
          ds = takeWhile is_digit u;
          n = int (dec_val ds 0)
      in if ds = [] then (0, s, False)
         else if neg then (max LLONG_MIN (- n), dropWhile is_digit u, - n < LLONG_MIN)
         else (min LLONG_MAX n, dropWhile is_digit u, n > LLONG_MAX))"

text \<open>The characters of an sds string that a C string function sees.\<close>

definition c_string :: "bytes \<Rightarrow> bytes" where
  "c_string s = takeWhile (\<lambda>c. c \<noteq> 0) s"

definition getLongLongFromObject :: "sobj option \<Rightarrow> int option" where
  "getLongLongFromObject o' =
     (case o' of
        None \<Rightarrow> Some 0
      | Some (Raw s) \<Rightarrow>
          let (value, eptr, erange) = strtoll (c_string s) in
          if (c_string s \<noteq> [] \<and> isspace (hd (c_string s))) \<or> eptr \<noteq> [] \<or> erange then None
          else Some value
      | Some (IntEnc v) \<Rightarrow> Some v)"

section \<open>Well-formed objects\<close>

text \<open>The \<open>ptr\<close> field holds a \<open>long\<close>; a raw string is at most 512 megabytes long, the limit the
  protocol parser puts on an argument and the string commands keep.\<close>

definition PROTO_MAX :: nat where "PROTO_MAX = 512 * 1024 * 1024"

definition sobj_ok :: "sobj \<Rightarrow> bool" where
  "sobj_ok o' = (case o' of Raw s \<Rightarrow> length s \<le> PROTO_MAX | IntEnc v \<Rightarrow> srange 8 v)"

lemma sobj_ok_simps [simp]:
  "sobj_ok (Raw s) \<longleftrightarrow> length s \<le> PROTO_MAX"
  "sobj_ok (IntEnc v) \<longleftrightarrow> srange 8 v"
  by (simp_all add: sobj_ok_def)

lemma decoded_simps [simp]:
  "getDecodedObject (Raw s) = s"
  "getDecodedObject (IntEnc v) = ll_repr v"
  by (simp_all add: getDecodedObject_def)

lemma stringObjectLen_eq: "stringObjectLen o' = length (getDecodedObject o')"
  by (simp add: stringObjectLen_def getDecodedObject_def split: sobj.splits)

lemma length_decoded: "sobj_ok o' \<Longrightarrow> length (getDecodedObject o') \<le> PROTO_MAX"
  using length_ll_repr by (cases o') (fastforce simp: PROTO_MAX_def)+

lemma string2ll_ll_repr: "srange 8 v \<Longrightarrow> string2ll (ll_repr v) = Some v"
  using string2ll_repr by blast

lemma string2ll_Some: "string2ll s = Some v \<Longrightarrow> srange 8 v \<and> s = ll_repr v"
  using string2ll_sound by blast

lemma string2l_eq: "string2l s = string2ll s"
  using string2ll_Some [of s] by (auto simp: string2l_def srange_def split: option.splits)

lemma ll_repr_inj: "srange 8 v \<Longrightarrow> srange 8 w \<Longrightarrow> ll_repr v = ll_repr w \<longleftrightarrow> v = w"
  by (metis option.inject string2ll_ll_repr)

lemma tryObjectEncoding_ok:
  "sobj_ok o' \<Longrightarrow> sobj_ok (tryObjectEncoding shared o') \<and>
   getDecodedObject (tryObjectEncoding shared o') = getDecodedObject o'"
  by (auto simp: tryObjectEncoding_def string2l_eq dest: string2ll_Some split: sobj.splits option.splits)

lemma tryObjectEncoding_encodes: "srange 8 v \<Longrightarrow> tryObjectEncoding False (Raw (ll_repr v)) = IntEnc v"
  using length_ll_repr [of v]
  by (auto simp: tryObjectEncoding_def string2l_eq string2ll_ll_repr)

section \<open>Properties\<close>

lemma compareStringObjects_eq_0:
  assumes "sobj_ok a" and "sobj_ok b"
  shows "compareStringObjects a b = 0 \<longleftrightarrow> getDecodedObject a = getDecodedObject b"
proof -
  let ?x = "getDecodedObject a" and ?y = "getDecodedObject b"
  let ?n = "min (length ?x) (length ?y)"
  have l: "s32 (int (length ?x) - int (length ?y)) = int (length ?x) - int (length ?y)"
    using length_decoded [OF assms(1)] length_decoded [OF assms(2)]
    by (intro s32_id) (simp_all add: PROTO_MAX_def)
  have m: "memcmp (take ?n ?x) (take ?n ?y) = 0 \<longleftrightarrow> take ?n ?x = take ?n ?y"
    by (intro memcmp_eq) simp
  show ?thesis
  proof (cases "memcmp (take ?n ?x) (take ?n ?y) = 0")
    case True
    then show ?thesis using m l by (auto simp: compareStringObjects_def Let_def)
  next
    case False
    then have "?x \<noteq> ?y" using m by auto
    with False show ?thesis by (simp add: compareStringObjects_def Let_def)
  qed
qed

text \<open>C31: two string objects are equal for the server exactly when their texts are, whatever their
  encodings; in particular the comparison of two encoded numbers as numbers agrees with the
  comparison of texts.\<close>

theorem equalStringObjects_iff:
  assumes "sobj_ok a" and "sobj_ok b"
  shows "equalStringObjects a b \<longleftrightarrow> getDecodedObject a = getDecodedObject b"
  using compareStringObjects_eq_0 [OF assms] assms
  by (auto simp: equalStringObjects_def ll_repr_inj split: sobj.splits)

theorem equalStringObjects_iff_witness:
  "equalStringObjects (IntEnc 7) (Raw (ll_repr 7)) \<longleftrightarrow> ll_repr 7 = ll_repr 7"
  using equalStringObjects_iff [of "IntEnc 7" "Raw (ll_repr 7)"] length_ll_repr [of 7]
  by (simp add: srange_def PROTO_MAX_def)

text \<open>C24: encoding a string object to save space keeps its text and its length, and every object that
  comes out is well formed; a text is replaced by a number exactly when \<open>string2ll\<close> accepts it.\<close>

theorem tryObjectEncoding_roundtrip:
  assumes "sobj_ok (Raw s)"
  shows "getDecodedObject (tryObjectEncoding False (Raw s)) = s \<and>
     stringObjectLen (tryObjectEncoding False (Raw s)) = length s \<and>
     sobj_ok (tryObjectEncoding False (Raw s)) \<and>
     (tryObjectEncoding False (Raw s) = IntEnc v \<longleftrightarrow> srange 8 v \<and> s = ll_repr v)"
proof -
  have "tryObjectEncoding False (Raw s) = IntEnc v \<Longrightarrow> srange 8 v \<and> s = ll_repr v"
    by (auto simp: tryObjectEncoding_def string2l_eq dest: string2ll_Some
        split: if_splits option.splits)
  then show ?thesis
    using tryObjectEncoding_ok [OF assms, of False] tryObjectEncoding_encodes [of v]
    by (auto simp: stringObjectLen_eq)
qed

theorem tryObjectEncoding_roundtrip_witness:
  "sobj_ok (tryObjectEncoding False (Raw (cstr ''007'')))"
  using tryObjectEncoding_roundtrip [of "cstr ''007''" 0] by (simp add: PROTO_MAX_def)

text \<open>The numbers that a client may write: an optional sign and digits, or nothing at all.\<close>

definition client_number :: "bytes \<Rightarrow> int \<Rightarrow> bool" where
  "client_number s v \<longleftrightarrow>
     s = [] \<and> v = 0 \<or>
     (\<exists>ds. ds \<noteq> [] \<and> (\<forall>c \<in> set ds. is_digit c) \<and> srange 8 v \<and>
        (s = ds \<and> v = int (dec_val ds 0) \<or>
         s = ch CHR ''+'' # ds \<and> v = int (dec_val ds 0) \<or>
         s = ch CHR ''-'' # ds \<and> v = - int (dec_val ds 0)))"

lemma digit_not_space: "is_digit c \<Longrightarrow> \<not> isspace c \<and> c \<noteq> ch CHR ''-'' \<and> c \<noteq> ch CHR ''+''"
  by (auto simp: isspace_def word_le_nat_alt)

lemma sign_not_space: "\<not> isspace (ch CHR ''-'')" "\<not> isspace (ch CHR ''+'')"
  by (simp_all add: isspace_def word_le_nat_alt)

lemma c_string_id: "0 \<notin> set s \<Longrightarrow> c_string s = s"
  by (induction s) (auto simp: c_string_def)

lemma strtoll_digits:
  assumes "ds \<noteq> []" and "\<forall>c \<in> set ds. is_digit c"
  shows "strtoll ds = (min LLONG_MAX (int (dec_val ds 0)), [], int (dec_val ds 0) > LLONG_MAX)"
    and "strtoll (ch CHR ''+'' # ds) =
      (min LLONG_MAX (int (dec_val ds 0)), [], int (dec_val ds 0) > LLONG_MAX)"
    and "strtoll (ch CHR ''-'' # ds) =
      (max LLONG_MIN (- int (dec_val ds 0)), [], - int (dec_val ds 0) < LLONG_MIN)"
proof -
  have h: "is_digit (hd ds)" using assms by (cases ds) auto
  have d: "dropWhile isspace ds = ds"
    using digit_not_space [OF h] assms(1) by (cases ds) auto
  show "strtoll ds = (min LLONG_MAX (int (dec_val ds 0)), [], int (dec_val ds 0) > LLONG_MAX)"
    using digit_not_space [OF h] assms
    by (simp add: strtoll_def Let_def d takeWhile_eq_all_conv [THEN iffD2])
  show "strtoll (ch CHR ''+'' # ds) =
      (min LLONG_MAX (int (dec_val ds 0)), [], int (dec_val ds 0) > LLONG_MAX)"
    using assms sign_not_space
    by (simp add: strtoll_def Let_def takeWhile_eq_all_conv [THEN iffD2])
  show "strtoll (ch CHR ''-'' # ds) =
      (max LLONG_MIN (- int (dec_val ds 0)), [], - int (dec_val ds 0) < LLONG_MIN)"
    using assms sign_not_space
    by (simp add: strtoll_def Let_def takeWhile_eq_all_conv [THEN iffD2])
qed

lemma getLongLong_raw:
  "getLongLongFromObject (Some (Raw s)) =
     (let (value, eptr, erange) = strtoll (c_string s) in
      if (c_string s \<noteq> [] \<and> isspace (hd (c_string s))) \<or> eptr \<noteq> [] \<or> erange then None
      else Some value)"
  by (simp add: getLongLongFromObject_def)

lemma getLongLong_sound:
  assumes "getLongLongFromObject (Some (Raw s)) = Some v" and "c_string s = t"
  shows "client_number t v"
proof (cases "t = []")
  case True
  then show ?thesis using assms by (simp add: getLongLong_raw strtoll_def client_number_def)
next
  case False
  then have sp: "\<not> isspace (hd t)" using assms by (auto simp: getLongLong_raw Let_def split: prod.splits if_splits)
  then have d: "dropWhile isspace t = t" using False by (cases t) auto
  define ds where "ds = (if hd t = ch CHR ''-'' \<or> hd t = ch CHR ''+'' then tl t else t)"
  define sg where "sg = (if hd t = ch CHR ''-'' \<or> hd t = ch CHR ''+'' then [hd t] else [])"
  have t: "t = sg @ ds" "sg = [] \<and> hd t \<noteq> ch CHR ''-'' \<and> hd t \<noteq> ch CHR ''+'' \<or>
      sg = [ch CHR ''-''] \<or> sg = [ch CHR ''+'']"
    using False by (auto simp: ds_def sg_def)
  have u: "(if t \<noteq> [] \<and> (hd t = ch CHR ''-'' \<or> hd t = ch CHR ''+'') then tl t else t) = ds"
    using t False by auto
  have n: "takeWhile is_digit ds \<noteq> []" "dropWhile is_digit ds = []"
    using assms False d u by (auto simp: getLongLong_raw strtoll_def Let_def split: if_splits)
  then have ds: "ds \<noteq> []" "\<forall>c \<in> set ds. is_digit c"
    by (auto simp: dropWhile_eq_Nil_conv)
  from t(2) show ?thesis
    using assms strtoll_digits [OF ds] ds t(1)
    by (elim disjE) (force simp: getLongLong_raw client_number_def srange_def split: if_splits)+
qed

lemma getLongLong_complete:
  assumes "client_number (c_string s) v"
  shows "getLongLongFromObject (Some (Raw s)) = Some v"
proof -
  consider "c_string s = []" "v = 0"
    | ds where "ds \<noteq> []" "\<forall>c \<in> set ds. is_digit c" "srange 8 v"
        "c_string s = ds \<and> v = int (dec_val ds 0) \<or>
         c_string s = ch CHR ''+'' # ds \<and> v = int (dec_val ds 0) \<or>
         c_string s = ch CHR ''-'' # ds \<and> v = - int (dec_val ds 0)"
    using assms unfolding client_number_def by blast
  then show ?thesis
  proof cases
    case 1
    then show ?thesis by (simp add: getLongLong_raw strtoll_def)
  next
    case 2
    have h: "is_digit (hd ds)" using 2(1,2) by (cases ds) auto
    from 2(4) show ?thesis
      using strtoll_digits [OF 2(1,2)] 2(1,3) digit_not_space [OF h] sign_not_space
      by (elim disjE) (auto simp: getLongLong_raw srange_def)
  qed
qed



end
