(* ===== verification/Command.thy ===== *)
theory Command
  imports Object
begin

text \<open>
  The command table of \<open>redis.c\<close> and the functions that find keys in an argument vector (\<open>db.c\<close>). The C
  function that implements a command is given by its name in the source.
\<close>

type_synonym proc = string

datatype cmd_flag = REDIS_CMD_WRITE | REDIS_CMD_READONLY | REDIS_CMD_DENYOOM | REDIS_CMD_ADMIN
  | REDIS_CMD_PUBSUB | REDIS_CMD_NOSCRIPT | REDIS_CMD_RANDOM | REDIS_CMD_SORT_FOR_SCRIPT
  | REDIS_CMD_LOADING | REDIS_CMD_STALE | REDIS_CMD_SKIP_MONITOR

datatype getkeys_proc = NoGetKeys | NoPreloadGetKeys | RenameGetKeys | ZunionInterGetKeys

record redisCommand =
  cname :: string
  cproc :: proc
  arity :: int
  sflags :: string
  flags :: "cmd_flag set"
  getkeys :: getkeys_proc
  firstkey :: int
  lastkey :: int
  keystep :: int

abbreviation entry :: "string \<Rightarrow> proc \<Rightarrow> int \<Rightarrow> string \<Rightarrow> getkeys_proc \<Rightarrow> int \<Rightarrow> int \<Rightarrow> int \<Rightarrow> redisCommand" where
  "entry n p a s g f l k \<equiv> \<lparr>cname = n, cproc = p, arity = a, sflags = s, flags = {}, getkeys = g,
     firstkey = f, lastkey = l, keystep = k\<rparr>"

definition redisCommandTable :: "redisCommand list" where
  "redisCommandTable = [
    entry ''get'' ''getCommand'' 2 ''r'' NoGetKeys 1 1 1,
    entry ''set'' ''setCommand'' (- 3) ''wm'' NoPreloadGetKeys 1 1 1,
    entry ''setnx'' ''setnxCommand'' 3 ''wm'' NoPreloadGetKeys 1 1 1,
    entry ''setex'' ''setexCommand'' 4 ''wm'' NoPreloadGetKeys 1 1 1,
    entry ''psetex'' ''psetexCommand'' 4 ''wm'' NoPreloadGetKeys 1 1 1,
    entry ''append'' ''appendCommand'' 3 ''wm'' NoGetKeys 1 1 1,
    entry ''strlen'' ''strlenCommand'' 2 ''r'' NoGetKeys 1 1 1,
    entry ''del'' ''delCommand'' (- 2) ''w'' NoPreloadGetKeys 1 (- 1) 1,
    entry ''exists'' ''existsCommand'' 2 ''r'' NoGetKeys 1 1 1,
    entry ''setbit'' ''setbitCommand'' 4 ''wm'' NoGetKeys 1 1 1,
    entry ''getbit'' ''getbitCommand'' 3 ''r'' NoGetKeys 1 1 1,
    entry ''setrange'' ''setrangeCommand'' 4 ''wm'' NoGetKeys 1 1 1,
    entry ''getrange'' ''getrangeCommand'' 4 ''r'' NoGetKeys 1 1 1,
    entry ''substr'' ''getrangeCommand'' 4 ''r'' NoGetKeys 1 1 1,
    entry ''incr'' ''incrCommand'' 2 ''wm'' NoGetKeys 1 1 1,
    entry ''decr'' ''decrCommand'' 2 ''wm'' NoGetKeys 1 1 1,
    entry ''mget'' ''mgetCommand'' (- 2) ''r'' NoGetKeys 1 (- 1) 1,
    entry ''rpush'' ''rpushCommand'' (- 3) ''wm'' NoGetKeys 1 1 1,
    entry ''lpush'' ''lpushCommand'' (- 3) ''wm'' NoGetKeys 1 1 1,
    entry ''rpushx'' ''rpushxCommand'' 3 ''wm'' NoGetKeys 1 1 1,
    entry ''lpushx'' ''lpushxCommand'' 3 ''wm'' NoGetKeys 1 1 1,
    entry ''linsert'' ''linsertCommand'' 5 ''wm'' NoGetKeys 1 1 1,
    entry ''rpop'' ''rpopCommand'' 2 ''w'' NoGetKeys 1 1 1,
    entry ''lpop'' ''lpopCommand'' 2 ''w'' NoGetKeys 1 1 1,
    entry ''brpop'' ''brpopCommand'' (- 3) ''ws'' NoGetKeys 1 1 1,
    entry ''brpoplpush'' ''brpoplpushCommand'' 4 ''wms'' NoGetKeys 1 2 1,
    entry ''blpop'' ''blpopCommand'' (- 3) ''ws'' NoGetKeys 1 (- 2) 1,
    entry ''llen'' ''llenCommand'' 2 ''r'' NoGetKeys 1 1 1,
    entry ''lindex'' ''lindexCommand'' 3 ''r'' NoGetKeys 1 1 1,
    entry ''lset'' ''lsetCommand'' 4 ''wm'' NoGetKeys 1 1 1,
    entry ''lrange'' ''lrangeCommand'' 4 ''r'' NoGetKeys 1 1 1,
    entry ''ltrim'' ''ltrimCommand'' 4 ''w'' NoGetKeys 1 1 1,
    entry ''lrem'' ''lremCommand'' 4 ''w'' NoGetKeys 1 1 1,
    entry ''rpoplpush'' ''rpoplpushCommand'' 3 ''wm'' NoGetKeys 1 2 1,
    entry ''sadd'' ''saddCommand'' (- 3) ''wm'' NoGetKeys 1 1 1,
    entry ''srem'' ''sremCommand'' (- 3) ''w'' NoGetKeys 1 1 1,
    entry ''smove'' ''smoveCommand'' 4 ''w'' NoGetKeys 1 2 1,
    entry ''sismember'' ''sismemberCommand'' 3 ''r'' NoGetKeys 1 1 1,
    entry ''scard'' ''scardCommand'' 2 ''r'' NoGetKeys 1 1 1,
    entry ''spop'' ''spopCommand'' 2 ''wRs'' NoGetKeys 1 1 1,
    entry ''srandmember'' ''srandmemberCommand'' (- 2) ''rR'' NoGetKeys 1 1 1,
    entry ''sinter'' ''sinterCommand'' (- 2) ''rS'' NoGetKeys 1 (- 1) 1,
    entry ''sinterstore'' ''sinterstoreCommand'' (- 3) ''wm'' NoGetKeys 1 (- 1) 1,
    entry ''sunion'' ''sunionCommand'' (- 2) ''rS'' NoGetKeys 1 (- 1) 1,
    entry ''sunionstore'' ''sunionstoreCommand'' (- 3) ''wm'' NoGetKeys 1 (- 1) 1,
    entry ''sdiff'' ''sdiffCommand'' (- 2) ''rS'' NoGetKeys 1 (- 1) 1,
    entry ''sdiffstore'' ''sdiffstoreCommand'' (- 3) ''wm'' NoGetKeys 1 (- 1) 1,
    entry ''smembers'' ''sinterCommand'' 2 ''rS'' NoGetKeys 1 1 1,
    entry ''sscan'' ''sscanCommand'' (- 3) ''rR'' NoGetKeys 1 1 1,
    entry ''zadd'' ''zaddCommand'' (- 4) ''wm'' NoGetKeys 1 1 1,
    entry ''zincrby'' ''zincrbyCommand'' 4 ''wm'' NoGetKeys 1 1 1,
    entry ''zrem'' ''zremCommand'' (- 3) ''w'' NoGetKeys 1 1 1,
    entry ''zremrangebyscore'' ''zremrangebyscoreCommand'' 4 ''w'' NoGetKeys 1 1 1,
    entry ''zremrangebyrank'' ''zremrangebyrankCommand'' 4 ''w'' NoGetKeys 1 1 1,
    entry ''zremrangebylex'' ''zremrangebylexCommand'' 4 ''w'' NoGetKeys 1 1 1,
    entry ''zunionstore'' ''zunionstoreCommand'' (- 4) ''wm'' ZunionInterGetKeys 0 0 0,
    entry ''zinterstore'' ''zinterstoreCommand'' (- 4) ''wm'' ZunionInterGetKeys 0 0 0,
    entry ''zrange'' ''zrangeCommand'' (- 4) ''r'' NoGetKeys 1 1 1,
    entry ''zrangebyscore'' ''zrangebyscoreCommand'' (- 4) ''r'' NoGetKeys 1 1 1,
    entry ''zrevrangebyscore'' ''zrevrangebyscoreCommand'' (- 4) ''r'' NoGetKeys 1 1 1,
    entry ''zrangebylex'' ''zrangebylexCommand'' (- 4) ''r'' NoGetKeys 1 1 1,
    entry ''zrevrangebylex'' ''zrevrangebylexCommand'' (- 4) ''r'' NoGetKeys 1 1 1,
    entry ''zcount'' ''zcountCommand'' 4 ''r'' NoGetKeys 1 1 1,
    entry ''zlexcount'' ''zlexcountCommand'' 4 ''r'' NoGetKeys 1 1 1,
    entry ''zrevrange'' ''zrevrangeCommand'' (- 4) ''r'' NoGetKeys 1 1 1,
    entry ''zcard'' ''zcardCommand'' 2 ''r'' NoGetKeys 1 1 1,
    entry ''zscore'' ''zscoreCommand'' 3 ''r'' NoGetKeys 1 1 1,
    entry ''zrank'' ''zrankCommand'' 3 ''r'' NoGetKeys 1 1 1,
    entry ''zrevrank'' ''zrevrankCommand'' 3 ''r'' NoGetKeys 1 1 1,
    entry ''zscan'' ''zscanCommand'' (- 3) ''rR'' NoGetKeys 1 1 1,
    entry ''hset'' ''hsetCommand'' 4 ''wm'' NoGetKeys 1 1 1,
    entry ''hsetnx'' ''hsetnxCommand'' 4 ''wm'' NoGetKeys 1 1 1,
    entry ''hget'' ''hgetCommand'' 3 ''r'' NoGetKeys 1 1 1,
    entry ''hmset'' ''hmsetCommand'' (- 4) ''wm'' NoGetKeys 1 1 1,
    entry ''hmget'' ''hmgetCommand'' (- 3) ''r'' NoGetKeys 1 1 1,
    entry ''hincrby'' ''hincrbyCommand'' 4 ''wm'' NoGetKeys 1 1 1,
    entry ''hincrbyfloat'' ''hincrbyfloatCommand'' 4 ''wm'' NoGetKeys 1 1 1,
    entry ''hdel'' ''hdelCommand'' (- 3) ''w'' NoGetKeys 1 1 1,
    entry ''hlen'' ''hlenCommand'' 2 ''r'' NoGetKeys 1 1 1,
    entry ''hkeys'' ''hkeysCommand'' 2 ''rS'' NoGetKeys 1 1 1,
    entry ''hvals'' ''hvalsCommand'' 2 ''rS'' NoGetKeys 1 1 1,
    entry ''hgetall'' ''hgetallCommand'' 2 ''r'' NoGetKeys 1 1 1,
    entry ''hexists'' ''hexistsCommand'' 3 ''r'' NoGetKeys 1 1 1,
    entry ''hscan'' ''hscanCommand'' (- 3) ''rR'' NoGetKeys 1 1 1,
    entry ''incrby'' ''incrbyCommand'' 3 ''wm'' NoGetKeys 1 1 1,
    entry ''decrby'' ''decrbyCommand'' 3 ''wm'' NoGetKeys 1 1 1,
    entry ''incrbyfloat'' ''incrbyfloatCommand'' 3 ''wm'' NoGetKeys 1 1 1,
    entry ''getset'' ''getsetCommand'' 3 ''wm'' NoGetKeys 1 1 1,
    entry ''mset'' ''msetCommand'' (- 3) ''wm'' NoGetKeys 1 (- 1) 2,
    entry ''msetnx'' ''msetnxCommand'' (- 3) ''wm'' NoGetKeys 1 (- 1) 2,
    entry ''randomkey'' ''randomkeyCommand'' 1 ''rR'' NoGetKeys 0 0 0,
    entry ''select'' ''selectCommand'' 2 ''rl'' NoGetKeys 0 0 0,
    entry ''move'' ''moveCommand'' 3 ''w'' NoGetKeys 1 1 1,
    entry ''rename'' ''renameCommand'' 3 ''w'' RenameGetKeys 1 2 1,
    entry ''renamenx'' ''renamenxCommand'' 3 ''w'' RenameGetKeys 1 2 1,
    entry ''expire'' ''expireCommand'' 3 ''w'' NoGetKeys 1 1 1,
    entry ''expireat'' ''expireatCommand'' 3 ''w'' NoGetKeys 1 1 1,
    entry ''pexpire'' ''pexpireCommand'' 3 ''w'' NoGetKeys 1 1 1,
    entry ''pexpireat'' ''pexpireatCommand'' 3 ''w'' NoGetKeys 1 1 1,
    entry ''keys'' ''keysCommand'' 2 ''rS'' NoGetKeys 0 0 0,
    entry ''scan'' ''scanCommand'' (- 2) ''rR'' NoGetKeys 0 0 0,
    entry ''dbsize'' ''dbsizeCommand'' 1 ''r'' NoGetKeys 0 0 0,
    entry ''auth'' ''authCommand'' 2 ''rslt'' NoGetKeys 0 0 0,
    entry ''ping'' ''pingCommand'' 1 ''rt'' NoGetKeys 0 0 0,
    entry ''echo'' ''echoCommand'' 2 ''r'' NoGetKeys 0 0 0,
    entry ''save'' ''saveCommand'' 1 ''ars'' NoGetKeys 0 0 0,
    entry ''bgsave'' ''bgsaveCommand'' 1 ''ar'' NoGetKeys 0 0 0,
    entry ''bgrewriteaof'' ''bgrewriteaofCommand'' 1 ''ar'' NoGetKeys 0 0 0,
    entry ''shutdown'' ''shutdownCommand'' (- 1) ''arlt'' NoGetKeys 0 0 0,
    entry ''lastsave'' ''lastsaveCommand'' 1 ''rR'' NoGetKeys 0 0 0,
    entry ''type'' ''typeCommand'' 2 ''r'' NoGetKeys 1 1 1,
    entry ''multi'' ''multiCommand'' 1 ''rs'' NoGetKeys 0 0 0,
    entry ''exec'' ''execCommand'' 1 ''sM'' NoGetKeys 0 0 0,
    entry ''discard'' ''discardCommand'' 1 ''rs'' NoGetKeys 0 0 0,
    entry ''sync'' ''syncCommand'' 1 ''ars'' NoGetKeys 0 0 0,
    entry ''psync'' ''syncCommand'' 3 ''ars'' NoGetKeys 0 0 0,
    entry ''replconf'' ''replconfCommand'' (- 1) ''arslt'' NoGetKeys 0 0 0,
    entry ''flushdb'' ''flushdbCommand'' 1 ''w'' NoGetKeys 0 0 0,
    entry ''flushall'' ''flushallCommand'' 1 ''w'' NoGetKeys 0 0 0,
    entry ''sort'' ''sortCommand'' (- 2) ''wm'' NoGetKeys 1 1 1,
    entry ''info'' ''infoCommand'' (- 1) ''rlt'' NoGetKeys 0 0 0,
    entry ''monitor'' ''monitorCommand'' 1 ''ars'' NoGetKeys 0 0 0,
    entry ''ttl'' ''ttlCommand'' 2 ''r'' NoGetKeys 1 1 1,
    entry ''pttl'' ''pttlCommand'' 2 ''r'' NoGetKeys 1 1 1,
    entry ''persist'' ''persistCommand'' 2 ''w'' NoGetKeys 1 1 1,
    entry ''slaveof'' ''slaveofCommand'' 3 ''ast'' NoGetKeys 0 0 0,
    entry ''debug'' ''debugCommand'' (- 2) ''as'' NoGetKeys 0 0 0,
    entry ''config'' ''configCommand'' (- 2) ''art'' NoGetKeys 0 0 0,
    entry ''subscribe'' ''subscribeCommand'' (- 2) ''rpslt'' NoGetKeys 0 0 0,
    entry ''unsubscribe'' ''unsubscribeCommand'' (- 1) ''rpslt'' NoGetKeys 0 0 0,
    entry ''psubscribe'' ''psubscribeCommand'' (- 2) ''rpslt'' NoGetKeys 0 0 0,
    entry ''punsubscribe'' ''punsubscribeCommand'' (- 1) ''rpslt'' NoGetKeys 0 0 0,
    entry ''publish'' ''publishCommand'' 3 ''pltr'' NoGetKeys 0 0 0,
    entry ''pubsub'' ''pubsubCommand'' (- 2) ''pltrR'' NoGetKeys 0 0 0,
    entry ''watch'' ''watchCommand'' (- 2) ''rs'' NoPreloadGetKeys 1 (- 1) 1,
    entry ''unwatch'' ''unwatchCommand'' 1 ''rs'' NoGetKeys 0 0 0,
    entry ''restore'' ''restoreCommand'' 4 ''awm'' NoGetKeys 1 1 1,
    entry ''migrate'' ''migrateCommand'' 6 ''aw'' NoGetKeys 0 0 0,
    entry ''dump'' ''dumpCommand'' 2 ''ar'' NoGetKeys 1 1 1,
    entry ''object'' ''objectCommand'' (- 2) ''r'' NoGetKeys 2 2 2,
    entry ''client'' ''clientCommand'' (- 2) ''ar'' NoGetKeys 0 0 0,
    entry ''eval'' ''evalCommand'' (- 3) ''s'' ZunionInterGetKeys 0 0 0,
    entry ''evalsha'' ''evalShaCommand'' (- 3) ''s'' ZunionInterGetKeys 0 0 0,
    entry ''slowlog'' ''slowlogCommand'' (- 2) ''r'' NoGetKeys 0 0 0,
    entry ''script'' ''scriptCommand'' (- 2) ''ras'' NoGetKeys 0 0 0,
    entry ''time'' ''timeCommand'' 1 ''rR'' NoGetKeys 0 0 0,
    entry ''bitop'' ''bitopCommand'' (- 4) ''wm'' NoGetKeys 2 (- 1) 1,
    entry ''bitcount'' ''bitcountCommand'' (- 2) ''r'' NoGetKeys 1 1 1,
    entry ''bitpos'' ''bitposCommand'' (- 3) ''r'' NoGetKeys 1 1 1,
    entry ''pfselftest'' ''pfselftestCommand'' 1 ''r'' NoGetKeys 0 0 0,
    entry ''pfadd'' ''pfaddCommand'' (- 2) ''wm'' NoGetKeys 1 1 1,
    entry ''pfcount'' ''pfcountCommand'' (- 2) ''w'' NoGetKeys 1 1 1,
    entry ''pfmerge'' ''pfmergeCommand'' (- 2) ''wm'' NoGetKeys 1 (- 1) 1,
    entry ''pfdebug'' ''pfdebugCommand'' (- 3) ''w'' NoGetKeys 0 0 0]"

section \<open>Building the table\<close>

text \<open>One character of the flag string; any other character is a panic.\<close>

definition sflag_bit :: "char \<Rightarrow> cmd_flag option" where
  "sflag_bit f =
     (if f = CHR ''w'' then Some REDIS_CMD_WRITE
      else if f = CHR ''r'' then Some REDIS_CMD_READONLY
      else if f = CHR ''m'' then Some REDIS_CMD_DENYOOM
      else if f = CHR ''a'' then Some REDIS_CMD_ADMIN
      else if f = CHR ''p'' then Some REDIS_CMD_PUBSUB
      else if f = CHR ''s'' then Some REDIS_CMD_NOSCRIPT
      else if f = CHR ''R'' then Some REDIS_CMD_RANDOM
      else if f = CHR ''S'' then Some REDIS_CMD_SORT_FOR_SCRIPT
      else if f = CHR ''l'' then Some REDIS_CMD_LOADING
      else if f = CHR ''t'' then Some REDIS_CMD_STALE
      else if f = CHR ''M'' then Some REDIS_CMD_SKIP_MONITOR
      else None)"

fun parse_sflags :: "string \<Rightarrow> cmd_flag set \<Rightarrow> cmd_flag set option" where
  "parse_sflags [] fl = Some fl"
| "parse_sflags (f # fs) fl =
     (case sflag_bit f of None \<Rightarrow> None | Some b \<Rightarrow> parse_sflags fs (insert b fl))"

text \<open>The dictionary of commands compares names without regard to case; it is a map over lower case
  names. Adding a name twice is an assertion failure.\<close>

type_synonym command_dict = "bytes \<rightharpoonup> redisCommand"

definition command_key :: "bytes \<Rightarrow> bytes" where
  "command_key name = map tolower name"

fun populate_loop :: "redisCommand list \<Rightarrow> command_dict \<Rightarrow> command_dict option" where
  "populate_loop [] d = Some d"
| "populate_loop (c # cs) d =
     (case parse_sflags (sflags c) (flags c) of
        None \<Rightarrow> None
      | Some fl \<Rightarrow>
          let c = c\<lparr>flags := fl\<rparr>; k = command_key (cstr (cname c)) in
          if d k \<noteq> None then None else populate_loop cs (d(k \<mapsto> c)))"

definition populateCommandTable :: "command_dict option" where
  "populateCommandTable = populate_loop redisCommandTable Map.empty"

definition lookupCommand :: "command_dict \<Rightarrow> bytes \<Rightarrow> redisCommand option" where
  "lookupCommand commands name = commands (command_key name)"

definition lookupCommandOrOriginal :: "command_dict \<Rightarrow> command_dict \<Rightarrow> bytes \<Rightarrow> redisCommand option" where
  "lookupCommandOrOriginal commands orig_commands name =
     (case lookupCommand commands name of
        Some c \<Rightarrow> Some c
      | None \<Rightarrow> lookupCommand orig_commands name)"

section \<open>Keys of a command\<close>

text \<open>The loop \<open>for (j = firstkey; j <= last; j += keystep)\<close>; an index that is not below \<open>argc\<close> fails the
  assertion.\<close>

function keys_loop :: "int \<Rightarrow> int \<Rightarrow> int \<Rightarrow> int \<Rightarrow> int list option" where
  "keys_loop j lst step argc =
     (if j \<le> lst \<and> 0 < step then
        (if j < argc then map_option (Cons j) (keys_loop (j + step) lst step argc) else None)
      else Some [])"
  by pat_completeness auto
termination
  by (relation "measure (\<lambda>(j, lst, step, argc). nat (lst + 1 - j))") auto

declare keys_loop.simps [simp del]

definition getKeysUsingCommandTable :: "redisCommand \<Rightarrow> bytes list \<Rightarrow> int list option" where
  "getKeysUsingCommandTable c argv =
     (if firstkey c = 0 then Some []
      else
        let argc = int (length argv);
            lst = (if lastkey c < 0 then argc + lastkey c else lastkey c)
        in keys_loop (firstkey c) lst (keystep c) argc)"

text \<open>\<open>preload\<close> stands for the flag \<open>REDIS_GETKEYS_PRELOAD\<close>.\<close>

definition noPreloadGetKeys :: "redisCommand \<Rightarrow> bytes list \<Rightarrow> bool \<Rightarrow> int list option" where
  "noPreloadGetKeys c argv preload = (if preload then Some [] else getKeysUsingCommandTable c argv)"

definition renameGetKeys :: "redisCommand \<Rightarrow> bytes list \<Rightarrow> bool \<Rightarrow> int list option" where
  "renameGetKeys c argv preload = (if preload then Some [1] else getKeysUsingCommandTable c argv)"

text \<open>\<open>atoi\<close> truncates the result of \<open>strtol\<close> to an \<open>int\<close>. A negative count asks the allocator for
  close to the whole address space.\<close>

definition atoi :: "bytes \<Rightarrow> int" where
  "atoi s = s32 (fst (strtoll (c_string s)))"

definition zunionInterGetKeys :: "bytes list \<Rightarrow> int list option" where
  "zunionInterGetKeys argv =
     (if length argv \<le> 2 then None
      else
        let num = atoi (argv ! 2) in
        if num > int (length argv) - 3 then Some []
        else if num < 0 then None
        else Some (map (\<lambda>i. 3 + int i) [0..<nat num]))"

definition getKeysFromCommand :: "redisCommand \<Rightarrow> bytes list \<Rightarrow> bool \<Rightarrow> int list option" where
  "getKeysFromCommand c argv preload =
     (case getkeys c of
        NoGetKeys \<Rightarrow> getKeysUsingCommandTable c argv
      | NoPreloadGetKeys \<Rightarrow> noPreloadGetKeys c argv preload
      | RenameGetKeys \<Rightarrow> renameGetKeys c argv preload
      | ZunionInterGetKeys \<Rightarrow> zunionInterGetKeys argv)"

section \<open>Properties\<close>

text \<open>The arity test of \<open>processCommand\<close>.\<close>

definition arity_ok :: "redisCommand \<Rightarrow> nat \<Rightarrow> bool" where
  "arity_ok c argc \<longleftrightarrow> \<not> ((arity c > 0 \<and> arity c \<noteq> int argc) \<or> int argc < - arity c)"

definition keys_ok :: "redisCommand \<Rightarrow> bool" where
  "keys_ok c \<longleftrightarrow> firstkey c = 0 \<or>
     0 < firstkey c \<and> 0 < keystep c \<and> (lastkey c < 0 \<or> lastkey c < \<bar>arity c\<bar> \<or> cname c = ''object'')"

lemma keys_loop_range:
  "lst < argc \<Longrightarrow> 0 < j \<Longrightarrow> 0 < step \<Longrightarrow>
   \<exists>ks. keys_loop j lst step argc = Some ks \<and> (\<forall>k \<in> set ks. 0 < k \<and> k < argc)"
proof (induction j lst step argc rule: keys_loop.induct)
  case (1 j lst step argc)
  show ?case
  proof (cases "j \<le> lst")
    case True
    with 1 obtain ks where "keys_loop (j + step) lst step argc = Some ks" "\<forall>k \<in> set ks. 0 < k \<and> k < argc"
      by auto
    then show ?thesis using 1 True by (subst keys_loop.simps) auto
  qed (subst keys_loop.simps, simp)
qed

text \<open>What the table satisfies row by row is computed.\<close>

definition lower_char :: "char \<Rightarrow> bool" where
  "lower_char x \<longleftrightarrow> x \<in> set ''abcdefghijklmnopqrstuvwxyz''"

definition flag_char :: "char \<Rightarrow> bool" where
  "flag_char f \<longleftrightarrow> sflag_bit f \<noteq> None"

definition row_ok :: "redisCommand \<Rightarrow> bool" where
  "row_ok c \<longleftrightarrow> keys_ok c \<and> (getkeys c = RenameGetKeys \<longrightarrow> arity c = 3) \<and> flags c = {} \<and>
     list_all flag_char (sflags c) \<and> list_all lower_char (cname c)"

lemma table_rows: "list_all row_ok redisCommandTable"
  by code_simp



text \<open>C40: \<open>OBJECT\<close> with a subcommand only passes the arity test, but its entry points at a third
  argument, so the assertion of \<open>getKeysUsingCommandTable\<close> fails.\<close>

theorem getKeys_object_assert:
  "\<exists>c. c \<in> set redisCommandTable \<and> cname c = ''object'' \<and>
     arity_ok c (length [cstr ''object'', sub]) \<and>
     getKeysFromCommand c [cstr ''object'', sub] preload = None"
proof -
  let ?c = "entry ''object'' ''objectCommand'' (- 2) ''r'' NoGetKeys 2 2 2"
  have "?c \<in> set redisCommandTable" by (simp add: redisCommandTable_def)
  then show ?thesis
    by (intro exI [of _ ?c])
      (simp add: arity_ok_def getKeysFromCommand_def getKeysUsingCommandTable_def keys_loop.simps)
qed

definition name_code :: "string \<Rightarrow> int" where
  "name_code s = foldl (\<lambda>a c. a * 6 + of_char c) 0 s"

lemma table_codes: "successively (<) (sort (map name_code (map cname redisCommandTable)))"
  by code_simp

lemma table_names: "distinct (map cname redisCommandTable)"
proof -
  have "sorted_wrt (<) (sort (map name_code (map cname redisCommandTable)))"
    using table_codes by (simp add: successively_conv_sorted_wrt)
  then have "distinct (map name_code (map cname redisCommandTable))"
    using distinct_sort strict_sorted_iff by blast
  then show ?thesis using distinct_map by blast
qed

lemma lower_name: "lower_char x \<Longrightarrow> tolower (of_char x) = of_char x"
  unfolding lower_char_def by (simp add: tolower_def, elim disjE) simp_all

lemma row_key: "row_ok c \<Longrightarrow> command_key (cstr (cname c)) = cstr (cname c)"
  by (auto simp: row_ok_def command_key_def list_all_iff intro!: lower_name)

lemma parse_sflags_ok: "list_all flag_char s \<Longrightarrow> \<exists>fl'. parse_sflags s fl = Some fl'"
  by (induction s arbitrary: fl) (auto simp: flag_char_def)

text \<open>The entry that the server uses, with its flags computed.\<close>

definition command_row :: "redisCommand \<Rightarrow> redisCommand" where
  "command_row c = c\<lparr>flags := the (parse_sflags (sflags c) (flags c))\<rparr>"

lemma inj_cstr: "cstr a = cstr b \<Longrightarrow> a = b"
proof -
  have "unat (of_char c :: byte) = of_char c" for c
  proof -
    have "unat (of_nat (of_char c) :: byte) = of_char c"
      by (simp only: unat_of_nat) simp
    then show ?thesis by (simp only: of_nat_of_char)
  qed
  then have "inj (of_char :: char \<Rightarrow> byte)" by (metis injI of_char_eq_iff)
  then show "cstr a = cstr b \<Longrightarrow> a = b" using map_injective by blast
qed

lemma populate_loop_spec:
  assumes "list_all row_ok cs" and "distinct (map cname cs)"
    and "\<forall>c \<in> set cs. d (cstr (cname c)) = None"
  shows "\<exists>d'. populate_loop cs d = Some d' \<and>
     (\<forall>c \<in> set cs. d' (cstr (cname c)) = Some (command_row c)) \<and>
     (\<forall>k. k \<notin> (cstr \<circ> cname) ` set cs \<longrightarrow> d' k = d k)"
  using assms
proof (induction cs arbitrary: d)
  case (Cons c cs)
  obtain fl where fl: "parse_sflags (sflags c) (flags c) = Some fl"
    using parse_sflags_ok [of "sflags c" "flags c"] Cons.prems(1) by (auto simp: row_ok_def)
  have k: "command_key (cstr (cname c)) = cstr (cname c)"
    using row_key Cons.prems(1) by simp
  define d1 where "d1 = d(cstr (cname c) \<mapsto> command_row c)"
  have n: "c' \<in> set cs \<Longrightarrow> cstr (cname c') \<noteq> cstr (cname c)" for c'
    using Cons.prems(2) inj_cstr [of "cname c'" "cname c"] by (auto simp: image_iff)
  have "\<forall>c' \<in> set cs. d1 (cstr (cname c')) = None"
    using Cons.prems(3) n by (simp add: d1_def)
  from Cons.IH [OF _ _ this] Cons.prems(1,2) obtain d' where d':
    "populate_loop cs d1 = Some d'" "\<forall>c \<in> set cs. d' (cstr (cname c)) = Some (command_row c)"
    "\<forall>k. k \<notin> (cstr \<circ> cname) ` set cs \<longrightarrow> d' k = d1 k" by auto
  have "populate_loop (c # cs) d = populate_loop cs d1"
    using fl k Cons.prems(3) by (simp add: d1_def command_row_def Let_def)
  moreover have "d' (cstr (cname c)) = Some (command_row c)"
    using d'(3) n by (simp add: d1_def image_iff) (metis (no_types, lifting))
  moreover have "\<forall>k. k \<notin> (cstr \<circ> cname) ` set (c # cs) \<longrightarrow> d' k = d k"
    using d'(3) by (auto simp: d1_def image_iff)
  ultimately show ?case using d'(1,2) by auto
qed simp

text \<open>Building the command table at startup cannot panic or trip over a duplicate name, and
  afterwards every command is found under its name in any mixture of cases, with its flags set.\<close>

theorem populateCommandTable_complete:
  "\<exists>d. populateCommandTable = Some d \<and>
     (\<forall>c \<in> set redisCommandTable. \<forall>name. command_key name = cstr (cname c) \<longrightarrow>
        lookupCommand d name = Some (command_row c))"
  using populate_loop_spec [OF table_rows table_names, of Map.empty]
  by (auto simp: populateCommandTable_def lookupCommand_def)

theorem populateCommandTable_complete_witness:
  "\<exists>d. populateCommandTable = Some d \<and> lookupCommand d (cstr ''GeT'') =
     Some (command_row (entry ''get'' ''getCommand'' 2 ''r'' NoGetKeys 1 1 1))"
proof -
  let ?c = "entry ''get'' ''getCommand'' 2 ''r'' NoGetKeys 1 1 1"
  have "?c \<in> set redisCommandTable" by (simp add: redisCommandTable_def)
  moreover have "command_key (cstr ''GeT'') = cstr (cname ?c)" by (simp add: command_key_def tolower_def)
  ultimately show ?thesis using populateCommandTable_complete by blast
qed

end
