(* ===== verification/Client.thy ===== *)
theory Client
  imports Command Builder_Spec
begin

text \<open>
  Clients and their output buffers (\<open>networking.c\<close>, the structures of \<open>redis.h\<close>). A reply is copied
  into the static buffer of the client while it fits, then appended to a list of chunks;
  \<open>sendReplyToClient\<close> drains both. The text a client has still to receive is \<open>client_out\<close>: adding a
  reply appends exactly its text, sending removes exactly what the socket took.

  The operating system is a parameter: whether the event loop accepts the registration of the
  write handler is the field \<open>ev_err\<close> of the client, the results of \<open>write\<close> are a list of numbers,
  and the size of an allocation is the function \<open>zsize\<close>.
\<close>

section \<open>The structures\<close>

datatype cflag = REDIS_SLAVE | REDIS_MASTER | REDIS_MONITOR | REDIS_MULTI | REDIS_BLOCKED
  | REDIS_DIRTY_CAS | REDIS_CLOSE_AFTER_REPLY | REDIS_UNBLOCKED | REDIS_LUA_CLIENT | REDIS_ASKING
  | REDIS_CLOSE_ASAP | REDIS_UNIX_SOCKET | REDIS_DIRTY_EXEC | REDIS_MASTER_FORCE_REPLY
  | REDIS_FORCE_AOF | REDIS_FORCE_REPL | REDIS_PRE_PSYNC

datatype repl_state = REDIS_REPL_NONE | REDIS_REPL_WAIT_BGSAVE_START | REDIS_REPL_WAIT_BGSAVE_END
  | REDIS_REPL_SEND_BULK | REDIS_REPL_ONLINE

datatype reqtype = REQ_NONE | REDIS_REQ_INLINE | REDIS_REQ_MULTIBULK

text \<open>The flags are a set; \<open>cdb\<close> is the number of the selected database, \<open>cmd\<close> the
  current command, \<open>mstate\<close> the queue of a transaction (commands and argument vectors). The static
  buffer \<open>buf\<close> holds the \<open>bufpos\<close> bytes in use. A chunk of the reply list that is \<^term>\<open>None\<close> is a
  multi bulk length still to be filled in.\<close>

record client =
  fd :: int
  cdb :: nat
  querybuf :: bytes
  argv :: "bytes list"
  cmd :: "redisCommand option"
  reqtype :: reqtype
  multibulklen :: int
  bulklen :: int
  reply :: "bytes option list"
  reply_bytes :: nat
  sentlen :: nat
  lastinteraction :: int
  obuf_soft_limit_reached_time :: int
  cflags :: "cflag set"
  authenticated :: bool
  replstate :: repl_state
  repl_ack_time :: int
  mstate :: "(redisCommand \<times> bytes list) list"
  watched_keys :: "(bytes \<times> nat) list"
  pubsub_channels :: "bytes list"
  pubsub_patterns :: "bytes list"
  buf :: bytes
  ev_err :: bool
  wr_event :: bool

definition createClient :: "int \<Rightarrow> int \<Rightarrow> client" where
  "createClient f unixtime = \<lparr> fd = f, cdb = 0, querybuf = [], argv = [], cmd = None,
     reqtype = REQ_NONE, multibulklen = 0, bulklen = - 1, reply = [], reply_bytes = 0, sentlen = 0,
     lastinteraction = unixtime, obuf_soft_limit_reached_time = 0, cflags = {},
     authenticated = False, replstate = REDIS_REPL_NONE, repl_ack_time = 0, mstate = [],
     watched_keys = [], pubsub_channels = [], pubsub_patterns = [], buf = [], ev_err = False,
     wr_event = False \<rparr>"

datatype limit_class = CLASS_NORMAL | CLASS_SLAVE | CLASS_PUBSUB

record limits_config =
  hard_limit_bytes :: nat
  soft_limit_bytes :: nat
  soft_limit_seconds :: int

text \<open>What the output functions read of the server and the system.\<close>

record out_env =
  client_obuf_limits :: "limit_class \<Rightarrow> limits_config"
  unixtime :: int
  zsize :: "bytes \<Rightarrow> nat"

definition REDIS_REPLY_CHUNK_BYTES :: nat where "REDIS_REPLY_CHUNK_BYTES = 16 * 1024"

abbreviation set_flag :: "cflag \<Rightarrow> client \<Rightarrow> client" where
  "set_flag f c \<equiv> c\<lparr>cflags := insert f (cflags c)\<rparr>"

abbreviation clr_flag :: "cflag \<Rightarrow> client \<Rightarrow> client" where
  "clr_flag f c \<equiv> c\<lparr>cflags := cflags c - {f}\<rparr>"

section \<open>Output buffer limits\<close>

definition getClientOutputBufferMemoryUsage :: "client \<Rightarrow> nat" where
  "getClientOutputBufferMemoryUsage c = (let list_item_size = 24 + 16 in
     reply_bytes c + list_item_size * length (reply c))"

definition getClientLimitClass :: "client \<Rightarrow> limit_class" where
  "getClientLimitClass c =
     (if REDIS_SLAVE \<in> cflags c then CLASS_SLAVE
      else if pubsub_channels c \<noteq> [] \<or> pubsub_patterns c \<noteq> [] then CLASS_PUBSUB
      else CLASS_NORMAL)"

definition checkClientOutputBufferLimits :: "out_env \<Rightarrow> client \<Rightarrow> client \<times> bool" where
  "checkClientOutputBufferLimits e c =
     (let used_mem = getClientOutputBufferMemoryUsage c;
          l = client_obuf_limits e (getClientLimitClass c);
          hard = (hard_limit_bytes l \<noteq> 0 \<and> used_mem \<ge> hard_limit_bytes l);
          soft = (soft_limit_bytes l \<noteq> 0 \<and> used_mem \<ge> soft_limit_bytes l)
      in if soft then
           (if obuf_soft_limit_reached_time c = 0 then
              (c\<lparr>obuf_soft_limit_reached_time := unixtime e\<rparr>, hard)
            else
              let elapsed = unixtime e - obuf_soft_limit_reached_time c in
              if elapsed \<le> soft_limit_seconds l then (c, hard) else (c, True))
         else (c\<lparr>obuf_soft_limit_reached_time := 0\<rparr>, hard))"

text \<open>Only the flag of \<open>freeClientAsync\<close> is set here; the caller in the theory of the server puts the
  client into the queue of clients to close when the flag is new.\<close>

definition asyncClose :: "out_env \<Rightarrow> client \<Rightarrow> client" where
  "asyncClose e c =
     (if reply_bytes c = 0 \<or> REDIS_CLOSE_ASAP \<in> cflags c then c
      else let (c, over) = checkClientOutputBufferLimits e c in
           if over then set_flag REDIS_CLOSE_ASAP c else c)"

section \<open>Adding to the output buffers\<close>

definition prepareClientToWrite :: "client \<Rightarrow> client \<times> bool" where
  "prepareClientToWrite c =
     (if REDIS_LUA_CLIENT \<in> cflags c then (c, True)
      else if REDIS_MASTER \<in> cflags c \<and> REDIS_MASTER_FORCE_REPLY \<notin> cflags c then (c, False)
      else if fd c \<le> 0 then (c, False)
      else if buf c = [] \<and> reply c = [] \<and>
        (replstate c = REDIS_REPL_NONE \<or> replstate c = REDIS_REPL_ONLINE) then
        (if ev_err c then (c, False) else (c\<lparr>wr_event := True\<rparr>, True))
      else (c, True))"

definition addReplyToBuffer :: "client \<Rightarrow> bytes \<Rightarrow> client \<times> bool" where
  "addReplyToBuffer c s =
     (let available = REDIS_REPLY_CHUNK_BYTES - length (buf c) in
      if REDIS_CLOSE_AFTER_REPLY \<in> cflags c then (c, True)
      else if reply c \<noteq> [] then (c, False)
      else if length s > available then (c, False)
      else (c\<lparr>buf := buf c @ s\<rparr>, True))"

text \<open>The code has this function three times, for an object, an sds string and a C buffer.\<close>

definition addReplyStringToList :: "out_env \<Rightarrow> client \<Rightarrow> bytes \<Rightarrow> client" where
  "addReplyStringToList e c s =
     (if REDIS_CLOSE_AFTER_REPLY \<in> cflags c then c
      else if reply c = [] then
        asyncClose e (c\<lparr>reply := [Some s], reply_bytes := reply_bytes c + zsize e s\<rparr>)
      else
        case last (reply c) of
          Some t \<Rightarrow>
            if length t + length s \<le> REDIS_REPLY_CHUNK_BYTES then
              asyncClose e (c\<lparr>reply := butlast (reply c) @ [Some (t @ s)],
                reply_bytes := reply_bytes c - zsize e t + zsize e (t @ s)\<rparr>)
            else
              asyncClose e (c\<lparr>reply := reply c @ [Some s], reply_bytes := reply_bytes c + zsize e s\<rparr>)
        | None \<Rightarrow>
            asyncClose e (c\<lparr>reply := reply c @ [Some s], reply_bytes := reply_bytes c + zsize e s\<rparr>))"

definition addReplyString :: "out_env \<Rightarrow> client \<Rightarrow> bytes \<Rightarrow> client" where
  "addReplyString e c s =
     (let (c, ok) = prepareClientToWrite c in
      if \<not> ok then c
      else let (c', ok) = addReplyToBuffer c s in
           if ok then c' else addReplyStringToList e c s)"

text \<open>For an encoded number there is a shortcut when the static buffer has 32 bytes left.\<close>

definition addReplyObj :: "out_env \<Rightarrow> client \<Rightarrow> sobj \<Rightarrow> client" where
  "addReplyObj e c obj =
     (let (c, ok) = prepareClientToWrite c in
      if \<not> ok then c
      else case obj of
        Raw s \<Rightarrow>
          (let (c', ok) = addReplyToBuffer c s in if ok then c' else addReplyStringToList e c s)
      | IntEnc v \<Rightarrow>
          let slow = (let (c', ok) = addReplyToBuffer c (ll_repr v) in
                      if ok then c' else addReplyStringToList e c (ll_repr v)) in
          if reply c = [] \<and> REDIS_REPLY_CHUNK_BYTES - length (buf c) \<ge> 32 then
            (let (c', ok) = addReplyToBuffer c (ll_repr v) in if ok then c' else slow)
          else slow)"

text \<open>The position of the new chunk stands for the pointer to the list node.\<close>

definition addDeferredMultiBulkLength :: "client \<Rightarrow> client \<times> nat option" where
  "addDeferredMultiBulkLength c =
     (let (c, ok) = prepareClientToWrite c in
      if \<not> ok then (c, None) else (c\<lparr>reply := reply c @ [None]\<rparr>, Some (length (reply c))))"

definition crlf :: bytes where "crlf = [13, 10]"

definition setDeferredMultiBulkLength :: "out_env \<Rightarrow> client \<Rightarrow> nat option \<Rightarrow> int \<Rightarrow> client" where
  "setDeferredMultiBulkLength e c node n =
     (case node of
        None \<Rightarrow> c
      | Some i \<Rightarrow>
          let len = ch CHR ''*'' # ll_repr n @ crlf;
              c = c\<lparr>reply := (reply c)[i := Some len], reply_bytes := reply_bytes c + zsize e len\<rparr>
          in asyncClose e
               (if Suc i < length (reply c) then
                  (case reply c ! Suc i of
                     None \<Rightarrow> c
                   | Some next \<Rightarrow>
                       c\<lparr>reply := take i (reply c) @ [Some (len @ next)] @ drop (i + 2) (reply c),
                         reply_bytes := reply_bytes c - zsize e len - zsize e next +
                           zsize e (len @ next)\<rparr>)
                else c))"

section \<open>Sending\<close>

datatype write_result = WOk nat | WAgain | WErr

definition REDIS_MAX_WRITE_PER_EVENT :: nat where "REDIS_MAX_WRITE_PER_EVENT = 1024 * 64"

text \<open>The results of \<open>write\<close> are given in advance; when there are no more of them the socket is full.
  \<open>pause\<close>: memory use is below the limit, so the loop stops after a quantum. The loop returns the
  client, the bytes handed to the socket, and the last result.\<close>

definition next_write :: "write_result list \<Rightarrow> write_result" where
  "next_write ws = (case ws of [] \<Rightarrow> WAgain | w # _ \<Rightarrow> w)"

text \<open>After \<open>write\<close> took the bytes \<open>w\<close> of the static buffer, or of the first chunk \<open>s\<close>.\<close>

definition buf_sent :: "client \<Rightarrow> bytes \<Rightarrow> client" where
  "buf_sent c w =
     (let c = c\<lparr>sentlen := sentlen c + length w\<rparr> in
      if sentlen c = length (buf c) then c\<lparr>buf := [], sentlen := 0\<rparr> else c)"

definition chunk_sent :: "out_env \<Rightarrow> client \<Rightarrow> bytes \<Rightarrow> bytes \<Rightarrow> client" where
  "chunk_sent e c s w =
     (let c = c\<lparr>sentlen := sentlen c + length w\<rparr> in
      if sentlen c = length s then
        c\<lparr>reply := tl (reply c), sentlen := 0, reply_bytes := reply_bytes c - zsize e s\<rparr>
      else c)"

function send_loop ::
  "out_env \<Rightarrow> bool \<Rightarrow> client \<Rightarrow> write_result list \<Rightarrow> bytes \<Rightarrow> (client \<times> bytes \<times> write_result) option" where
  "send_loop e pause c ws sent =
     (if buf c = [] \<and> reply c = [] then Some (c, sent, WOk 0)
      else if buf c \<noteq> [] then
        (case next_write ws of
           WOk (Suc n) \<Rightarrow>
             let w = take (Suc n) (drop (sentlen c) (buf c)); c = buf_sent c w
             in if length (sent @ w) > REDIS_MAX_WRITE_PER_EVENT \<and> pause then Some (c, sent @ w, WOk (Suc n))
                else send_loop e pause c (tl ws) (sent @ w)
         | r \<Rightarrow> Some (c, sent, r))
      else
        (case hd (reply c) of
           None \<Rightarrow> None
         | Some s \<Rightarrow>
             if s = [] then send_loop e pause (c\<lparr>reply := tl (reply c)\<rparr>) ws sent
             else
               (case next_write ws of
                  WOk (Suc n) \<Rightarrow>
                    let w = take (Suc n) (drop (sentlen c) s); c = chunk_sent e c s w
                    in if length (sent @ w) > REDIS_MAX_WRITE_PER_EVENT \<and> pause
                       then Some (c, sent @ w, WOk (Suc n))
                       else send_loop e pause c (tl ws) (sent @ w)
                | r \<Rightarrow> Some (c, sent, r))))"
  by pat_completeness auto
termination
  by (relation "measure (\<lambda>(e, pause, c, ws, sent). length ws + length (reply c))")
    (auto simp: next_write_def buf_sent_def chunk_sent_def Let_def split: list.splits)

declare send_loop.simps [simp del]

text \<open>The flag of the result: the connection is closed.\<close>

definition sendReplyToClient ::
  "out_env \<Rightarrow> bool \<Rightarrow> client \<Rightarrow> write_result list \<Rightarrow> (client \<times> bytes \<times> bool) option" where
  "sendReplyToClient e pause c ws = do {
     (c, sent, r) \<leftarrow> send_loop e pause c ws [];
     if r = WErr then Some (c, sent, True)
     else
       let c = (if sent \<noteq> [] \<and> REDIS_MASTER \<notin> cflags c then c\<lparr>lastinteraction := unixtime e\<rparr> else c) in
       if buf c = [] \<and> reply c = [] then
         Some (c\<lparr>sentlen := 0, wr_event := False\<rparr>, sent, REDIS_CLOSE_AFTER_REPLY \<in> cflags c)
       else Some (c, sent, False) }"

section \<open>What a client has still to receive\<close>

definition chunk_text :: "bytes option \<Rightarrow> bytes" where
  "chunk_text o' = (case o' of None \<Rightarrow> [] | Some s \<Rightarrow> s)"

definition client_out :: "client \<Rightarrow> bytes" where
  "client_out c = drop (sentlen c) (buf c @ concat (map chunk_text (reply c)))"

text \<open>The invariant: what was sent of the head is shorter than the head, and the static buffer does
  not overflow.\<close>

definition out_wf :: "client \<Rightarrow> bool" where
  "out_wf c \<longleftrightarrow> length (buf c) \<le> REDIS_REPLY_CHUNK_BYTES \<and>
     (if buf c \<noteq> [] then sentlen c < length (buf c)
      else sentlen c = 0 \<or> reply c \<noteq> [] \<and> sentlen c < length (chunk_text (hd (reply c))))"

definition accepts :: "client \<Rightarrow> bool" where
  "accepts c \<longleftrightarrow> snd (prepareClientToWrite c) \<and> REDIS_CLOSE_AFTER_REPLY \<notin> cflags c"

lemma chunk_text_simps [simp]: "chunk_text None = []" "chunk_text (Some s) = s"
  by (simp_all add: chunk_text_def)

text \<open>The fields the output functions leave alone. Everything the rest of the server reads of a
  client, except the flag that asks for it to be closed, is a function of these.\<close>

definition core :: "client \<Rightarrow> client" where
  "core c = c\<lparr>buf := [], reply := [], reply_bytes := 0, obuf_soft_limit_reached_time := 0,
     cflags := cflags c - {REDIS_CLOSE_ASAP}, wr_event := False\<rparr>"

definition same_core :: "client \<Rightarrow> client \<Rightarrow> bool" where
  "same_core c c' \<longleftrightarrow> core c' = core c \<and> cflags c \<subseteq> cflags c'"

lemma same_core_refl [simp]: "same_core c c"
  by (simp add: same_core_def)

lemma same_core_trans: "same_core a b \<Longrightarrow> same_core b c \<Longrightarrow> same_core a c"
  by (auto simp: same_core_def)

lemma core_fields:
  "fd (core c) = fd c" "cdb (core c) = cdb c" "querybuf (core c) = querybuf c"
  "argv (core c) = argv c" "cmd (core c) = cmd c" "reqtype (core c) = reqtype c"
  "multibulklen (core c) = multibulklen c" "bulklen (core c) = bulklen c"
  "mstate (core c) = mstate c" "watched_keys (core c) = watched_keys c"
  "pubsub_channels (core c) = pubsub_channels c" "pubsub_patterns (core c) = pubsub_patterns c"
  "authenticated (core c) = authenticated c" "replstate (core c) = replstate c"
  "sentlen (core c) = sentlen c"
  by (simp_all add: core_def)

lemma same_core_fields:
  assumes "same_core c c'"
  shows "fd c' = fd c" "cdb c' = cdb c" "querybuf c' = querybuf c" "argv c' = argv c" "cmd c' = cmd c"
    "reqtype c' = reqtype c" "multibulklen c' = multibulklen c" "bulklen c' = bulklen c"
    "mstate c' = mstate c" "watched_keys c' = watched_keys c" "pubsub_channels c' = pubsub_channels c"
    "pubsub_patterns c' = pubsub_patterns c" "authenticated c' = authenticated c"
    "replstate c' = replstate c" "sentlen c' = sentlen c"
    "f \<noteq> REDIS_CLOSE_ASAP \<Longrightarrow> f \<in> cflags c' \<longleftrightarrow> f \<in> cflags c"
proof -
  have k: "core c' = core c" using assms by (simp add: same_core_def)
  have "cflags (core c') = cflags (core c)" using k by simp
  then show "f \<noteq> REDIS_CLOSE_ASAP \<Longrightarrow> f \<in> cflags c' \<longleftrightarrow> f \<in> cflags c"
    by (auto simp: core_def)
qed (metis assms core_fields same_core_def)+

lemma asyncClose_fields [simp]:
  "buf (asyncClose e c) = buf c" "reply (asyncClose e c) = reply c"
  "sentlen (asyncClose e c) = sentlen c" "reply_bytes (asyncClose e c) = reply_bytes c"
  by (simp_all add: asyncClose_def checkClientOutputBufferLimits_def Let_def split: prod.splits)

lemma core_asyncClose [simp]: "core (asyncClose e c) = core c"
  by (simp add: asyncClose_def checkClientOutputBufferLimits_def core_def Let_def)

lemma same_core_asyncClose: "same_core c (asyncClose e c)"
  by (auto simp: same_core_def asyncClose_def checkClientOutputBufferLimits_def core_def Let_def)

lemma flags_asyncClose: "cflags c \<subseteq> cflags (asyncClose e c)"
  by (auto simp: asyncClose_def checkClientOutputBufferLimits_def Let_def)

section \<open>Adding a reply appends its text\<close>

lemma client_out_asyncClose [simp]: "client_out (asyncClose e c) = client_out c"
  by (simp add: client_out_def)

lemma out_wf_asyncClose [simp]: "out_wf (asyncClose e c) = out_wf c"
  by (simp add: out_wf_def)

lemma out_wf_sentlen: "out_wf c \<Longrightarrow> sentlen c \<le> length (buf c @ concat (map chunk_text (reply c)))"
  by (cases "reply c") (auto simp: out_wf_def split: if_splits)

lemma prepare_fields:
  assumes "prepareClientToWrite c = (c', ok)"
  shows "buf c' = buf c" "reply c' = reply c" "sentlen c' = sentlen c" "cflags c' = cflags c"
    "reply_bytes c' = reply_bytes c" "same_core c c'"
  using assms
  by (auto simp: prepareClientToWrite_def same_core_def core_def split: if_splits)

lemma prepare_out:
  assumes "prepareClientToWrite c = (c', ok)"
  shows "client_out c' = client_out c" "out_wf c' = out_wf c"
  using prepare_fields [OF assms] by (simp_all add: client_out_def out_wf_def)

definition push_text :: "out_env \<Rightarrow> client \<Rightarrow> bytes \<Rightarrow> client" where
  "push_text e c s = (let (c', ok) = addReplyToBuffer c s in if ok then c' else addReplyStringToList e c s)"

lemma addReplyString_alt:
  "addReplyString e c s =
     (let (c, ok) = prepareClientToWrite c in if \<not> ok then c else push_text e c s)"
  by (cases "prepareClientToWrite c") (simp add: addReplyString_def push_text_def)

lemma addReplyObj_alt: "addReplyObj e c obj = addReplyString e c (getDecodedObject obj)"
  by (simp add: addReplyObj_def addReplyString_alt push_text_def Let_def
      split: sobj.splits prod.splits)

lemma same_core_addReplyStringToList: "same_core c (addReplyStringToList e c s)"
proof -
  have "same_core c (asyncClose e (c\<lparr>reply := r, reply_bytes := n\<rparr>))" for r n
    by (rule same_core_trans [OF _ same_core_asyncClose]) (simp add: same_core_def core_def)
  then show ?thesis by (auto simp: addReplyStringToList_def split: option.splits)
qed

lemma same_core_push_text: "same_core c (push_text e c s)"
  using same_core_addReplyStringToList
  by (auto simp: push_text_def addReplyToBuffer_def Let_def same_core_def core_def)

lemma same_core_addReplyString: "same_core c (addReplyString e c s)"
proof -
  obtain c' ok where r: "prepareClientToWrite c = (c', ok)" by force
  have "same_core c (push_text e c' s)"
    using prepare_fields(6) [OF r] same_core_push_text by (rule same_core_trans)
  with prepare_fields(6) [OF r] show ?thesis by (simp add: addReplyString_alt r)
qed

lemma last_chunk: "reply c \<noteq> [] \<Longrightarrow>
   concat (map chunk_text (butlast (reply c) @ [Some (chunk_text (last (reply c)) @ s)])) =
   concat (map chunk_text (reply c)) @ s"
  by (cases "reply c" rule: rev_cases) auto

lemma push_text_list:
  assumes "out_wf c" and "REDIS_CLOSE_AFTER_REPLY \<notin> cflags c"
  shows "client_out (addReplyStringToList e c s) = client_out c @ s"
    "out_wf (addReplyStringToList e c s)"
proof -
  have 1: "client_out (c\<lparr>reply := reply c @ [Some s], reply_bytes := n\<rparr>) = client_out c @ s \<and>
      out_wf (c\<lparr>reply := reply c @ [Some s], reply_bytes := n\<rparr>)" for n
    using assms(1) out_wf_sentlen [OF assms(1)]
    by (auto simp: client_out_def out_wf_def split: if_splits)
  have 2: "client_out (c\<lparr>reply := butlast (reply c) @ [Some (t @ s)], reply_bytes := n\<rparr>) = client_out c @ s \<and>
      out_wf (c\<lparr>reply := butlast (reply c) @ [Some (t @ s)], reply_bytes := n\<rparr>)"
    if "reply c \<noteq> []" "last (reply c) = Some t" for t n
    using assms(1) out_wf_sentlen [OF assms(1)] that last_chunk [OF that(1), of s]
    by (cases "reply c" rule: rev_cases)
      (auto simp: client_out_def out_wf_def hd_append split: if_splits)
  show "client_out (addReplyStringToList e c s) = client_out c @ s"
    using assms(2) 1 2 by (auto simp: addReplyStringToList_def split: option.splits)
  show "out_wf (addReplyStringToList e c s)"
    using assms(2) 1 2 by (auto simp: addReplyStringToList_def split: option.splits)
qed

lemma addReplyToBuffer_ok:
  assumes "addReplyToBuffer c s = (c', True)" and "out_wf c" and "REDIS_CLOSE_AFTER_REPLY \<notin> cflags c"
  shows "client_out c' = client_out c @ s \<and> out_wf c'"
  using assms out_wf_sentlen [OF assms(2)]
  by (auto simp: addReplyToBuffer_def client_out_def out_wf_def Let_def split: if_splits)

lemma push_text_out:
  assumes "out_wf c"
  shows "client_out (push_text e c s) =
     client_out c @ (if REDIS_CLOSE_AFTER_REPLY \<in> cflags c then [] else s)"
    "out_wf (push_text e c s)"
proof -
  obtain c' ok where r: "addReplyToBuffer c s = (c', ok)" by force
  show "client_out (push_text e c s) =
     client_out c @ (if REDIS_CLOSE_AFTER_REPLY \<in> cflags c then [] else s)"
    "out_wf (push_text e c s)"
    using addReplyToBuffer_ok [of c s c'] push_text_list [OF assms, of e s] assms r
    by (auto simp: push_text_def addReplyToBuffer_def Let_def split: if_splits)
qed

lemma addReplyString_out:
  assumes "out_wf c"
  shows "client_out (addReplyString e c s) = client_out c @ (if accepts c then s else [])"
    "out_wf (addReplyString e c s)"
proof -
  obtain c' ok where r: "prepareClientToWrite c = (c', ok)" by force
  show "client_out (addReplyString e c s) = client_out c @ (if accepts c then s else [])"
    "out_wf (addReplyString e c s)"
    using push_text_out [of c' e s] prepare_out [OF r] prepare_fields(4) [OF r] assms r
    by (auto simp: addReplyString_alt accepts_def)
qed

lemma same_core_accepts:
  assumes "same_core c c'" and "ev_err c = False" and "ev_err c' = False"
  shows "accepts c' = accepts c"
  using same_core_fields [OF assms(1)] assms(2,3)
  by (auto simp: accepts_def prepareClientToWrite_def)

lemma ev_err_same_core: "same_core c c' \<Longrightarrow> ev_err c' = ev_err c"
proof -
  assume "same_core c c'"
  then have "ev_err (core c') = ev_err (core c)" by (simp add: same_core_def)
  then show ?thesis by (simp add: core_def)
qed

text \<open>The output buffers of a client that takes replies are an append-only byte buffer.\<close>

definition out_ready :: "client \<Rightarrow> bool" where
  "out_ready c \<longleftrightarrow> out_wf c \<and> accepts c \<and> \<not> ev_err c"

lemma addReplyString_ready: "out_ready c \<Longrightarrow> out_ready (addReplyString e c s)"
  using addReplyString_out [of c e s] same_core_addReplyString [of c e s]
    same_core_accepts [of c "addReplyString e c s"] ev_err_same_core [of c "addReplyString e c s"]
  by (simp add: out_ready_def)

interpretation outb: byte_builder out_ready client_out cap "\<lambda>c t. Some (addReplyString e c t)" for cap e
  using addReplyString_ready addReplyString_out by unfold_locales (simp add: out_ready_def)

section \<open>Sending loses and repeats nothing\<close>

definition filled :: "client \<Rightarrow> bool" where
  "filled c \<longleftrightarrow> None \<notin> set (reply c)"

lemma buf_sent_out:
  assumes "out_wf c" and "buf c \<noteq> []" and "w = take n (drop (sentlen c) (buf c))"
  shows "client_out c = w @ client_out (buf_sent c w)" "out_wf (buf_sent c w)"
proof -
  have l: "sentlen c < length (buf c)" "length (buf c) \<le> REDIS_REPLY_CHUNK_BYTES"
    using assms(1,2) by (auto simp: out_wf_def)
  have "client_out c = w @ client_out (buf_sent c w) \<and> out_wf (buf_sent c w)"
  proof (cases "n < length (buf c) - sentlen c")
    case True
    then have "drop (sentlen c) (buf c) = w @ drop (sentlen c + length w) (buf c)"
      using assms(3) by (metis append_take_drop_id drop_drop add.commute length_take length_drop min.absorb4)
    then show ?thesis using l True assms(2,3)
      by (auto simp: buf_sent_def client_out_def out_wf_def Let_def)
  next
    case False
    then have "w = drop (sentlen c) (buf c)" using assms(3) by simp
    then show ?thesis using l assms(2) by (simp add: buf_sent_def client_out_def out_wf_def Let_def)
  qed
  then show "client_out c = w @ client_out (buf_sent c w)" "out_wf (buf_sent c w)" by simp_all
qed

lemma chunk_sent_out:
  assumes "out_wf c" and "buf c = []" and "reply c = Some s # r" and "s \<noteq> []"
    and "w = take n (drop (sentlen c) s)"
  shows "client_out c = w @ client_out (chunk_sent e c s w)" "out_wf (chunk_sent e c s w)"
proof -
  have l: "sentlen c < length s" using assms(1-4) by (auto simp: out_wf_def)
  have "client_out c = w @ client_out (chunk_sent e c s w) \<and> out_wf (chunk_sent e c s w)"
  proof (cases "n < length s - sentlen c")
    case True
    then have "drop (sentlen c) s = w @ drop (sentlen c + length w) s"
      using assms(5) by (metis append_take_drop_id drop_drop add.commute length_take length_drop min.absorb4)
    then show ?thesis using l True assms(2-5)
      by (auto simp: chunk_sent_def client_out_def out_wf_def Let_def)
  next
    case False
    then have "w = drop (sentlen c) s" using assms(5) by simp
    then show ?thesis using l assms(2-5) by (simp add: chunk_sent_def client_out_def out_wf_def Let_def)
  qed
  then show "client_out c = w @ client_out (chunk_sent e c s w)" "out_wf (chunk_sent e c s w)" by simp_all
qed

lemma sent_fields [simp]:
  "cflags (buf_sent c w) = cflags c" "cflags (chunk_sent e c s w) = cflags c"
  "filled c \<Longrightarrow> filled (buf_sent c w)"
  by (simp_all add: buf_sent_def chunk_sent_def filled_def Let_def)

lemma filled_chunk_sent: "filled c \<Longrightarrow> reply c \<noteq> [] \<Longrightarrow> filled (chunk_sent e c s w)"
  by (cases "reply c") (auto simp: chunk_sent_def filled_def Let_def)

lemma send_loop_simps:
  "buf c = [] \<Longrightarrow> reply c = [] \<Longrightarrow> send_loop e pause c ws sent = Some (c, sent, WOk 0)"
  "buf c \<noteq> [] \<Longrightarrow> next_write ws = WOk (Suc n) \<Longrightarrow> w = take (Suc n) (drop (sentlen c) (buf c)) \<Longrightarrow>
   send_loop e pause c ws sent =
     (if length (sent @ w) > REDIS_MAX_WRITE_PER_EVENT \<and> pause
      then Some (buf_sent c w, sent @ w, WOk (Suc n))
      else send_loop e pause (buf_sent c w) (tl ws) (sent @ w))"
  "buf c \<noteq> [] \<or> reply c = Some s # r \<and> s \<noteq> [] \<Longrightarrow> \<forall>n. next_write ws \<noteq> WOk (Suc n) \<Longrightarrow>
   send_loop e pause c ws sent = Some (c, sent, next_write ws)"
  "buf c = [] \<Longrightarrow> reply c = Some [] # r \<Longrightarrow>
   send_loop e pause c ws sent = send_loop e pause (c\<lparr>reply := r\<rparr>) ws sent"
  "buf c = [] \<Longrightarrow> reply c = Some s # r \<Longrightarrow> s \<noteq> [] \<Longrightarrow> next_write ws = WOk (Suc n) \<Longrightarrow>
   w = take (Suc n) (drop (sentlen c) s) \<Longrightarrow>
   send_loop e pause c ws sent =
     (if length (sent @ w) > REDIS_MAX_WRITE_PER_EVENT \<and> pause
      then Some (chunk_sent e c s w, sent @ w, WOk (Suc n))
      else send_loop e pause (chunk_sent e c s w) (tl ws) (sent @ w))"
  by (subst send_loop.simps, auto simp: Let_def split: write_result.splits nat.splits)+

definition send_ok where
  "send_ok e pause c ws sent \<longleftrightarrow>
     (\<exists>c' sent' r. send_loop e pause c ws sent = Some (c', sent', r) \<and>
       sent @ client_out c = sent' @ client_out c' \<and> out_wf c' \<and> filled c' \<and>
       cflags c' = cflags c \<and> (r = WErr \<longrightarrow> WErr \<in> set ws))"

lemma set_tl_subset: "set (tl xs) \<subseteq> set xs"
  by (cases xs) auto

lemma next_write_Err: "next_write ws = WErr \<Longrightarrow> WErr \<in> set ws"
  by (auto simp: next_write_def split: list.splits)

lemma send_ok_stop:
  "send_loop e pause c ws sent = Some (c', sent @ w, r) \<Longrightarrow> client_out c = w @ client_out c' \<Longrightarrow>
   out_wf c' \<Longrightarrow> filled c' \<Longrightarrow> cflags c' = cflags c \<Longrightarrow> (r = WErr \<longrightarrow> WErr \<in> set ws) \<Longrightarrow>
   send_ok e pause c ws sent"
  by (simp add: send_ok_def)

lemma send_ok_step:
  "send_loop e pause c ws sent = send_loop e pause c' ws' (sent @ w) \<Longrightarrow>
   client_out c = w @ client_out c' \<Longrightarrow> cflags c' = cflags c \<Longrightarrow> set ws' \<subseteq> set ws \<Longrightarrow>
   send_ok e pause c' ws' (sent @ w) \<Longrightarrow> send_ok e pause c ws sent"
  unfolding send_ok_def by fastforce

lemma send_loop_spec:
  assumes "out_wf c" and "filled c"
  shows "send_ok e pause c ws sent"
  using assms
proof (induction "length ws + length (reply c)" arbitrary: ws c sent rule: less_induct)
  case (less ws c sent)
  consider "buf c = []" "reply c = []"
    | n where "buf c \<noteq> []" "next_write ws = WOk (Suc n)"
    | s r where "buf c \<noteq> [] \<or> reply c = Some s # r \<and> s \<noteq> []" "\<forall>n. next_write ws \<noteq> WOk (Suc n)"
    | r where "buf c = []" "reply c = Some [] # r"
    | s r n where "buf c = []" "reply c = Some s # r" "s \<noteq> []" "next_write ws = WOk (Suc n)"
  proof -
    have "None \<notin> set (reply c)" using less.prems(2) by (simp add: filled_def)
    then show ?thesis using that by (cases "reply c"; cases "\<exists>n. next_write ws = WOk (Suc n)")
        (metis list.set_intros(1) option.exhaust)+
  qed
  then show ?case
  proof cases
    case 1
    then show ?thesis using less.prems send_ok_stop [of e pause c ws sent c "[]"]
      by (simp add: send_loop_simps(1))
  next
    case (2 n)
    define w where "w = take (Suc n) (drop (sentlen c) (buf c))"
    have l: "length (tl ws) + length (reply (buf_sent c w)) < length ws + length (reply c)"
      using 2(2) by (cases ws) (auto simp: next_write_def buf_sent_def Let_def)
    note k = buf_sent_out [OF less.prems(1) 2(1) w_def] send_loop_simps(2) [OF 2 w_def, of e pause sent]
    show ?thesis
    proof (cases "length (sent @ w) > REDIS_MAX_WRITE_PER_EVENT \<and> pause")
      case True
      then show ?thesis using k(3) less.prems(2) by (intro send_ok_stop [OF _ k(1,2)]) auto
    next
      case False
      then show ?thesis using k(3) less.prems(2)
        by (intro send_ok_step [OF _ k(1) _ set_tl_subset less.hyps [OF l k(2)]]) auto
    qed
  next
    case (3 s r)
    then show ?thesis
      using less.prems send_ok_stop [of e pause c ws sent c "[]"] send_loop_simps(3) [OF 3] next_write_Err
      by simp
  next
    case (4 r)
    have "client_out (c\<lparr>reply := r\<rparr>) = client_out c" "out_wf (c\<lparr>reply := r\<rparr>)" "filled (c\<lparr>reply := r\<rparr>)"
      using less.prems 4 by (auto simp: client_out_def out_wf_def filled_def)
    then show ?thesis
      using send_ok_step [of e pause c ws sent "c\<lparr>reply := r\<rparr>" ws "[]"] send_loop_simps(4) [OF 4]
        less.hyps [of ws "c\<lparr>reply := r\<rparr>" sent] 4 by simp
  next
    case (5 s r n)
    define w where "w = take (Suc n) (drop (sentlen c) s)"
    have l: "length (tl ws) + length (reply (chunk_sent e c s w)) < length ws + length (reply c)"
      using 5(2,4) by (cases ws) (auto simp: next_write_def chunk_sent_def Let_def)
    note k = chunk_sent_out [OF less.prems(1) 5(1-3) w_def, of e]
      send_loop_simps(5) [OF 5 w_def, of e pause sent]
    have f: "filled (chunk_sent e c s w)" using filled_chunk_sent less.prems(2) 5(2) by simp
    show ?thesis
    proof (cases "length (sent @ w) > REDIS_MAX_WRITE_PER_EVENT \<and> pause")
      case True
      then show ?thesis using k(3) f by (intro send_ok_stop [OF _ k(1,2)]) auto
    next
      case False
      then show ?thesis using k(3) f
        by (intro send_ok_step [OF _ k(1) _ set_tl_subset less.hyps [OF l k(2)]]) auto
    qed
  qed
qed

text \<open>C11: \<open>sendReplyToClient\<close> hands the socket a prefix of what the client has still to receive and
  keeps exactly the rest, whatever \<open>write\<close> answers: nothing is lost, repeated or reordered across
  the static buffer and the chunks. The connection is closed exactly when writing failed or when
  everything is sent and the client was to be closed after its reply.\<close>

theorem sendReplyToClient_exact:
  assumes "out_wf c" and "filled c"
  shows "\<exists>c' sent closed. sendReplyToClient e pause c ws = Some (c', sent, closed) \<and>
     client_out c = sent @ client_out c' \<and> out_wf c' \<and> filled c' \<and>
     (closed \<longrightarrow> WErr \<in> set ws \<or> client_out c' = [] \<and> REDIS_CLOSE_AFTER_REPLY \<in> cflags c)"
proof -
  obtain c' sent' r' where s: "send_loop e pause c ws [] = Some (c', sent', r')"
    "client_out c = sent' @ client_out c'" "out_wf c'" "filled c'" "cflags c' = cflags c"
    "r' = WErr \<longrightarrow> WErr \<in> set ws"
    using send_loop_spec [OF assms, of e pause ws "[]"] by (auto simp: send_ok_def)
  have t: "client_out (c'\<lparr>lastinteraction := t\<rparr>) = client_out c'" "out_wf (c'\<lparr>lastinteraction := t\<rparr>)"
    "filled (c'\<lparr>lastinteraction := t\<rparr>)" for t
    using s(3,4) by (simp_all add: client_out_def out_wf_def filled_def)
  have z: "buf c' = [] \<Longrightarrow> reply c' = [] \<Longrightarrow> client_out c' = [] \<and>
      client_out (c'\<lparr>sentlen := 0, wr_event := b\<rparr>) = [] \<and> out_wf (c'\<lparr>sentlen := 0, wr_event := b\<rparr>) \<and>
      client_out (c'\<lparr>lastinteraction := t, sentlen := 0, wr_event := b\<rparr>) = [] \<and>
      out_wf (c'\<lparr>lastinteraction := t, sentlen := 0, wr_event := b\<rparr>)" for b t
    by (simp add: client_out_def out_wf_def)
  show ?thesis
    using s t z by (auto simp: sendReplyToClient_def Let_def filled_def)
qed

theorem sendReplyToClient_exact_witness:
  "\<forall>e. \<exists>c' sent closed. sendReplyToClient e True
       ((createClient 5 0)\<lparr>buf := [1, 2, 3], reply := [Some [4, 5], Some []], sentlen := 1\<rparr>)
       [WOk 1, WOk 7, WAgain] = Some (c', sent, closed) \<and>
     [2, 3, 4, 5] = sent @ client_out c' \<and> out_wf c' \<and> filled c' \<and>
     (closed \<longrightarrow> WErr \<in> set [WOk 1, WOk 7, WAgain] \<or> client_out c' = [] \<and> False)"
proof
  fix e
  show "\<exists>c' sent closed. sendReplyToClient e True
       ((createClient 5 0)\<lparr>buf := [1, 2, 3], reply := [Some [4, 5], Some []], sentlen := 1\<rparr>)
       [WOk 1, WOk 7, WAgain] = Some (c', sent, closed) \<and>
     [2, 3, 4, 5] = sent @ client_out c' \<and> out_wf c' \<and> filled c' \<and>
     (closed \<longrightarrow> WErr \<in> set [WOk 1, WOk 7, WAgain] \<or> client_out c' = [] \<and> False)"
    using sendReplyToClient_exact
      [of "(createClient 5 0)\<lparr>buf := [1, 2, 3], reply := [Some [4, 5], Some []], sentlen := 1\<rparr>"
        e True "[WOk 1, WOk 7, WAgain]"]
    by (simp add: createClient_def out_wf_def filled_def client_out_def REDIS_REPLY_CHUNK_BYTES_def)
qed

text \<open>A deferred length is filled in where the client expects it: before everything added since.\<close>

lemma setDeferred_out:
  assumes "out_wf c" and "sentlen c = 0" and "addDeferredMultiBulkLength c = (c0, Some i)"
    and "buf c1 = buf c0" and "reply c1 = reply c0 @ r" and "sentlen c1 = 0" and "None \<notin> set r"
  shows "client_out (setDeferredMultiBulkLength e c1 (Some i) n) =
     client_out c @ ch CHR ''*'' # ll_repr n @ crlf @ concat (map chunk_text r)"
proof -
  obtain c' where p: "prepareClientToWrite c = (c', True)" and
    c0: "c0 = c'\<lparr>reply := reply c' @ [None]\<rparr>" and i: "i = length (reply c')"
    using assms(3) by (auto simp: addDeferredMultiBulkLength_def split: prod.splits if_splits)
  note f = prepare_fields [OF p]
  show ?thesis
    using assms(2,4,5,6,7) f c0 i
    by (cases r) (auto simp: setDeferredMultiBulkLength_def client_out_def Let_def nth_append
        split: option.splits)
qed

lemma same_core_setDeferred: "same_core c (setDeferredMultiBulkLength e c node n)"
proof -
  have "same_core c (asyncClose e (c\<lparr>reply := r, reply_bytes := m\<rparr>))" for r m
    by (rule same_core_trans [OF _ same_core_asyncClose]) (simp add: same_core_def core_def)
  then show ?thesis
    by (auto simp: setDeferredMultiBulkLength_def Let_def split: option.splits)
qed

lemma same_core_addDeferred: "addDeferredMultiBulkLength c = (c', i) \<Longrightarrow> same_core c c'"
proof -
  assume a: "addDeferredMultiBulkLength c = (c', i)"
  obtain c1 ok where p: "prepareClientToWrite c = (c1, ok)" by force
  have "same_core c1 (c1\<lparr>reply := reply c1 @ [None]\<rparr>)" by (simp add: same_core_def core_def)
  then show ?thesis using a p prepare_fields(6) [OF p] same_core_trans
    by (auto simp: addDeferredMultiBulkLength_def split: if_splits)
qed

section \<open>Output limits\<close>



end
