(* ===== verification/Server.thy ===== *)
theory Server
  imports Client
begin

text \<open>
  The state of the server (\<open>redis.h\<close>), replies to clients (\<open>networking.c\<close>), publishing and keyspace
  notifications (\<open>pubsub.c\<close>, \<open>notify.c\<close>). Operations pass the state explicitly; \<^term>\<open>None\<close> is a failed
  assertion or an access outside a string.

  A database is a pair of finite maps for its two dictionaries, which the theory Dict shows the hash
  tables to be, and the map of watched keys. Values that are not strings are opaque: a type and a
  content of type \<open>'o\<close>. Clients are numbered. What the operating system decides is part of the
  state: the time \<open>mstime\<close>, the order \<open>dict_order\<close> in which an iterator visits the keys of a
  dictionary. The append only file is the buffer \<open>aof_buf\<close>; what is sent to the replicas, to
  monitoring clients and to the slow log is recorded in logs.
\<close>

section \<open>The state\<close>

datatype rtype = REDIS_STRING | REDIS_LIST | REDIS_SET | REDIS_ZSET | REDIS_HASH

datatype 'o rval = VString sobj | VAgg rtype 'o

record 'o robj =
  rval :: "'o rval"
  lru :: nat

record 'o redisDb =
  ddict :: "bytes \<rightharpoonup> 'o robj"
  dexpires :: "bytes \<rightharpoonup> int"
  dwatched :: "bytes \<rightharpoonup> nat list"

datatype notify_class = REDIS_NOTIFY_KEYSPACE | REDIS_NOTIFY_KEYEVENT | REDIS_NOTIFY_GENERIC
  | REDIS_NOTIFY_STRING | REDIS_NOTIFY_LIST | REDIS_NOTIFY_SET | REDIS_NOTIFY_HASH
  | REDIS_NOTIFY_ZSET | REDIS_NOTIFY_EXPIRED | REDIS_NOTIFY_EVICTED

datatype aof_state = REDIS_AOF_OFF | REDIS_AOF_ON | REDIS_AOF_WAIT_REWRITE

datatype maxmemory_policy = REDIS_MAXMEMORY_VOLATILE_LRU | REDIS_MAXMEMORY_VOLATILE_TTL
  | REDIS_MAXMEMORY_VOLATILE_RANDOM | REDIS_MAXMEMORY_ALLKEYS_LRU | REDIS_MAXMEMORY_ALLKEYS_RANDOM
  | REDIS_MAXMEMORY_NO_EVICTION

text \<open>A command as it is fed to the replicas: database and arguments.\<close>

type_synonym feed = "nat \<times> bytes list"

record 'o server =
  dbs :: "nat \<Rightarrow> 'o redisDb"
  dbnum :: nat
  clients :: "nat \<Rightarrow> client"
  client_list :: "nat list"
  clients_to_close :: "nat list"
  monitors :: "nat list"
  commands :: command_dict
  orig_commands :: command_dict
  srv_channels :: "bytes \<rightharpoonup> nat list"
  srv_patterns :: "(nat \<times> bytes) list"
  notify_keyspace_events :: "notify_class set"
  dirty :: int
  stat_keyspace_hits :: nat
  stat_keyspace_misses :: nat
  stat_expiredkeys :: nat
  stat_numcommands :: nat
  cmd_calls :: "string \<Rightarrow> nat"
  loading :: bool
  masterhost :: bool
  lua_caller :: "nat option"
  lua_time_start :: int
  mstime :: int
  lruclock :: nat
  rdb_child :: bool
  aof_child :: bool
  aof_state :: aof_state
  aof_selected_db :: int
  aof_buf :: bytes
  aof_rewrite_buf :: bytes
  oenv :: out_env
  dict_order :: "bytes set \<Rightarrow> bytes list"
  repl_log :: "feed list"
  monitor_log :: "(nat \<times> feed) list"
  slow_log :: "bytes list list"
  also_propagate :: "(redisCommand \<times> feed \<times> bool \<times> bool) list"
  requirepass :: "bytes option"
  maxmemory :: nat
  maxmemory_policy :: maxmemory_policy
  maxmemory_samples :: nat
  stat_evictedkeys :: nat
  stop_writes_on_bgsave_err :: bool
  saveparamslen :: nat
  lastbgsave_ok :: bool
  aof_last_write_ok :: bool
  aof_write_error :: bytes
  repl_min_slaves_to_write :: nat
  repl_min_slaves_max_lag :: nat
  repl_good_slaves_count :: nat
  repl_slave_ro :: bool
  repl_connected :: bool
  repl_serve_stale_data :: bool
  lua_timedout :: bool
  lastsave :: int

definition saving_child :: "'o server \<Rightarrow> bool" where
  "saving_child s \<longleftrightarrow> rdb_child s \<or> aof_child s"

definition upd_client :: "nat \<Rightarrow> (client \<Rightarrow> client) \<Rightarrow> 'o server \<Rightarrow> 'o server" where
  "upd_client c f s = s\<lparr>clients := (clients s)(c := f (clients s c))\<rparr>"

definition upd_db :: "nat \<Rightarrow> ('o redisDb \<Rightarrow> 'o redisDb) \<Rightarrow> 'o server \<Rightarrow> 'o server" where
  "upd_db j f s = s\<lparr>dbs := (dbs s)(j := f (dbs s j))\<rparr>"

text \<open>An argument of the current command; beyond the vector the access is invalid.\<close>

definition arg :: "'o server \<Rightarrow> nat \<Rightarrow> nat \<Rightarrow> bytes option" where
  "arg s c i = (if i < length (argv (clients s c)) then Some (argv (clients s c) ! i) else None)"

definition argc :: "'o server \<Rightarrow> nat \<Rightarrow> nat" where
  "argc s c = length (argv (clients s c))"

section \<open>Replies\<close>

definition shared_ok :: bytes where "shared_ok = cstr ''+OK'' @ crlf"
definition shared_emptybulk :: bytes where "shared_emptybulk = cstr ''$0'' @ crlf @ crlf"
definition shared_czero :: bytes where "shared_czero = cstr '':0'' @ crlf"
definition shared_cone :: bytes where "shared_cone = cstr '':1'' @ crlf"
definition shared_nullbulk :: bytes where "shared_nullbulk = cstr ''$-1'' @ crlf"
definition shared_nullmultibulk :: bytes where "shared_nullmultibulk = cstr ''*-1'' @ crlf"
definition shared_pong :: bytes where "shared_pong = cstr ''+PONG'' @ crlf"
definition shared_queued :: bytes where "shared_queued = cstr ''+QUEUED'' @ crlf"
definition shared_wrongtypeerr :: bytes where
  "shared_wrongtypeerr =
     cstr ''-WRONGTYPE Operation against a key holding the wrong kind of value'' @ crlf"
definition shared_nokeyerr :: bytes where "shared_nokeyerr = cstr ''-ERR no such key'' @ crlf"
definition shared_syntaxerr :: bytes where "shared_syntaxerr = cstr ''-ERR syntax error'' @ crlf"
definition shared_sameobjecterr :: bytes where
  "shared_sameobjecterr = cstr ''-ERR source and destination objects are the same'' @ crlf"
definition shared_outofrangeerr :: bytes where
  "shared_outofrangeerr = cstr ''-ERR index out of range'' @ crlf"
definition shared_loadingerr :: bytes where
  "shared_loadingerr = cstr ''-LOADING Redis is loading the dataset in memory'' @ crlf"
definition shared_slowscripterr :: bytes where
  "shared_slowscripterr = cstr (''-BUSY Redis is busy running a script. '' @
     ''You can only call SCRIPT KILL or SHUTDOWN NOSAVE.'') @ crlf"
definition shared_masterdownerr :: bytes where
  "shared_masterdownerr = cstr (''-MASTERDOWN Link with MASTER is down and '' @
     ''slave-serve-stale-data is set to '' @ [CHR 0x27] @ ''no'' @ [CHR 0x27] @ ''.'') @ crlf"
definition shared_bgsaveerr :: bytes where
  "shared_bgsaveerr = cstr (''-MISCONF Redis is configured to save RDB snapshots, but is currently '' @
     ''not able to persist on disk. Commands that may modify the data set are disabled. '' @
     ''Please check Redis logs for details about the error.'') @ crlf"
definition shared_roslaveerr :: bytes where
  "shared_roslaveerr = cstr (''-READONLY You can'' @ [CHR 0x27] @ ''t write against a read only slave.'') @ crlf"
definition shared_noautherr :: bytes where
  "shared_noautherr = cstr ''-NOAUTH Authentication required.'' @ crlf"
definition shared_oomerr :: bytes where
  "shared_oomerr = cstr (''-OOM command not allowed when used memory > '' @ [CHR 0x27] @ ''maxmemory'' @
     [CHR 0x27] @ ''.'') @ crlf"
definition shared_execaborterr :: bytes where
  "shared_execaborterr = cstr ''-EXECABORT Transaction discarded because of previous errors.'' @ crlf"
definition shared_noreplicaserr :: bytes where
  "shared_noreplicaserr = cstr ''-NOREPLICAS Not enough good slaves to write.'' @ crlf"
definition shared_messagebulk :: bytes where "shared_messagebulk = cstr ''$7'' @ crlf @ cstr ''message'' @ crlf"
definition shared_pmessagebulk :: bytes where "shared_pmessagebulk = cstr ''$8'' @ crlf @ cstr ''pmessage'' @ crlf"
definition shared_subscribebulk :: bytes where
  "shared_subscribebulk = cstr ''$9'' @ crlf @ cstr ''subscribe'' @ crlf"
definition shared_unsubscribebulk :: bytes where
  "shared_unsubscribebulk = cstr ''$11'' @ crlf @ cstr ''unsubscribe'' @ crlf"
definition shared_psubscribebulk :: bytes where
  "shared_psubscribebulk = cstr ''$10'' @ crlf @ cstr ''psubscribe'' @ crlf"
definition shared_punsubscribebulk :: bytes where
  "shared_punsubscribebulk = cstr ''$12'' @ crlf @ cstr ''punsubscribe'' @ crlf"

text \<open>The headers \<open>shared.mbulkhdr\<close> and \<open>shared.bulkhdr\<close>, and what is printed for larger numbers.\<close>

definition len_hdr :: "char \<Rightarrow> int \<Rightarrow> bytes" where
  "len_hdr pfx ll = ch pfx # ll_repr ll @ crlf"

text \<open>Storing the client after an output function; \<open>freeClientAsync\<close> puts it into the queue of clients
  to close when its flag is new.\<close>

definition put_out :: "nat \<Rightarrow> client \<Rightarrow> 'o server \<Rightarrow> 'o server" where
  "put_out c cl s =
     s\<lparr>clients := (clients s)(c := cl),
       clients_to_close :=
         (if REDIS_CLOSE_ASAP \<in> cflags cl \<and> REDIS_CLOSE_ASAP \<notin> cflags (clients s c)
          then clients_to_close s @ [c] else clients_to_close s)\<rparr>"

definition addReply :: "nat \<Rightarrow> sobj \<Rightarrow> 'o server \<Rightarrow> 'o server" where
  "addReply c obj s = put_out c (addReplyObj (oenv s) (clients s c) obj) s"

definition addReplyStr :: "nat \<Rightarrow> bytes \<Rightarrow> 'o server \<Rightarrow> 'o server" where
  "addReplyStr c t s = put_out c (addReplyString (oenv s) (clients s c) t) s"

definition addReplyErrorLength :: "nat \<Rightarrow> bytes \<Rightarrow> 'o server \<Rightarrow> 'o server" where
  "addReplyErrorLength c t s =
     addReplyStr c crlf (addReplyStr c t (addReplyStr c (cstr ''-ERR '') s))"

definition addReplyError :: "nat \<Rightarrow> string \<Rightarrow> 'o server \<Rightarrow> 'o server" where
  "addReplyError c err = addReplyErrorLength c (cstr err)"

text \<open>The formatted text is given; line ends in it become spaces.\<close>

definition addReplyErrorFormat :: "nat \<Rightarrow> bytes \<Rightarrow> 'o server \<Rightarrow> 'o server" where
  "addReplyErrorFormat c t =
     addReplyErrorLength c (map (\<lambda>x. if x = 13 \<or> x = 10 then 32 else x) t)"

definition addReplyStatusLength :: "nat \<Rightarrow> bytes \<Rightarrow> 'o server \<Rightarrow> 'o server" where
  "addReplyStatusLength c t s = addReplyStr c crlf (addReplyStr c t (addReplyStr c (cstr ''+'') s))"

definition addReplyStatus :: "nat \<Rightarrow> string \<Rightarrow> 'o server \<Rightarrow> 'o server" where
  "addReplyStatus c t = addReplyStatusLength c (cstr t)"

definition addReplyLongLongWithPrefix :: "nat \<Rightarrow> int \<Rightarrow> char \<Rightarrow> 'o server \<Rightarrow> 'o server" where
  "addReplyLongLongWithPrefix c ll pfx s =
     (if (pfx = CHR ''*'' \<or> pfx = CHR ''$'') \<and> ll < 32
      then addReply c (Raw (len_hdr pfx ll)) s
      else addReplyStr c (len_hdr pfx ll) s)"

definition addReplyLongLong :: "nat \<Rightarrow> int \<Rightarrow> 'o server \<Rightarrow> 'o server" where
  "addReplyLongLong c ll s =
     (if ll = 0 then addReply c (Raw shared_czero) s
      else if ll = 1 then addReply c (Raw shared_cone) s
      else addReplyLongLongWithPrefix c ll CHR '':'' s)"

definition addReplyMultiBulkLen :: "nat \<Rightarrow> int \<Rightarrow> 'o server \<Rightarrow> 'o server" where
  "addReplyMultiBulkLen c n s =
     (if n < 32 then addReply c (Raw (len_hdr CHR ''*'' n)) s
      else addReplyLongLongWithPrefix c n CHR ''*'' s)"

text \<open>The number of characters of an encoded number, counted by division; the minus sign counts one,
  and the division of C rounds towards zero.\<close>

function digits_loop :: "nat \<Rightarrow> nat \<Rightarrow> nat" where
  "digits_loop n l = (if n div 10 \<noteq> 0 then digits_loop (n div 10) (l + 1) else l)"
  by pat_completeness auto
termination by (relation "measure fst") auto

declare digits_loop.simps [simp del]

definition addReplyBulkLen :: "nat \<Rightarrow> sobj \<Rightarrow> 'o server \<Rightarrow> 'o server" where
  "addReplyBulkLen c obj s =
     (let l = (case obj of
         Raw t \<Rightarrow> int (length t)
       | IntEnc n \<Rightarrow> int (digits_loop (nat \<bar>n\<bar>) (if n < 0 then 2 else 1)))
      in if l < 32 then addReply c (Raw (len_hdr CHR ''$'' l)) s
         else addReplyLongLongWithPrefix c l CHR ''$'' s)"

definition addReplyBulk :: "nat \<Rightarrow> sobj \<Rightarrow> 'o server \<Rightarrow> 'o server" where
  "addReplyBulk c obj s = addReply c (Raw crlf) (addReply c obj (addReplyBulkLen c obj s))"

definition addReplyBulkCBuffer :: "nat \<Rightarrow> bytes \<Rightarrow> 'o server \<Rightarrow> 'o server" where
  "addReplyBulkCBuffer c t s =
     addReply c (Raw crlf) (addReplyStr c t (addReplyLongLongWithPrefix c (int (length t)) CHR ''$'' s))"

definition addReplyBulkLongLong :: "nat \<Rightarrow> int \<Rightarrow> 'o server \<Rightarrow> 'o server" where
  "addReplyBulkLongLong c ll = addReplyBulkCBuffer c (ll_repr ll)"

definition addDeferred :: "nat \<Rightarrow> 'o server \<Rightarrow> 'o server \<times> nat option" where
  "addDeferred c s = (let (cl, node) = addDeferredMultiBulkLength (clients s c) in (put_out c cl s, node))"

definition setDeferred :: "nat \<Rightarrow> nat option \<Rightarrow> int \<Rightarrow> 'o server \<Rightarrow> 'o server" where
  "setDeferred c node n s = put_out c (setDeferredMultiBulkLength (oenv s) (clients s c) node n) s"

section \<open>Publishing and notifications\<close>

definition sds_match :: "bytes \<Rightarrow> bytes \<Rightarrow> bool option" where
  "sds_match p t = stringmatchlen (p @ [0]) (int (length p)) (t @ [0]) (int (length t)) False"

fun publish_channel :: "nat list \<Rightarrow> bytes \<Rightarrow> sobj \<Rightarrow> 'o server \<Rightarrow> 'o server" where
  "publish_channel [] channel message s = s"
| "publish_channel (c # cs) channel message s =
     publish_channel cs channel message
       (addReplyBulk c message (addReplyBulk c (Raw channel)
         (addReply c (Raw shared_messagebulk) (addReply c (Raw (len_hdr CHR ''*'' 3)) s))))"

fun publish_patterns :: "(nat \<times> bytes) list \<Rightarrow> bytes \<Rightarrow> sobj \<Rightarrow> 'o server \<Rightarrow> nat \<Rightarrow> ('o server \<times> nat) option" where
  "publish_patterns [] channel message s receivers = Some (s, receivers)"
| "publish_patterns ((c, pat) # ps) channel message s receivers = do {
     m \<leftarrow> sds_match pat channel;
     if m then
       publish_patterns ps channel message
         (addReplyBulk c message (addReplyBulk c (Raw channel) (addReplyBulk c (Raw pat)
           (addReply c (Raw shared_pmessagebulk) (addReply c (Raw (len_hdr CHR ''*'' 4)) s)))))
         (receivers + 1)
     else publish_patterns ps channel message s receivers }"

definition pubsubPublishMessage :: "bytes \<Rightarrow> sobj \<Rightarrow> 'o server \<Rightarrow> ('o server \<times> nat) option" where
  "pubsubPublishMessage channel message s =
     (let cs = (case srv_channels s channel of None \<Rightarrow> [] | Some l \<Rightarrow> l);
          s = publish_channel cs channel message s
      in publish_patterns (srv_patterns s) channel message s (length cs))"

definition notifyKeyspaceEvent ::
  "notify_class \<Rightarrow> string \<Rightarrow> bytes \<Rightarrow> nat \<Rightarrow> 'o server \<Rightarrow> 'o server option" where
  "notifyKeyspaceEvent type event key dbid s =
     (if type \<notin> notify_keyspace_events s then Some s
      else do {
        s \<leftarrow> (if REDIS_NOTIFY_KEYSPACE \<in> notify_keyspace_events s then
               map_option fst (pubsubPublishMessage
                 (cstr ''__keyspace@'' @ ll_repr (int dbid) @ cstr ''__:'' @ key) (Raw (cstr event)) s)
             else Some s);
        if REDIS_NOTIFY_KEYEVENT \<in> notify_keyspace_events s then
          map_option fst (pubsubPublishMessage
            (cstr ''__keyevent@'' @ ll_repr (int dbid) @ cstr ''__:'' @ cstr event) (Raw key) s)
        else Some s })"

text \<open>The classes of events as the configuration writes them (\<open>notify.c\<close>).\<close>

definition notify_all :: "notify_class set" where
  "notify_all = {REDIS_NOTIFY_GENERIC, REDIS_NOTIFY_STRING, REDIS_NOTIFY_LIST, REDIS_NOTIFY_SET,
     REDIS_NOTIFY_HASH, REDIS_NOTIFY_ZSET, REDIS_NOTIFY_EXPIRED, REDIS_NOTIFY_EVICTED}"

fun keyspaceEventsStringToFlags :: "string \<Rightarrow> notify_class set option" where
  "keyspaceEventsStringToFlags [] = Some {}"
| "keyspaceEventsStringToFlags (c # cs) = do {
     f \<leftarrow> (if c = CHR ''A'' then Some notify_all
          else if c = CHR ''g'' then Some {REDIS_NOTIFY_GENERIC}
          else if c = CHR ''$'' then Some {REDIS_NOTIFY_STRING}
          else if c = CHR ''l'' then Some {REDIS_NOTIFY_LIST}
          else if c = CHR ''s'' then Some {REDIS_NOTIFY_SET}
          else if c = CHR ''h'' then Some {REDIS_NOTIFY_HASH}
          else if c = CHR ''z'' then Some {REDIS_NOTIFY_ZSET}
          else if c = CHR ''x'' then Some {REDIS_NOTIFY_EXPIRED}
          else if c = CHR ''e'' then Some {REDIS_NOTIFY_EVICTED}
          else if c = CHR ''K'' then Some {REDIS_NOTIFY_KEYSPACE}
          else if c = CHR ''E'' then Some {REDIS_NOTIFY_KEYEVENT}
          else None);
     fs \<leftarrow> keyspaceEventsStringToFlags cs;
     Some (f \<union> fs) }"

definition keyspaceEventsFlagsToString :: "notify_class set \<Rightarrow> string" where
  "keyspaceEventsFlagsToString fl =
     (if notify_all \<subseteq> fl then ''A''
      else
        (if REDIS_NOTIFY_GENERIC \<in> fl then ''g'' else []) @
        (if REDIS_NOTIFY_STRING \<in> fl then ''$'' else []) @
        (if REDIS_NOTIFY_LIST \<in> fl then ''l'' else []) @
        (if REDIS_NOTIFY_SET \<in> fl then ''s'' else []) @
        (if REDIS_NOTIFY_HASH \<in> fl then ''h'' else []) @
        (if REDIS_NOTIFY_ZSET \<in> fl then ''z'' else []) @
        (if REDIS_NOTIFY_EXPIRED \<in> fl then ''x'' else []) @
        (if REDIS_NOTIFY_EVICTED \<in> fl then ''e'' else [])) @
     (if REDIS_NOTIFY_KEYSPACE \<in> fl then ''K'' else []) @
     (if REDIS_NOTIFY_KEYEVENT \<in> fl then ''E'' else [])"

end
