(* ===== verification/Aof.thy ===== *)
theory Aof
  imports Server
begin

text \<open>
  Feeding the append only file (\<open>aof.c\<close>). A command is appended in the format of the protocol, preceded
  by \<open>SELECT\<close> when the database differs from that of the last command; commands that set a relative
  expire time are translated to \<open>PEXPIREAT\<close>. Writing the buffer to disk and rewriting the file are not
  modelled. \<^const>\<open>None\<close> is an access beyond the argument vector.
\<close>

text \<open>Signed 64 bit arithmetic: the sums and products of the commands wrap around.\<close>

definition s64 :: "int \<Rightarrow> int" where
  "s64 x = spat 8 (upat 8 x)"

lemma s64_id [crange]: "LLONG_MIN \<le> x \<Longrightarrow> x \<le> LLONG_MAX \<Longrightarrow> s64 x = x"
  using spat_upat [of 8 x] by (simp add: s64_def srange_def)

section \<open>Commands as text\<close>

fun cat_args :: "bytes \<Rightarrow> bytes list \<Rightarrow> bytes" where
  "cat_args dst [] = dst"
| "cat_args dst (a # as) = cat_args (((dst @ len_hdr CHR ''$'' (int (length a))) @ a) @ crlf) as"

definition catAppendOnlyGenericCommand :: "bytes \<Rightarrow> bytes list \<Rightarrow> bytes" where
  "catAppendOnlyGenericCommand dst av = cat_args (dst @ len_hdr CHR ''*'' (int (length av))) av"

definition catAppendOnlyExpireAtCommand ::
  "bytes \<Rightarrow> redisCommand \<Rightarrow> bytes \<Rightarrow> bytes \<Rightarrow> int \<Rightarrow> bytes" where
  "catAppendOnlyExpireAtCommand bs c key seconds now =
     (let when = fst (strtoll (c_string seconds));
          when = (if cproc c \<in> {''expireCommand'', ''setexCommand'', ''expireatCommand''}
                  then s64 (when * 1000) else when);
          when = (if cproc c \<in> {''expireCommand'', ''pexpireCommand'', ''setexCommand'', ''psetexCommand''}
                  then s64 (when + now) else when)
      in catAppendOnlyGenericCommand bs
           [cstr ''PEXPIREAT'', key, getDecodedObject (createStringObjectFromLongLong when)])"

definition select_text :: "nat \<Rightarrow> bytes" where
  "select_text dictid =
     (let seldb = ll_repr (int dictid)
      in cstr ''*2'' @ crlf @ cstr ''$6'' @ crlf @ cstr ''SELECT'' @ crlf @
         cstr ''$'' @ ll_repr (int (length seldb)) @ crlf @ seldb @ crlf)"

definition expire_proc :: "redisCommand \<Rightarrow> bool" where
  "expire_proc c \<longleftrightarrow> cproc c \<in> {''expireCommand'', ''pexpireCommand'', ''expireatCommand''}"

definition setex_proc :: "redisCommand \<Rightarrow> bool" where
  "setex_proc c \<longleftrightarrow> cproc c \<in> {''setexCommand'', ''psetexCommand''}"

definition nth_arg :: "bytes list \<Rightarrow> nat \<Rightarrow> bytes option" where
  "nth_arg av i = (if i < length av then Some (av ! i) else None)"

text \<open>The text of one command and the database that is selected afterwards.\<close>

definition aof_text :: "redisCommand \<Rightarrow> nat \<Rightarrow> bytes list \<Rightarrow> int \<Rightarrow> int \<Rightarrow> (bytes \<times> int) option" where
  "aof_text c dictid av selected now = do {
     let (bs, sel) = (if int dictid \<noteq> selected then (select_text dictid, int dictid) else ([], selected));
     bs \<leftarrow>
       (if expire_proc c then do {
          key \<leftarrow> nth_arg av 1;
          secs \<leftarrow> nth_arg av 2;
          Some (catAppendOnlyExpireAtCommand bs c key secs now) }
        else if setex_proc c then do {
          key \<leftarrow> nth_arg av 1;
          secs \<leftarrow> nth_arg av 2;
          val \<leftarrow> nth_arg av 3;
          Some (catAppendOnlyExpireAtCommand (catAppendOnlyGenericCommand bs [cstr ''SET'', key, val])
            c key secs now) }
        else Some (catAppendOnlyGenericCommand bs av));
     Some (bs, sel) }"

definition feedAppendOnlyFile ::
  "redisCommand \<Rightarrow> nat \<Rightarrow> bytes list \<Rightarrow> 'o server \<Rightarrow> 'o server option" where
  "feedAppendOnlyFile c dictid av s = do {
     (bs, sel) \<leftarrow> aof_text c dictid av (aof_selected_db s) (mstime s);
     let s = s\<lparr>aof_selected_db := sel\<rparr>;
     let s = (if aof_state s = REDIS_AOF_ON then s\<lparr>aof_buf := aof_buf s @ bs\<rparr> else s);
     Some (if aof_child s then s\<lparr>aof_rewrite_buf := aof_rewrite_buf s @ bs\<rparr> else s) }"

text \<open>The commands that \<open>initServerConfig\<close> keeps pointers to.\<close>

definition server_delCommand :: redisCommand where
  "server_delCommand = command_row (entry ''del'' ''delCommand'' (- 2) ''w'' NoPreloadGetKeys 1 (- 1) 1)"

definition server_multiCommand :: redisCommand where
  "server_multiCommand = command_row (entry ''multi'' ''multiCommand'' 1 ''rs'' NoGetKeys 0 0 0)"

section \<open>Feeding changes nothing else\<close>

text \<open>A command whose vector has the length that the table demands can be fed.\<close>

lemma feed_Some:
  assumes "expire_proc c \<Longrightarrow> 3 \<le> length av" and "setex_proc c \<Longrightarrow> 4 \<le> length av"
  shows "\<exists>s'. feedAppendOnlyFile c j av s = Some s'"
proof -
  have "\<exists>r. aof_text c j av sel now = Some r" for sel now
    using assms by (auto simp: aof_text_def nth_arg_def Let_def)
  from this [of "aof_selected_db s" "mstime s"] show ?thesis
    by (auto simp: feedAppendOnlyFile_def Let_def)
qed

lemma feed_delCommand: "\<exists>s'. feedAppendOnlyFile server_delCommand j av s = Some s'"
  by (rule feed_Some) (simp_all add: expire_proc_def setex_proc_def server_delCommand_def command_row_def)

lemma feed_fields:
  assumes "feedAppendOnlyFile c j av s = Some s'"
  obtains bs sel where "aof_text c j av (aof_selected_db s) (mstime s) = Some (bs, sel)"
    and "s' = s\<lparr>aof_selected_db := sel,
      aof_buf := (if aof_state s = REDIS_AOF_ON then aof_buf s @ bs else aof_buf s),
      aof_rewrite_buf := (if aof_child s then aof_rewrite_buf s @ bs else aof_rewrite_buf s)\<rparr>"
  using assms by (auto simp: feedAppendOnlyFile_def Let_def bind_eq_Some_conv)

end
