(* ===== verification/Db.thy ===== *)
theory Db
  imports Aof
begin

text \<open>
  The level of \<open>db.c\<close> that commands are written in: lookups with lazy expiration, insertion, deletion,
  expire times, the signal that a key was modified, and the accessors for the arguments of a
  command (\<open>object.c\<close>). The rules for reasoning about these operations are in the theory Db_Rules.
\<close>

section \<open>Watched keys (the part of \<open>multi.c\<close> that other commands call)\<close>

definition touchWatchedKey :: "nat \<Rightarrow> bytes \<Rightarrow> 'o server \<Rightarrow> 'o server" where
  "touchWatchedKey j key s =
     (case dwatched (dbs s j) key of
        None \<Rightarrow> s
      | Some l \<Rightarrow> fold (\<lambda>c. upd_client c (set_flag REDIS_DIRTY_CAS)) l s)"

definition touch_client :: "int \<Rightarrow> nat \<Rightarrow> 'o server \<Rightarrow> 'o server" where
  "touch_client dbid c s =
     fold (\<lambda>(k, j) s.
       if (dbid = - 1 \<or> int j = dbid) \<and> ddict (dbs s j) k \<noteq> None
       then upd_client c (set_flag REDIS_DIRTY_CAS) s else s) (watched_keys (clients s c)) s"

definition touchWatchedKeysOnFlush :: "int \<Rightarrow> 'o server \<Rightarrow> 'o server" where
  "touchWatchedKeysOnFlush dbid s = fold (touch_client dbid) (client_list s) s"

definition signalModifiedKey :: "nat \<Rightarrow> bytes \<Rightarrow> 'o server \<Rightarrow> 'o server" where
  "signalModifiedKey j key s = touchWatchedKey j key s"

definition signalFlushedDb :: "int \<Rightarrow> 'o server \<Rightarrow> 'o server" where
  "signalFlushedDb dbid s = touchWatchedKeysOnFlush dbid s"

section \<open>Keys and values\<close>

definition createObject :: "'o server \<Rightarrow> 'o rval \<Rightarrow> 'o robj" where
  "createObject s v = \<lparr>rval = v, lru = lruclock s\<rparr>"

definition lookupKey :: "nat \<Rightarrow> bytes \<Rightarrow> 'o server \<Rightarrow> 'o server \<times> 'o robj option" where
  "lookupKey j key s =
     (case ddict (dbs s j) key of
        None \<Rightarrow> (s, None)
      | Some v \<Rightarrow>
          let v = (if \<not> saving_child s then v\<lparr>lru := lruclock s\<rparr> else v)
          in (upd_db j (\<lambda>d. d\<lparr>ddict := (ddict d)(key \<mapsto> v)\<rparr>) s, Some v))"

definition getExpire :: "nat \<Rightarrow> bytes \<Rightarrow> 'o server \<Rightarrow> int option" where
  "getExpire j key s =
     (case dexpires (dbs s j) key of
        None \<Rightarrow> Some (- 1)
      | Some t \<Rightarrow> if ddict (dbs s j) key = None then None else Some t)"

definition dbDelete :: "nat \<Rightarrow> bytes \<Rightarrow> 'o server \<Rightarrow> 'o server \<times> bool" where
  "dbDelete j key s =
     (upd_db j (\<lambda>d. d\<lparr>dexpires := (dexpires d)(key := None), ddict := (ddict d)(key := None)\<rparr>) s,
      ddict (dbs s j) key \<noteq> None)"

definition propagateExpire :: "nat \<Rightarrow> bytes \<Rightarrow> 'o server \<Rightarrow> 'o server option" where
  "propagateExpire j key s = do {
     let av = [cstr ''DEL'', key];
     s \<leftarrow> (if aof_state s \<noteq> REDIS_AOF_OFF then feedAppendOnlyFile server_delCommand j av s else Some s);
     Some (s\<lparr>repl_log := repl_log s @ [(j, av)]\<rparr>) }"

text \<open>The time at which keys expire: inside a script it stands still.\<close>

definition expire_now :: "'o server \<Rightarrow> int" where
  "expire_now s = (if lua_caller s \<noteq> None then lua_time_start s else mstime s)"

definition expireIfNeeded :: "nat \<Rightarrow> bytes \<Rightarrow> 'o server \<Rightarrow> ('o server \<times> bool) option" where
  "expireIfNeeded j key s = do {
     when \<leftarrow> getExpire j key s;
     if when < 0 then Some (s, False)
     else if loading s then Some (s, False)
     else
       let now = expire_now s in
       if masterhost s then Some (s, now > when)
       else if now \<le> when then Some (s, False)
       else do {
         s \<leftarrow> propagateExpire j key (s\<lparr>stat_expiredkeys := stat_expiredkeys s + 1\<rparr>);
         s \<leftarrow> notifyKeyspaceEvent REDIS_NOTIFY_EXPIRED ''expired'' key j s;
         Some (dbDelete j key s) } }"

definition lookupKeyRead :: "nat \<Rightarrow> bytes \<Rightarrow> 'o server \<Rightarrow> ('o server \<times> 'o robj option) option" where
  "lookupKeyRead j key s = do {
     (s, _) \<leftarrow> expireIfNeeded j key s;
     let (s, v) = lookupKey j key s in
     Some (if v = None then (s\<lparr>stat_keyspace_misses := stat_keyspace_misses s + 1\<rparr>, v)
           else (s\<lparr>stat_keyspace_hits := stat_keyspace_hits s + 1\<rparr>, v)) }"

definition lookupKeyWrite :: "nat \<Rightarrow> bytes \<Rightarrow> 'o server \<Rightarrow> ('o server \<times> 'o robj option) option" where
  "lookupKeyWrite j key s = do { (s, _) \<leftarrow> expireIfNeeded j key s; Some (lookupKey j key s) }"

definition lookupKeyReadOrReply ::
  "nat \<Rightarrow> nat \<Rightarrow> bytes \<Rightarrow> bytes \<Rightarrow> 'o server \<Rightarrow> ('o server \<times> 'o robj option) option" where
  "lookupKeyReadOrReply c j key r s = do {
     (s, v) \<leftarrow> lookupKeyRead j key s;
     Some (if v = None then addReply c (Raw r) s else s, v) }"

definition lookupKeyWriteOrReply ::
  "nat \<Rightarrow> nat \<Rightarrow> bytes \<Rightarrow> bytes \<Rightarrow> 'o server \<Rightarrow> ('o server \<times> 'o robj option) option" where
  "lookupKeyWriteOrReply c j key r s = do {
     (s, v) \<leftarrow> lookupKeyWrite j key s;
     Some (if v = None then addReply c (Raw r) s else s, v) }"

definition dbAdd :: "nat \<Rightarrow> bytes \<Rightarrow> 'o robj \<Rightarrow> 'o server \<Rightarrow> 'o server option" where
  "dbAdd j key v s =
     (if ddict (dbs s j) key \<noteq> None then None
      else Some (upd_db j (\<lambda>d. d\<lparr>ddict := (ddict d)(key \<mapsto> v)\<rparr>) s))"

definition dbOverwrite :: "nat \<Rightarrow> bytes \<Rightarrow> 'o robj \<Rightarrow> 'o server \<Rightarrow> 'o server option" where
  "dbOverwrite j key v s =
     (if ddict (dbs s j) key = None then None
      else Some (upd_db j (\<lambda>d. d\<lparr>ddict := (ddict d)(key \<mapsto> v)\<rparr>) s))"

definition removeExpire :: "nat \<Rightarrow> bytes \<Rightarrow> 'o server \<Rightarrow> ('o server \<times> bool) option" where
  "removeExpire j key s =
     (if ddict (dbs s j) key = None then None
      else Some (upd_db j (\<lambda>d. d\<lparr>dexpires := (dexpires d)(key := None)\<rparr>) s,
        dexpires (dbs s j) key \<noteq> None))"

definition setExpire :: "nat \<Rightarrow> bytes \<Rightarrow> int \<Rightarrow> 'o server \<Rightarrow> 'o server option" where
  "setExpire j key when s =
     (if ddict (dbs s j) key = None then None
      else Some (upd_db j (\<lambda>d. d\<lparr>dexpires := (dexpires d)(key \<mapsto> when)\<rparr>) s))"

definition setKey :: "nat \<Rightarrow> bytes \<Rightarrow> 'o robj \<Rightarrow> 'o server \<Rightarrow> 'o server option" where
  "setKey j key v s = do {
     (s, old) \<leftarrow> lookupKeyWrite j key s;
     s \<leftarrow> (if old = None then dbAdd j key v s else dbOverwrite j key v s);
     (s, _) \<leftarrow> removeExpire j key s;
     Some (signalModifiedKey j key s) }"

definition dbExists :: "nat \<Rightarrow> bytes \<Rightarrow> 'o server \<Rightarrow> bool" where
  "dbExists j key s \<longleftrightarrow> ddict (dbs s j) key \<noteq> None"

text \<open>The keys \<open>dictGetRandomKey\<close> comes up with are given in advance; the loop ends when there are no
  more of them (\<open>Inr\<close>), which stands for a loop that goes on.\<close>

fun dbRandomKey :: "nat \<Rightarrow> bytes list \<Rightarrow> 'o server \<Rightarrow> (('o server \<times> bytes option) + 'o server) option" where
  "dbRandomKey j picks s =
     (if ddict (dbs s j) = Map.empty then Some (Inl (s, None))
      else case picks of
        [] \<Rightarrow> Some (Inr s)
      | key # picks \<Rightarrow>
          if ddict (dbs s j) key = None then None
          else if dexpires (dbs s j) key \<noteq> None then do {
            (s, gone) \<leftarrow> expireIfNeeded j key s;
            if gone then dbRandomKey j picks s else Some (Inl (s, Some key)) }
          else Some (Inl (s, Some key)))"

text \<open>A raw value may be changed in place unless it is shared, when a copy with the same text takes its
  place; an encoded number is replaced by its text.\<close>

definition dbUnshareStringValue ::
  "nat \<Rightarrow> bytes \<Rightarrow> 'o robj \<Rightarrow> 'o server \<Rightarrow> ('o server \<times> 'o robj) option" where
  "dbUnshareStringValue j key v s =
     (case rval v of
        VString (Raw t) \<Rightarrow> Some (s, v)
      | VString (IntEnc n) \<Rightarrow>
          let v' = createObject s (VString (Raw (getDecodedObject (IntEnc n)))) in do {
          s \<leftarrow> dbOverwrite j key v' s;
          Some (s, v') }
      | _ \<Rightarrow> None)"

definition db_size :: "nat \<Rightarrow> 'o server \<Rightarrow> int" where
  "db_size j s = int (card (dom (ddict (dbs s j))))"

fun emptyDb_loop :: "nat \<Rightarrow> 'o server \<Rightarrow> int \<Rightarrow> 'o server \<times> int" where
  "emptyDb_loop 0 s removed = (s, removed)"
| "emptyDb_loop (Suc n) s removed =
     (let j = dbnum s - Suc n in
      emptyDb_loop n (upd_db j (\<lambda>d. d\<lparr>ddict := Map.empty, dexpires := Map.empty\<rparr>) s)
        (removed + db_size j s))"

definition emptyDb :: "'o server \<Rightarrow> 'o server \<times> int" where
  "emptyDb s = emptyDb_loop (dbnum s) s 0"

definition selectDb :: "nat \<Rightarrow> int \<Rightarrow> 'o server \<Rightarrow> 'o server \<times> bool" where
  "selectDb c n s =
     (if n < 0 \<or> n \<ge> int (dbnum s) then (s, False)
      else (upd_client c (\<lambda>cl. cl\<lparr>cdb := nat n\<rparr>) s, True))"

section \<open>Arguments\<close>

definition rtype_of :: "'o robj \<Rightarrow> rtype" where
  "rtype_of v = (case rval v of VString _ \<Rightarrow> REDIS_STRING | VAgg t _ \<Rightarrow> t)"

text \<open>The flag of the result: the type is wrong and the client was told.\<close>

definition checkType :: "nat \<Rightarrow> 'o robj \<Rightarrow> rtype \<Rightarrow> 'o server \<Rightarrow> 'o server \<times> bool" where
  "checkType c v t s =
     (if rtype_of v \<noteq> t then (addReply c (Raw shared_wrongtypeerr) s, True) else (s, False))"

definition getLongLongFromObjectOrReply ::
  "nat \<Rightarrow> sobj option \<Rightarrow> string option \<Rightarrow> 'o server \<Rightarrow> 'o server \<times> int option" where
  "getLongLongFromObjectOrReply c obj msg s =
     (case getLongLongFromObject obj of
        None \<Rightarrow>
          (addReplyError c (case msg of Some m \<Rightarrow> m
             | None \<Rightarrow> ''value is not an integer or out of range'') s, None)
      | Some v \<Rightarrow> (s, Some v))"

definition getLongFromObjectOrReply ::
  "nat \<Rightarrow> sobj option \<Rightarrow> string option \<Rightarrow> 'o server \<Rightarrow> 'o server \<times> int option" where
  "getLongFromObjectOrReply c obj msg s =
     (case getLongLongFromObjectOrReply c obj msg s of
        (s, None) \<Rightarrow> (s, None)
      | (s, Some v) \<Rightarrow>
          if v < LLONG_MIN \<or> v > LLONG_MAX then
            (addReplyError c (case msg of Some m \<Rightarrow> m | None \<Rightarrow> ''value is out of range'') s, None)
          else (s, Some v))"

end
