(* ===== verification/Db_Rules.thy ===== *)
theory Db_Rules
  imports Db
begin

text \<open>
  Reasoning about commands. A command is a program in the option monad over the operations of the
  theory Db; \<open>holds m Q\<close> says that \<open>m\<close> returns a result, which satisfies \<open>Q\<close>. Every operation has a
  rule in the collection \<open>wp\<close>, which also says how the operation changes the contents \<open>kv\<close> of the
  keyspace, the counter of changes and the set of touched keys. \<open>good s s'\<close> is what every command
  promises about its whole effect: keys that changed, other than expired keys that a lookup removed,
  are signalled to the clients that watch them and counted.
\<close>

section \<open>What an operation may change\<close>

text \<open>The value and the expire time of a key. The time of the last access is not part of it.\<close>

definition kv :: "'o server \<Rightarrow> nat \<Rightarrow> bytes \<Rightarrow> 'o rval option \<times> int option" where
  "kv s j k = (map_option rval (ddict (dbs s j) k), dexpires (dbs s j) k)"

text \<open>The key is one that a lookup removes.\<close>

definition expired :: "'o server \<Rightarrow> nat \<Rightarrow> bytes \<Rightarrow> bool" where
  "expired s j k \<longleftrightarrow> \<not> masterhost s \<and> \<not> loading s \<and>
     (\<exists>t. dexpires (dbs s j) k = Some t \<and> 0 \<le> t \<and> t < expire_now s)"

definition watchers :: "'o server \<Rightarrow> nat \<Rightarrow> bytes \<Rightarrow> nat list" where
  "watchers s j k = (case dwatched (dbs s j) k of None \<Rightarrow> [] | Some l \<Rightarrow> l)"

definition touched :: "'o server \<Rightarrow> nat \<Rightarrow> bytes \<Rightarrow> bool" where
  "touched s j k \<longleftrightarrow> (\<forall>c \<in> set (watchers s j k). REDIS_DIRTY_CAS \<in> cflags (clients s c))"

text \<open>The patterns that the matcher handles without leaving the pattern.\<close>

definition pat_safe :: "bytes \<Rightarrow> bool" where
  "pat_safe p \<longleftrightarrow> (\<forall>t. sds_match p t \<noteq> None)"

text \<open>A string is at most 512 megabytes long, and what is not a string has another type.\<close>

definition val_ok :: "'o robj \<Rightarrow> bool" where
  "val_ok v \<longleftrightarrow> (case rval v of VString t \<Rightarrow> sobj_ok t | VAgg t _ \<Rightarrow> t \<noteq> REDIS_STRING)"

definition data_inv :: "'o server \<Rightarrow> bool" where
  "data_inv s \<longleftrightarrow>
     (\<forall>j k. dexpires (dbs s j) k \<noteq> None \<longrightarrow> ddict (dbs s j) k \<noteq> None) \<and>
     (\<forall>j. finite (dom (ddict (dbs s j)))) \<and>
     (\<forall>j k v. ddict (dbs s j) k = Some v \<longrightarrow> val_ok v) \<and>
     (\<forall>(c, p) \<in> set (srv_patterns s). pat_safe p)"

text \<open>The part of a client that replies, notifications and signals leave alone.\<close>

definition client_frame :: "client \<Rightarrow> client \<Rightarrow> bool" where
  "client_frame a b \<longleftrightarrow>
     watched_keys b = watched_keys a \<and> mstate b = mstate a \<and> pubsub_channels b = pubsub_channels a \<and>
     pubsub_patterns b = pubsub_patterns a \<and> cdb b = cdb a \<and> argv b = argv a \<and> cmd b = cmd a \<and>
     fd b = fd a \<and> authenticated b = authenticated a \<and> querybuf b = querybuf a \<and> reqtype b = reqtype a \<and>
     multibulklen b = multibulklen a \<and> bulklen b = bulklen a \<and>
     (\<forall>f. f \<noteq> REDIS_CLOSE_ASAP \<longrightarrow> f \<noteq> REDIS_DIRTY_CAS \<longrightarrow> f \<in> cflags b \<longleftrightarrow> f \<in> cflags a) \<and>
     (REDIS_DIRTY_CAS \<in> cflags a \<longrightarrow> REDIS_DIRTY_CAS \<in> cflags b)"

definition srv_frame :: "'o server \<Rightarrow> 'o server \<Rightarrow> bool" where
  "srv_frame s s' \<longleftrightarrow>
     dbnum s' = dbnum s \<and> client_list s' = client_list s \<and> commands s' = commands s \<and>
     orig_commands s' = orig_commands s \<and> srv_channels s' = srv_channels s \<and>
     srv_patterns s' = srv_patterns s \<and> notify_keyspace_events s' = notify_keyspace_events s \<and>
     loading s' = loading s \<and> masterhost s' = masterhost s \<and> lua_caller s' = lua_caller s \<and>
     lua_time_start s' = lua_time_start s \<and> mstime s' = mstime s \<and> aof_state s' = aof_state s \<and>
     monitors s' = monitors s \<and> dict_order s' = dict_order s \<and>
     also_propagate s' = also_propagate s \<and> maxmemory s' = maxmemory s \<and>
     maxmemory_policy s' = maxmemory_policy s \<and> maxmemory_samples s' = maxmemory_samples s \<and>
     requirepass s' = requirepass s \<and> (\<forall>j. dwatched (dbs s' j) = dwatched (dbs s j))"

definition frm :: "'o server \<Rightarrow> 'o server \<Rightarrow> bool" where
  "frm s s' \<longleftrightarrow> srv_frame s s' \<and> (\<forall>c. client_frame (clients s c) (clients s' c)) \<and> dirty s \<le> dirty s'"

text \<open>The states of a program that started in \<open>s0\<close>.\<close>

definition st :: "'o server \<Rightarrow> 'o server \<Rightarrow> bool" where
  "st s0 s \<longleftrightarrow> data_inv s \<and> frm s0 s"

text \<open>What a lookup leaves at a key.\<close>

definition live :: "'o server \<Rightarrow> nat \<Rightarrow> bytes \<Rightarrow> 'o rval option \<times> int option" where
  "live s j k = (if expired s j k then (None, None) else kv s j k)"

definition changed :: "'o server \<Rightarrow> 'o server \<Rightarrow> nat \<Rightarrow> bytes \<Rightarrow> bool" where
  "changed s s' j k \<longleftrightarrow> kv s' j k \<noteq> kv s j k \<and> kv s' j k \<noteq> live s j k"

definition good :: "'o server \<Rightarrow> 'o server \<Rightarrow> bool" where
  "good s s' \<longleftrightarrow> st s s' \<and> (\<forall>j k. changed s s' j k \<longrightarrow> touched s' j k \<and> dirty s < dirty s')"

lemma client_frame_refl [simp]: "client_frame a a"
  by (simp add: client_frame_def)

lemma client_frame_trans: "client_frame a b \<Longrightarrow> client_frame b c \<Longrightarrow> client_frame a c"
  by (auto simp: client_frame_def)

lemma srv_frame_refl [simp]: "srv_frame s s"
  by (simp add: srv_frame_def)

lemma srv_frame_trans: "srv_frame a b \<Longrightarrow> srv_frame b c \<Longrightarrow> srv_frame a c"
  by (auto simp: srv_frame_def)

lemma frm_refl [simp]: "frm s s"
  by (simp add: frm_def)

lemma frm_trans: "frm a b \<Longrightarrow> frm b c \<Longrightarrow> frm a c"
  unfolding frm_def by (meson client_frame_trans order_trans srv_frame_trans)

lemma st_refl: "data_inv s \<Longrightarrow> st s s"
  by (simp add: st_def)

lemma st_trans: "st a b \<Longrightarrow> st b c \<Longrightarrow> st a c"
  by (auto simp: st_def intro: frm_trans)

lemma st_step: "st s0 s \<Longrightarrow> frm s s' \<Longrightarrow> data_inv s' \<Longrightarrow> st s0 s'"
  by (auto simp: st_def intro: frm_trans)

lemma st_inv: "st s0 s \<Longrightarrow> data_inv s"
  by (simp add: st_def)

lemma st_dirty: "st s0 s \<Longrightarrow> dirty s0 \<le> dirty s"
  by (simp add: st_def frm_def)

lemma expire_now_frame: "srv_frame s s' \<Longrightarrow> expire_now s' = expire_now s"
  by (simp add: srv_frame_def expire_now_def)

lemma expired_frame: "srv_frame s s' \<Longrightarrow> kv s' j k = kv s j k \<Longrightarrow> expired s' j k = expired s j k"
  using expire_now_frame [of s s'] by (simp add: expired_def srv_frame_def kv_def)

lemma expired_None: "kv s j k = (x, None) \<Longrightarrow> \<not> expired s j k"
  by (simp add: expired_def kv_def)

lemma live_frame:
  assumes "srv_frame s s'"
  shows "kv s' j k = kv s j k \<Longrightarrow> live s' j k = live s j k"
    "kv s' j k = live s j k \<Longrightarrow> live s' j k = live s j k"
proof -
  show 1: "kv s' j k = kv s j k \<Longrightarrow> live s' j k = live s j k"
    using expired_frame [OF assms] by (simp add: live_def)
  show "kv s' j k = live s j k \<Longrightarrow> live s' j k = live s j k"
    using 1 expired_None [of s' j k None] by (auto simp: live_def split: if_splits)
qed

lemma touched_frm: "frm s s' \<Longrightarrow> touched s j k \<Longrightarrow> touched s' j k"
  by (fastforce simp: touched_def watchers_def frm_def srv_frame_def client_frame_def)

lemma good_refl: "data_inv s \<Longrightarrow> good s s"
  by (simp add: good_def changed_def st_refl)

lemma good_trans:
  assumes "good a b" and "good b c"
  shows "good a c"
proof -
  have st: "st a c" using assms st_trans by (auto simp: good_def)
  have f: "srv_frame a b" "frm b c" "dirty a \<le> dirty b" "dirty b \<le> dirty c"
    using assms by (auto simp: good_def st_def frm_def)
  have "touched c j k \<and> dirty a < dirty c" if "changed a c j k" for j k
  proof (cases "changed b c j k")
    case True
    then show ?thesis using assms(2) f by (fastforce simp: good_def)
  next
    case False
    then have "changed a b j k"
      using that live_frame [OF f(1), of j k] by (auto simp: changed_def)
    then show ?thesis using assms(1) f touched_frm [OF f(2)] by (fastforce simp: good_def)
  qed
  with st show ?thesis by (simp add: good_def)
qed

text \<open>The keys in \<open>D\<close> may have changed.\<close>

lemma goodI:
  assumes "st s s'" and "\<forall>j k. (j, k) \<notin> D \<longrightarrow> kv s' j k = kv s j k \<or> kv s' j k = live s j k"
    and "\<forall>(j, k) \<in> D. touched s' j k" and "D = {} \<or> dirty s < dirty s'"
  shows "good s s'"
  using assms by (fastforce simp: good_def changed_def)

section \<open>Operations that touch no data\<close>

lemma data_inv_dbs: "data_inv s \<Longrightarrow> dbs s' = dbs s \<Longrightarrow> srv_patterns s' = srv_patterns s \<Longrightarrow> data_inv s'"
  by (simp add: data_inv_def)

lemma kv_dbs: "dbs s' = dbs s \<Longrightarrow> kv s' = kv s"
  by (intro ext) (simp add: kv_def)

lemma touched_same: "dbs s' = dbs s \<Longrightarrow> clients s' = clients s \<Longrightarrow> touched s' = touched s"
  by (intro ext) (simp add: touched_def watchers_def)

text \<open>\<open>quiet s s'\<close>: only replies were added.\<close>

definition quiet :: "'o server \<Rightarrow> 'o server \<Rightarrow> bool" where
  "quiet s s' \<longleftrightarrow> frm s s' \<and> dbs s' = dbs s \<and> dirty s' = dirty s \<and>
     (\<forall>c. REDIS_DIRTY_CAS \<in> cflags (clients s' c) \<longleftrightarrow> REDIS_DIRTY_CAS \<in> cflags (clients s c))"

lemma quiet_refl [simp]: "quiet s s"
  by (simp add: quiet_def)

lemma quiet_trans: "quiet a b \<Longrightarrow> quiet b c \<Longrightarrow> quiet a c"
  unfolding quiet_def using frm_trans by metis

lemma quiet_dbs: "quiet s s' \<Longrightarrow> dbs s' = dbs s"
  and quiet_dirty: "quiet s s' \<Longrightarrow> dirty s' = dirty s"
  and quiet_kv: "quiet s s' \<Longrightarrow> kv s' = kv s"
  and quiet_touched: "quiet s s' \<Longrightarrow> touched s' = touched s"
  by (auto simp: quiet_def touched_def watchers_def intro!: ext kv_dbs)

lemma quiet_st: "st s0 s \<Longrightarrow> quiet s s' \<Longrightarrow> st s0 s'"
  by (rule st_step) (auto simp: quiet_def st_def frm_def srv_frame_def intro: data_inv_dbs)

lemma quiet_put_out: "same_core (clients s c) cl \<Longrightarrow> quiet s (put_out c cl s)"
  using same_core_fields [of "clients s c" cl]
  by (auto simp: quiet_def frm_def srv_frame_def client_frame_def put_out_def)

lemma quiet_addReply: "quiet s (addReply c obj s)"
  unfolding addReply_def addReplyObj_alt by (intro quiet_put_out same_core_addReplyString)

lemma quiet_addReplyStr: "quiet s (addReplyStr c t s)"
  unfolding addReplyStr_def by (intro quiet_put_out same_core_addReplyString)

lemmas quiet_base = quiet_addReply quiet_addReplyStr
  quiet_trans [OF _ quiet_addReply] quiet_trans [OF _ quiet_addReplyStr]

lemma quiet_replies:
  "quiet s (addReplyErrorLength c t s)" "quiet s (addReplyError c err s)"
  "quiet s (addReplyErrorFormat c t s)" "quiet s (addReplyStatusLength c t s)"
  "quiet s (addReplyStatus c err s)"
  "quiet s (addReplyLongLongWithPrefix c n pfx s)" "quiet s (addReplyLongLong c n s)"
  "quiet s (addReplyMultiBulkLen c n s)" "quiet s (addReplyBulkLen c obj s)"
  "quiet s (addReplyBulk c obj s)" "quiet s (addReplyBulkCBuffer c t s)"
  "quiet s (addReplyBulkLongLong c n s)"
  by (simp_all add: addReplyErrorLength_def addReplyError_def addReplyErrorFormat_def
      addReplyStatusLength_def addReplyStatus_def addReplyLongLongWithPrefix_def
      addReplyLongLong_def addReplyMultiBulkLen_def addReplyBulkLen_def addReplyBulk_def
      addReplyBulkCBuffer_def addReplyBulkLongLong_def quiet_base Let_def)

lemma quiet_deferred:
  "addDeferred c s = (s', node) \<Longrightarrow> quiet s s'" "quiet s (setDeferred c node n s)"
  using same_core_addDeferred same_core_setDeferred
  by (auto simp: addDeferred_def setDeferred_def intro!: quiet_put_out split: prod.splits)

section \<open>Rules for programs\<close>

text \<open>The computation returns a result that satisfies \<open>Q\<close>.\<close>

definition holds :: "'a option \<Rightarrow> ('a \<Rightarrow> bool) \<Rightarrow> bool" where
  "holds m Q \<longleftrightarrow> (\<exists>x. m = Some x \<and> Q x)"

named_theorems wp

lemma holds_Some [wp]: "Q x \<Longrightarrow> holds (Some x) Q"
  by (simp add: holds_def)

lemma holds_bind [wp]: "holds m (\<lambda>x. holds (f x) Q) \<Longrightarrow> holds (m \<bind> f) Q"
  by (auto simp: holds_def)

lemma holds_if [wp]:
  "(b \<Longrightarrow> holds m Q) \<Longrightarrow> (\<not> b \<Longrightarrow> holds m' Q) \<Longrightarrow> holds (if b then m else m') Q"
  by simp

lemma holds_pair [wp]: "holds (f a b) Q \<Longrightarrow> holds (case (a, b) of (x, y) \<Rightarrow> f x y) Q"
  by simp

lemma holds_prod: "(\<And>a b. p = (a, b) \<Longrightarrow> holds (f a b) Q) \<Longrightarrow> holds (case p of (a, b) \<Rightarrow> f a b) Q"
  by (cases p) simp

lemma holds_option [wp]:
  "(p = None \<Longrightarrow> holds m Q) \<Longrightarrow> (\<And>a. p = Some a \<Longrightarrow> holds (f a) Q) \<Longrightarrow>
   holds (case p of None \<Rightarrow> m | Some a \<Rightarrow> f a) Q"
  by (cases p) auto

lemma holds_rval [wp]:
  "(\<And>t. p = VString t \<Longrightarrow> holds (f t) Q) \<Longrightarrow> (\<And>t x. p = VAgg t x \<Longrightarrow> holds (g t x) Q) \<Longrightarrow>
   holds (case p of VString t \<Rightarrow> f t | VAgg t x \<Rightarrow> g t x) Q"
  by (cases p) auto

lemma holds_let [wp]: "holds (f t) Q \<Longrightarrow> holds (let x = t in f x) Q"
  by simp

lemma holds_mono: "holds m P \<Longrightarrow> (\<And>x. P x \<Longrightarrow> Q x) \<Longrightarrow> holds m Q"
  by (auto simp: holds_def)

lemma holds_SomeD: "holds m Q \<Longrightarrow> m = Some x \<Longrightarrow> Q x"
  by (simp add: holds_def)

lemma publish_channel_quiet: "quiet s (publish_channel cs channel m s)"
proof (induction cs arbitrary: s)
  case (Cons c cs)
  then show ?case
    by (simp, intro quiet_trans [OF _ Cons.IH] quiet_trans [OF _ quiet_replies(10)] quiet_base)
qed simp

lemma publish_patterns_quiet:
  "\<forall>(c, p) \<in> set ps. pat_safe p \<Longrightarrow>
   \<exists>s' n'. publish_patterns ps channel m s n = Some (s', n') \<and> quiet s s'"
proof (induction ps arbitrary: s n)
  case (Cons x ps)
  obtain c p where x: "x = (c, p)" by force
  have "pat_safe p" using Cons.prems x by simp
  then obtain b where b: "sds_match p channel = Some b" by (metis pat_safe_def not_Some_eq)
  let ?s = "addReplyBulk c m (addReplyBulk c (Raw channel) (addReplyBulk c (Raw p)
           (addReply c (Raw shared_pmessagebulk) (addReply c (Raw (len_hdr CHR ''*'' 4)) s))))"
  have q: "quiet s ?s"
    by (intro quiet_trans [OF _ quiet_replies(10)] quiet_base)
  show ?case
  proof (cases b)
    case True
    then show ?thesis using Cons.IH [of ?s "n + 1"] Cons.prems b x quiet_trans [OF q] by auto
  next
    case False
    then show ?thesis using Cons.IH [of s n] Cons.prems b x by auto
  qed
qed simp

lemma publish_quiet:
  assumes "\<forall>(c, p) \<in> set (srv_patterns s). pat_safe p"
  shows "\<exists>s' n. pubsubPublishMessage channel m s = Some (s', n) \<and> quiet s s'"
proof -
  define cs where "cs = (case srv_channels s channel of None \<Rightarrow> [] | Some l \<Rightarrow> l)"
  have q: "quiet s (publish_channel cs channel m s)" by (rule publish_channel_quiet)
  then have "srv_patterns (publish_channel cs channel m s) = srv_patterns s"
    by (simp add: quiet_def frm_def srv_frame_def)
  with publish_patterns_quiet [of "srv_patterns s" channel m "publish_channel cs channel m s" "length cs"]
    assms q quiet_trans show ?thesis
    unfolding pubsubPublishMessage_def cs_def Let_def by (metis (no_types, lifting))
qed

lemma quiet_patterns: "quiet s s' \<Longrightarrow> srv_patterns s' = srv_patterns s"
  by (simp add: quiet_def frm_def srv_frame_def)

lemma data_inv_patterns: "data_inv s \<Longrightarrow> \<forall>(c, p) \<in> set (srv_patterns s). pat_safe p"
  by (simp add: data_inv_def)

lemma publish_holds:
  assumes "\<forall>(c, p) \<in> set (srv_patterns s). pat_safe p" and "quiet s s'"
  shows "holds (map_option fst (pubsubPublishMessage chan m s')) (quiet s)"
  using publish_quiet [of s' chan m] assms quiet_trans [OF assms(2)]
  by (auto simp: holds_def quiet_patterns)

lemma notify_quiet:
  assumes "\<forall>(c, p) \<in> set (srv_patterns s). pat_safe p"
  shows "holds (notifyKeyspaceEvent t e k j s) (quiet s)"
proof (cases "t \<in> notify_keyspace_events s")
  case True
  have 2: "holds (if REDIS_NOTIFY_KEYEVENT \<in> notify_keyspace_events s' then
          map_option fst (pubsubPublishMessage
            (cstr ''__keyevent@'' @ ll_repr (int j) @ cstr ''__:'' @ cstr e) (Raw k) s')
        else Some s') (quiet s)" if "quiet s s'" for s'
    using publish_holds [OF assms that] that by (auto simp: holds_def)
  have 1: "holds (if REDIS_NOTIFY_KEYSPACE \<in> notify_keyspace_events s then
               map_option fst (pubsubPublishMessage
                 (cstr ''__keyspace@'' @ ll_repr (int j) @ cstr ''__:'' @ k) (Raw (cstr e)) s)
             else Some s) (quiet s)"
    using publish_holds [OF assms, of s] by (auto simp: holds_def)
  show ?thesis
    using True by (simp only: notifyKeyspaceEvent_def not_True_eq_False if_False)
      (rule holds_bind, rule holds_mono [OF 1], rule 2)
qed (simp add: notifyKeyspaceEvent_def holds_def)

lemma notify_wp [wp]:
  assumes "st s0 s"
    and "\<And>s'. st s0 s' \<Longrightarrow> dbs s' = dbs s \<Longrightarrow> kv s' = kv s \<Longrightarrow> dirty s' = dirty s \<Longrightarrow> touched s' = touched s \<Longrightarrow> Q s'"
  shows "holds (notifyKeyspaceEvent t e k j s) Q"
  using notify_quiet [OF data_inv_patterns [OF st_inv [OF assms(1)]]]
  by (rule holds_mono)
    (rule assms(2) [OF quiet_st [OF assms(1)]], auto dest: quiet_dbs quiet_kv quiet_dirty quiet_touched)

section \<open>Rules for the operations on data\<close>

named_theorems sti

lemmas reply_fields [simp] =
  quiet_replies [THEN quiet_dbs] quiet_replies [THEN quiet_dirty]
  quiet_replies [THEN quiet_kv] quiet_replies [THEN quiet_touched]
  quiet_addReply [THEN quiet_dbs] quiet_addReply [THEN quiet_dirty]
  quiet_addReply [THEN quiet_kv] quiet_addReply [THEN quiet_touched]

lemmas st_replies [sti] =
  quiet_st [OF _ quiet_addReply] quiet_st [OF _ quiet_replies(1)] quiet_st [OF _ quiet_replies(2)]
  quiet_st [OF _ quiet_replies(3)] quiet_st [OF _ quiet_replies(5)] quiet_st [OF _ quiet_replies(7)]
  quiet_st [OF _ quiet_replies(8)] quiet_st [OF _ quiet_replies(10)]
  quiet_st [OF _ quiet_replies(11)] quiet_st [OF _ quiet_replies(12)]

lemma st_upd [sti]:
  assumes "st s0 s"
  shows "st s0 (s\<lparr>dirty := dirty s + 1\<rparr>)" "n \<ge> 0 \<Longrightarrow> st s0 (s\<lparr>dirty := dirty s + n\<rparr>)"
    "st s0 (s\<lparr>stat_keyspace_hits := m\<rparr>)" "st s0 (s\<lparr>stat_keyspace_misses := m\<rparr>)"
    "st s0 (s\<lparr>stat_expiredkeys := m\<rparr>)" "st s0 (s\<lparr>aof_selected_db := d, aof_buf := b, aof_rewrite_buf := r\<rparr>)" "st s0 (s\<lparr>repl_log := l\<rparr>)"
  by (rule st_step [OF assms],
      auto simp: frm_def srv_frame_def intro: data_inv_dbs [OF st_inv [OF assms]])+

lemma upd_kv [simp]:
  "kv (s\<lparr>dirty := n\<rparr>) = kv s" "kv (s\<lparr>stat_keyspace_hits := m\<rparr>) = kv s"
  "kv (s\<lparr>stat_keyspace_misses := m\<rparr>) = kv s"
  "touched (s\<lparr>dirty := n\<rparr>) = touched s" "touched (s\<lparr>stat_keyspace_hits := m\<rparr>) = touched s"
  "touched (s\<lparr>stat_keyspace_misses := m\<rparr>) = touched s"
  by (rule kv_dbs touched_same; simp)+

lemma fold_flags:
  "fold (\<lambda>c. upd_client c (set_flag f)) l s =
     s\<lparr>clients := \<lambda>c. if c \<in> set l then set_flag f (clients s c) else clients s c\<rparr>"
  by (induction l arbitrary: s) (auto simp: upd_client_def fun_eq_iff)

lemma signal_eq:
  "signalModifiedKey j k s =
     s\<lparr>clients := \<lambda>c. if c \<in> set (watchers s j k) then set_flag REDIS_DIRTY_CAS (clients s c) else clients s c\<rparr>"
  by (simp add: signalModifiedKey_def touchWatchedKey_def watchers_def fold_flags split: option.splits)

lemma signal_fields [simp]:
  "dbs (signalModifiedKey j k s) = dbs s" "dirty (signalModifiedKey j k s) = dirty s"
  "kv (signalModifiedKey j k s) = kv s"
  by (auto simp: signal_eq intro!: kv_dbs)

lemma signal_touched [simp]:
  "touched (signalModifiedKey j k s) j k"
  "touched s j' k' \<Longrightarrow> touched (signalModifiedKey j k s) j' k'"
  by (simp_all add: signal_eq touched_def watchers_def)

lemma st_signal [sti]: "st s0 s \<Longrightarrow> st s0 (signalModifiedKey j k s)"
  by (rule st_step)
    (auto simp: signal_eq frm_def srv_frame_def client_frame_def intro: data_inv_dbs dest: st_inv)

abbreviation kv_upd :: "'o server \<Rightarrow> nat \<Rightarrow> bytes \<Rightarrow> 'o rval option \<times> int option \<Rightarrow>
    nat \<Rightarrow> bytes \<Rightarrow> 'o rval option \<times> int option" where
  "kv_upd s j k x \<equiv> (kv s)(j := (kv s j)(k := x))"

definition db_upd :: "nat \<Rightarrow> bytes \<Rightarrow> 'o robj option \<Rightarrow> int option \<Rightarrow> 'o server \<Rightarrow> 'o server" where
  "db_upd j k v t = upd_db j (\<lambda>d. d\<lparr>dexpires := (dexpires d)(k := t), ddict := (ddict d)(k := v)\<rparr>)"

lemma db_upd_fields [simp]:
  "kv (db_upd j k v t s) = kv_upd s j k (map_option rval v, t)"
  "ddict (dbs (db_upd j k v t s) j) k = v" "dirty (db_upd j k v t s) = dirty s"
  "touched (db_upd j k v t s) = touched s"
  by (auto simp: db_upd_def kv_def upd_db_def fun_eq_iff touched_def watchers_def)

lemma db_upd_simps:
  "upd_db j (\<lambda>d. d\<lparr>ddict := (ddict d)(k := v)\<rparr>) s = db_upd j k v (dexpires (dbs s j) k) s"
  "upd_db j (\<lambda>d. d\<lparr>dexpires := (dexpires d)(k := t)\<rparr>) s = db_upd j k (ddict (dbs s j) k) t s"
  "upd_db j (\<lambda>d. d\<lparr>dexpires := (dexpires d)(k := t), ddict := (ddict d)(k := v)\<rparr>) s = db_upd j k v t s"
  by (simp_all add: db_upd_def upd_db_def)

lemma st_db_upd:
  assumes "st s0 s" and "t \<noteq> None \<longrightarrow> v \<noteq> None" and "\<forall>x. v = Some x \<longrightarrow> val_ok x"
  shows "st s0 (db_upd j k v t s)"
proof (rule st_step [OF assms(1)])
  show "frm s (db_upd j k v t s)" by (auto simp: frm_def srv_frame_def db_upd_def upd_db_def)
  show "data_inv (db_upd j k v t s)"
    using assms(2,3) st_inv [OF assms(1)] by (auto simp: data_inv_def db_upd_def upd_db_def val_ok_def)
qed

lemma val_ok_present: "data_inv s \<Longrightarrow> ddict (dbs s j) k = Some v \<Longrightarrow> val_ok v"
  by (auto simp: data_inv_def val_ok_def)

lemma expires_present: "data_inv s \<Longrightarrow> dexpires (dbs s j) k \<noteq> None \<Longrightarrow> ddict (dbs s j) k \<noteq> None"
  by (simp add: data_inv_def)

lemma lookupKey_spec:
  assumes "st s0 s"
  shows "\<exists>s' v. lookupKey j k s = (s', v) \<and> st s0 s' \<and> kv s' = kv s \<and> ddict (dbs s' j) k = v \<and>
     dirty s' = dirty s \<and> touched s' = touched s"
proof (cases "ddict (dbs s j) k")
  case None
  then show ?thesis using assms by (simp add: lookupKey_def)
next
  case (Some v)
  define v' where "v' = (if \<not> saving_child s then v\<lparr>lru := lruclock s\<rparr> else v)"
  have r: "rval v' = rval v" by (simp add: v'_def)
  have "val_ok v'" using val_ok_present [OF st_inv [OF assms] Some] r by (simp add: val_ok_def)
  then have "st s0 (db_upd j k (Some v') (dexpires (dbs s j) k) s)"
    by (intro st_db_upd [OF assms]) auto
  moreover have "kv (db_upd j k (Some v') (dexpires (dbs s j) k) s) = kv s"
    using Some r by (simp add: fun_eq_iff) (simp add: kv_def)
  ultimately show ?thesis
    using Some by (auto simp: lookupKey_def Let_def v'_def db_upd_simps)
qed

lemma getExpire_eq:
  "data_inv s \<Longrightarrow> getExpire j k s = Some (case snd (kv s j k) of None \<Rightarrow> - 1 | Some t \<Rightarrow> t)"
  by (cases "dexpires (dbs s j) k") (auto simp: getExpire_def kv_def dest: expires_present)

lemma getExpire_wp [wp]:
  "st s0 s \<Longrightarrow> Q (case snd (kv s j k) of None \<Rightarrow> - 1 | Some t \<Rightarrow> t) \<Longrightarrow> holds (getExpire j k s) Q"
  by (simp add: getExpire_eq [OF st_inv] holds_def)

lemma dbDelete_eq: "dbDelete j k s = (db_upd j k None None s, ddict (dbs s j) k \<noteq> None)"
  by (simp add: dbDelete_def db_upd_def)

lemma st_delete [sti]: "st s0 s \<Longrightarrow> st s0 (db_upd j k None None s)"
  by (rule st_db_upd) auto

lemma propagateExpire_wp:
  assumes "st s0 s"
    and "\<And>s'. st s0 s' \<Longrightarrow> dbs s' = dbs s \<Longrightarrow> dirty s' = dirty s \<Longrightarrow> clients s' = clients s \<Longrightarrow> Q s'"
  shows "holds (propagateExpire j k s) Q"
proof -
  have f: "Q (s'\<lparr>repl_log := l\<rparr>)" if "s' = s \<or> (\<exists>d b r. s' = s\<lparr>aof_selected_db := d, aof_buf := b, aof_rewrite_buf := r\<rparr>)" for s' l
    using that by (intro assms(2)) (auto intro!: sti assms(1))
  obtain s1 where s1: "feedAppendOnlyFile server_delCommand j [cstr ''DEL'', k] s = Some s1"
    using feed_delCommand by blast
  then show ?thesis
    using f [of s1] f [of s] by (auto simp: propagateExpire_def Let_def holds_def elim!: feed_fields)
qed

lemma expireIfNeeded_wp [wp]:
  assumes s: "st s0 s"
    and Q: "\<And>s' b. st s0 s' \<Longrightarrow> kv s' = kv_upd s j k (live s j k) \<Longrightarrow> dirty s' = dirty s \<Longrightarrow>
      touched s' = touched s \<Longrightarrow> Q (s', b)"
  shows "holds (expireIfNeeded j k s) Q"
proof (cases "expired s j k")
  case True
  let ?s = "s\<lparr>stat_expiredkeys := stat_expiredkeys s + 1\<rparr>"
  have "holds (propagateExpire j k ?s \<bind> (\<lambda>s.
      notifyKeyspaceEvent REDIS_NOTIFY_EXPIRED ''expired'' k j s \<bind> (\<lambda>s. Some (dbDelete j k s)))) Q"
  proof (rule holds_bind, rule propagateExpire_wp [OF st_upd(5) [OF s]])
    fix s1 assume s1: "st s0 s1" "dbs s1 = dbs ?s" "dirty s1 = dirty ?s" "clients s1 = clients ?s"
    then have t: "kv s1 = kv s" "touched s1 = touched s" "dirty s1 = dirty s"
      by (auto intro: kv_dbs touched_same)
    show "holds (notifyKeyspaceEvent REDIS_NOTIFY_EXPIRED ''expired'' k j s1 \<bind>
        (\<lambda>s. Some (dbDelete j k s))) Q"
      unfolding dbDelete_eq
      by (intro wp, rule s1) (insert t True, auto simp: live_def intro!: Q sti)
  qed
  moreover have "expireIfNeeded j k s = propagateExpire j k ?s \<bind> (\<lambda>s.
      notifyKeyspaceEvent REDIS_NOTIFY_EXPIRED ''expired'' k j s \<bind> (\<lambda>s. Some (dbDelete j k s)))"
    using True by (auto simp: expireIfNeeded_def getExpire_eq [OF st_inv [OF s]] expired_def kv_def Let_def)
  ultimately show ?thesis by simp
next
  case False
  then have "\<exists>b. expireIfNeeded j k s = Some (s, b)"
    by (cases "dexpires (dbs s j) k")
      (auto simp: expireIfNeeded_def getExpire_eq [OF st_inv [OF s]] expired_def kv_def Let_def)
  moreover have "kv s = kv_upd s j k (live s j k)" using False by (simp add: live_def)
  ultimately show ?thesis using Q [OF s] by (auto simp: holds_def)
qed

lemma lookupKey_ret:
  assumes "st s0 s"
    and "\<And>s' v. st s0 s' \<Longrightarrow> kv s' = kv s \<Longrightarrow> ddict (dbs s' j) k = v \<Longrightarrow>
      dirty s' = dirty s \<Longrightarrow> touched s' = touched s \<Longrightarrow> Q (s', v)"
  shows "Q (lookupKey j k s)"
  using lookupKey_spec [OF assms(1), of j k] assms(2) by auto

lemma lookupKey_D:
  "lookupKey j k s = (s', v) \<Longrightarrow> st s0 s \<Longrightarrow>
   st s0 s' \<and> kv s' = kv s \<and> ddict (dbs s' j) k = v \<and> dirty s' = dirty s \<and> touched s' = touched s"
  using lookupKey_spec [of s0 s j k] by auto

lemma lookupKey_wp [wp]:
  assumes "st s0 s"
    and "\<And>s' v. st s0 s' \<Longrightarrow> kv s' = kv s \<Longrightarrow> ddict (dbs s' j) k = v \<Longrightarrow>
      dirty s' = dirty s \<Longrightarrow> touched s' = touched s \<Longrightarrow> holds (f s' v) Q"
  shows "holds (case lookupKey j k s of (s', v) \<Rightarrow> f s' v) Q"
  using lookupKey_spec [OF assms(1), of j k] assms(2) by auto

lemma lookupKeyWrite_wp [wp]:
  assumes "st s0 s"
    and "\<And>s' v. st s0 s' \<Longrightarrow> kv s' = kv_upd s j k (live s j k) \<Longrightarrow> ddict (dbs s' j) k = v \<Longrightarrow>
      dirty s' = dirty s \<Longrightarrow> touched s' = touched s \<Longrightarrow> Q (s', v)"
  shows "holds (lookupKeyWrite j k s) Q"
  unfolding lookupKeyWrite_def
  by (intro wp, rule assms(1)) (auto intro!: lookupKey_ret [where Q = Q] assms(2))

lemma lookupKeyRead_wp [wp]:
  assumes "st s0 s"
    and "\<And>s' v. st s0 s' \<Longrightarrow> kv s' = kv_upd s j k (live s j k) \<Longrightarrow> ddict (dbs s' j) k = v \<Longrightarrow>
      dirty s' = dirty s \<Longrightarrow> touched s' = touched s \<Longrightarrow> Q (s', v)"
  shows "holds (lookupKeyRead j k s) Q"
  unfolding lookupKeyRead_def
  by (intro wp, rule assms(1))
    (auto intro!: assms(2) sti)

lemma lookupKeyReadOrReply_wp [wp]:
  assumes "st s0 s"
    and "\<And>s' v. st s0 s' \<Longrightarrow> kv s' = kv_upd s j k (live s j k) \<Longrightarrow> ddict (dbs s' j) k = v \<Longrightarrow>
      dirty s' = dirty s \<Longrightarrow> touched s' = touched s \<Longrightarrow> Q (s', v)"
  shows "holds (lookupKeyReadOrReply c j k r s) Q"
  unfolding lookupKeyReadOrReply_def
  by (intro wp, rule assms(1)) (auto intro!: assms(2) sti)

lemma lookupKeyWriteOrReply_wp [wp]:
  assumes "st s0 s"
    and "\<And>s' v. st s0 s' \<Longrightarrow> kv s' = kv_upd s j k (live s j k) \<Longrightarrow> ddict (dbs s' j) k = v \<Longrightarrow>
      dirty s' = dirty s \<Longrightarrow> touched s' = touched s \<Longrightarrow> Q (s', v)"
  shows "holds (lookupKeyWriteOrReply c j k r s) Q"
  unfolding lookupKeyWriteOrReply_def
  by (intro wp, rule assms(1)) (auto intro!: assms(2) sti)

lemma dbAdd_wp [wp]:
  assumes "st s0 s" and "ddict (dbs s j) k = None" and "val_ok v"
    and "\<And>s'. st s0 s' \<Longrightarrow> kv s' = kv_upd s j k (Some (rval v), None) \<Longrightarrow>
      ddict (dbs s' j) k = Some v \<Longrightarrow> dirty s' = dirty s \<Longrightarrow> touched s' = touched s \<Longrightarrow> Q s'"
  shows "holds (dbAdd j k v s) Q"
proof -
  have "dexpires (dbs s j) k = None" using expires_present [OF st_inv [OF assms(1)]] assms(2) by blast
  then show ?thesis
    using assms(2) assms(4) st_db_upd [OF assms(1), of None "Some v"] assms(3)
    by (simp add: dbAdd_def holds_def db_upd_simps)
qed

lemma dbOverwrite_wp [wp]:
  assumes "st s0 s" and "ddict (dbs s j) k \<noteq> None" and "val_ok v"
    and "\<And>s'. st s0 s' \<Longrightarrow> kv s' = kv_upd s j k (Some (rval v), snd (kv s j k)) \<Longrightarrow>
      ddict (dbs s' j) k = Some v \<Longrightarrow> dirty s' = dirty s \<Longrightarrow> touched s' = touched s \<Longrightarrow> Q s'"
  shows "holds (dbOverwrite j k v s) Q"
  using assms(2,4) st_db_upd [OF assms(1), of "dexpires (dbs s j) k" "Some v"] assms(3)
  by (auto simp: dbOverwrite_def holds_def db_upd_simps kv_def)

lemma upd_exp:
  assumes "st s0 s" and "ddict (dbs s j) k \<noteq> None"
  shows "st s0 (db_upd j k (ddict (dbs s j) k) t s)"
    "kv (db_upd j k (ddict (dbs s j) k) t s) = kv_upd s j k (fst (kv s j k), t)"
    "ddict (dbs (db_upd j k (ddict (dbs s j) k) t s) j') = ddict (dbs s j')"
proof -
  show "st s0 (db_upd j k (ddict (dbs s j) k) t s)"
    using val_ok_present [OF st_inv [OF assms(1)]] assms(2) by (intro st_db_upd [OF assms(1)]) auto
  show "kv (db_upd j k (ddict (dbs s j) k) t s) = kv_upd s j k (fst (kv s j k), t)"
    by (simp add: kv_def)
qed (simp add: db_upd_def upd_db_def)

lemma setExpire_wp [wp]:
  assumes "st s0 s" and "ddict (dbs s j) k \<noteq> None"
    and "\<And>s'. st s0 s' \<Longrightarrow> kv s' = kv_upd s j k (fst (kv s j k), Some t) \<Longrightarrow>
      ddict (dbs s' j) = ddict (dbs s j) \<Longrightarrow> dirty s' = dirty s \<Longrightarrow> touched s' = touched s \<Longrightarrow> Q s'"
  shows "holds (setExpire j k t s) Q"
  using assms(2,3) upd_exp [OF assms(1,2)] by (auto simp: setExpire_def holds_def db_upd_simps)

lemma removeExpire_wp [wp]:
  assumes "st s0 s" and "ddict (dbs s j) k \<noteq> None"
    and "\<And>s'. st s0 s' \<Longrightarrow> kv s' = kv_upd s j k (fst (kv s j k), None) \<Longrightarrow>
      ddict (dbs s' j) = ddict (dbs s j) \<Longrightarrow> dirty s' = dirty s \<Longrightarrow> touched s' = touched s \<Longrightarrow>
      Q (s', snd (kv s j k) \<noteq> None)"
  shows "holds (removeExpire j k s) Q"
  using assms(2,3) upd_exp [OF assms(1,2)]
  by (auto simp: removeExpire_def holds_def db_upd_simps kv_def)

lemma setKey_wp [wp]:
  assumes "st s0 s" and "val_ok v"
    and "\<And>s'. st s0 s' \<Longrightarrow> kv s' = kv_upd s j k (Some (rval v), None) \<Longrightarrow>
      ddict (dbs s' j) k = Some v \<Longrightarrow> dirty s' = dirty s \<Longrightarrow>
      touched s' j k \<Longrightarrow> (\<And>j' k'. touched s j' k' \<Longrightarrow> touched s' j' k') \<Longrightarrow> Q s'"
  shows "holds (setKey j k v s) Q"
proof -
  have "holds (removeExpire j k s2 \<bind> (\<lambda>(s, _). Some (signalModifiedKey j k s))) Q"
    if s2: "st s0 s2" "kv s2 = kv_upd s j k (Some (rval v), x)"
      "ddict (dbs s2 j) k = Some v" "dirty s2 = dirty s" "touched s2 = touched s" for s2 x
    by (intro wp, rule s2(1)) (insert s2, auto intro!: assms(3) sti)
  note fin = this
  show ?thesis
    unfolding setKey_def
  proof (rule holds_bind, rule lookupKeyWrite_wp [OF assms(1)])
    fix s1 old assume s1: "st s0 s1" "kv s1 = kv_upd s j k (live s j k)" "ddict (dbs s1 j) k = old"
      "dirty s1 = dirty s" "touched s1 = touched s"
    have "holds (dbAdd j k v s1) (\<lambda>s2. holds (removeExpire j k s2 \<bind>
        (\<lambda>(s, _). Some (signalModifiedKey j k s))) Q)" if "old = None"
      by (rule dbAdd_wp [OF s1(1)]) (use s1 that assms(2) in \<open>auto intro!: fin\<close>)
    moreover have "holds (dbOverwrite j k v s1) (\<lambda>s2. holds (removeExpire j k s2 \<bind>
        (\<lambda>(s, _). Some (signalModifiedKey j k s))) Q)" if "old \<noteq> None"
      by (rule dbOverwrite_wp [OF s1(1)]) (use s1 that assms(2) in \<open>auto intro!: fin\<close>)
    ultimately show "holds (case (s1, old) of (s, old) \<Rightarrow>
         (if old = None then dbAdd j k v s else dbOverwrite j k v s) \<bind>
         (\<lambda>s. removeExpire j k s \<bind> (\<lambda>(s, _). Some (signalModifiedKey j k s)))) Q"
      by (auto intro!: holds_bind)
  qed
qed

text \<open>\<open>ro s0 s\<close>: so far at most expired keys were removed.\<close>

definition ro :: "'o server \<Rightarrow> 'o server \<Rightarrow> bool" where
  "ro s0 s \<longleftrightarrow> st s0 s \<and> dirty s = dirty s0 \<and> touched s = touched s0 \<and>
     (\<forall>j k. kv s j k = kv s0 j k \<or> kv s j k = live s0 j k)"

lemma st_srv_frame: "st s0 s \<Longrightarrow> srv_frame s0 s"
  by (simp add: st_def frm_def)

lemma ro_refl: "data_inv s \<Longrightarrow> ro s s"
  by (simp add: ro_def st_refl)

lemma ro_st: "ro s0 s \<Longrightarrow> st s0 s"
  by (simp add: ro_def)

lemma ro_good: "ro s0 s \<Longrightarrow> good s0 s"
  by (rule goodI [where D = "{}"]) (auto simp: ro_def)

lemma ro_same: "ro s0 s \<Longrightarrow> st s0 s' \<Longrightarrow> kv s' = kv s \<Longrightarrow> dirty s' = dirty s \<Longrightarrow> touched s' = touched s \<Longrightarrow> ro s0 s'"
  by (simp add: ro_def)

lemma ro_lookup:
  assumes "ro s0 s" and "st s0 s'" and "kv s' = kv_upd s j k (live s j k)"
    and "dirty s' = dirty s" and "touched s' = touched s"
  shows "ro s0 s'"
proof -
  have "live s j k = live s0 j k"
    using assms(1) live_frame [OF st_srv_frame [OF ro_st [OF assms(1)]], of j k] by (auto simp: ro_def)
  then show ?thesis using assms by (auto simp: ro_def)
qed

end
