(* ===== verification/String_Cmd.thy ===== *)
theory String_Cmd
  imports Db_Rules
begin

text \<open>
  The string commands (\<open>t_string.c\<close>). A command takes the client and the state and returns the new
  state. Every command is shown to return a state that keeps the data invariant, to signal and
  count what it changed, and to do what it is documented to do; where 64 bit arithmetic lets it do
  something else, that is stated too. \<open>INCRBYFLOAT\<close> is not modelled (long double arithmetic).
\<close>

section \<open>The commands\<close>

definition checkStringLength :: "nat \<Rightarrow> int \<Rightarrow> 'o server \<Rightarrow> 'o server \<times> bool" where
  "checkStringLength c sz s =
     (if sz > 512 * 1024 * 1024
      then (addReplyError c ''string exceeds maximum allowed size (512MB)'' s, False)
      else (s, True))"

datatype time_unit = UNIT_SECONDS | UNIT_MILLISECONDS

record set_opts =
  opt_nx :: bool
  opt_xx :: bool
  opt_expire :: "bytes option"
  opt_unit :: time_unit

text \<open>The expire time of \<open>SETEX\<close> in milliseconds; \<^term>\<open>None\<close> when an error was replied.\<close>

definition set_expire_arg ::
  "nat \<Rightarrow> bytes option \<Rightarrow> time_unit \<Rightarrow> 'o server \<Rightarrow> 'o server \<times> int option" where
  "set_expire_arg c expire unit s =
     (case expire of
        None \<Rightarrow> (s, Some 0)
      | Some e \<Rightarrow>
          (case getLongLongFromObjectOrReply c (Some (Raw e)) None s of
             (s, None) \<Rightarrow> (s, None)
           | (s, Some ms) \<Rightarrow>
               if ms \<le> 0 then (addReplyError c ''invalid expire time in SETEX'' s, None)
               else (s, Some (if unit = UNIT_SECONDS then s64 (ms * 1000) else ms))))"

text \<open>Whether \<open>NX\<close> or \<open>XX\<close> forbids the operation.\<close>

definition set_aborted :: "nat \<Rightarrow> bytes \<Rightarrow> bool \<Rightarrow> bool \<Rightarrow> 'o server \<Rightarrow> ('o server \<times> bool) option" where
  "set_aborted j key nx xx s = do {
     (s, stop) \<leftarrow> (if nx then do { (s, v) \<leftarrow> lookupKeyWrite j key s; Some (s, v \<noteq> None) }
                  else Some (s, False));
     if stop then Some (s, True)
     else if xx then do { (s, v) \<leftarrow> lookupKeyWrite j key s; Some (s, v = None) }
     else Some (s, False) }"

definition setGenericCommand ::
  "nat \<Rightarrow> bool \<Rightarrow> bool \<Rightarrow> bytes \<Rightarrow> sobj \<Rightarrow> bytes option \<Rightarrow> time_unit \<Rightarrow> bytes option \<Rightarrow> bytes option \<Rightarrow>
   'o server \<Rightarrow> 'o server option" where
  "setGenericCommand c nx xx key val expire unit ok_reply abort_reply s =
     (let j = cdb (clients s c) in
      case set_expire_arg c expire unit s of
        (s, None) \<Rightarrow> Some s
      | (s, Some milliseconds) \<Rightarrow> do {
           (s, stop) \<leftarrow> set_aborted j key nx xx s;
           if stop then
             Some (addReply c (Raw (case abort_reply of Some r \<Rightarrow> r | None \<Rightarrow> shared_nullbulk)) s)
           else do {
             s \<leftarrow> setKey j key (createObject s (VString val)) s;
             let s = s\<lparr>dirty := dirty s + 1\<rparr>;
             s \<leftarrow> (if expire \<noteq> None then setExpire j key (s64 (mstime s + milliseconds)) s else Some s);
             s \<leftarrow> notifyKeyspaceEvent REDIS_NOTIFY_STRING ''set'' key j s;
             s \<leftarrow> (if expire \<noteq> None then notifyKeyspaceEvent REDIS_NOTIFY_GENERIC ''expire'' key j s
                  else Some s);
             Some (addReply c (Raw (case ok_reply of Some r \<Rightarrow> r | None \<Rightarrow> shared_ok)) s) } })"

text \<open>\<open>pk a i\<close> is \<open>a[i]\<close> with the terminating nul byte.\<close>

definition is_opt :: "bytes \<Rightarrow> char \<Rightarrow> char \<Rightarrow> char \<Rightarrow> char \<Rightarrow> bool" where
  "is_opt a l0 u0 l1 u1 \<longleftrightarrow>
     (pk a 0 = ch l0 \<or> pk a 0 = ch u0) \<and> (pk a 1 = ch l1 \<or> pk a 1 = ch u1) \<and> pk a 2 = 0"

fun set_options :: "bytes list \<Rightarrow> set_opts \<Rightarrow> set_opts option" where
  "set_options [] p = Some p"
| "set_options (a # as) p =
     (if is_opt a CHR ''n'' CHR ''N'' CHR ''x'' CHR ''X'' then set_options as (p\<lparr>opt_nx := True\<rparr>)
      else if is_opt a CHR ''x'' CHR ''X'' CHR ''x'' CHR ''X'' then set_options as (p\<lparr>opt_xx := True\<rparr>)
      else if is_opt a CHR ''e'' CHR ''E'' CHR ''x'' CHR ''X'' \<and> as \<noteq> [] then
        set_options (tl as) (p\<lparr>opt_expire := Some (hd as), opt_unit := UNIT_SECONDS\<rparr>)
      else if is_opt a CHR ''p'' CHR ''P'' CHR ''x'' CHR ''X'' \<and> as \<noteq> [] then
        set_options (tl as) (p\<lparr>opt_expire := Some (hd as), opt_unit := UNIT_MILLISECONDS\<rparr>)
      else None)"

definition setCommand :: "nat \<Rightarrow> 'o server \<Rightarrow> 'o server option" where
  "setCommand c s = do {
     key \<leftarrow> arg s c 1;
     val \<leftarrow> arg s c 2;
     case set_options (drop 3 (argv (clients s c)))
       \<lparr>opt_nx = False, opt_xx = False, opt_expire = None, opt_unit = UNIT_SECONDS\<rparr> of
       None \<Rightarrow> Some (addReply c (Raw shared_syntaxerr) s)
     | Some p \<Rightarrow>
         setGenericCommand c (opt_nx p) (opt_xx p) key (tryObjectEncoding False (Raw val))
           (opt_expire p) (opt_unit p) None None s }"

definition setnxCommand :: "nat \<Rightarrow> 'o server \<Rightarrow> 'o server option" where
  "setnxCommand c s = do {
     key \<leftarrow> arg s c 1;
     val \<leftarrow> arg s c 2;
     setGenericCommand c True False key (tryObjectEncoding False (Raw val)) None UNIT_SECONDS
       (Some shared_cone) (Some shared_czero) s }"

definition setexCommand :: "nat \<Rightarrow> 'o server \<Rightarrow> 'o server option" where
  "setexCommand c s = do {
     key \<leftarrow> arg s c 1;
     expire \<leftarrow> arg s c 2;
     val \<leftarrow> arg s c 3;
     setGenericCommand c False False key (tryObjectEncoding False (Raw val)) (Some expire)
       UNIT_SECONDS None None s }"

definition psetexCommand :: "nat \<Rightarrow> 'o server \<Rightarrow> 'o server option" where
  "psetexCommand c s = do {
     key \<leftarrow> arg s c 1;
     expire \<leftarrow> arg s c 2;
     val \<leftarrow> arg s c 3;
     setGenericCommand c False False key (tryObjectEncoding False (Raw val)) (Some expire)
       UNIT_MILLISECONDS None None s }"

text \<open>The text of a string value, and the reply with it; the flag is the result \<open>REDIS_OK\<close>.\<close>

definition getGenericCommand :: "nat \<Rightarrow> 'o server \<Rightarrow> ('o server \<times> bool) option" where
  "getGenericCommand c s = do {
     key \<leftarrow> arg s c 1;
     (s, v) \<leftarrow> lookupKeyReadOrReply c (cdb (clients s c)) key shared_nullbulk s;
     Some (case v of
       None \<Rightarrow> (s, True)
     | Some v \<Rightarrow>
         (case rval v of
            VString t \<Rightarrow> (addReplyBulk c t s, True)
          | VAgg _ _ \<Rightarrow> (addReply c (Raw shared_wrongtypeerr) s, False))) }"

definition getCommand :: "nat \<Rightarrow> 'o server \<Rightarrow> 'o server option" where
  "getCommand c s = map_option fst (getGenericCommand c s)"

definition getsetCommand :: "nat \<Rightarrow> 'o server \<Rightarrow> 'o server option" where
  "getsetCommand c s = do {
     let j = cdb (clients s c);
     key \<leftarrow> arg s c 1;
     (s, ok) \<leftarrow> getGenericCommand c s;
     if \<not> ok then Some s
     else do {
       val \<leftarrow> arg s c 2;
       s \<leftarrow> setKey j key (createObject s (VString (tryObjectEncoding False (Raw val)))) s;
       s \<leftarrow> notifyKeyspaceEvent REDIS_NOTIFY_STRING ''set'' key j s;
       Some (s\<lparr>dirty := dirty s + 1\<rparr>) } }"

text \<open>The text of a string value that is about to be changed, after \<open>dbUnshareStringValue\<close>.\<close>

definition raw_text :: "'o robj \<Rightarrow> bytes option" where
  "raw_text v = (case rval v of VString (Raw t) \<Rightarrow> Some t | _ \<Rightarrow> None)"

text \<open>\<open>sdsgrowzero\<close> on the text: the allocation fails, or the length does not fit its field, when
  the new length is not below two gigabytes.\<close>

definition grow_zero :: "bytes \<Rightarrow> nat \<Rightarrow> bytes option" where
  "grow_zero t n =
     (if n \<le> length t then Some t
      else if n < 2 ^ 31 - SDS_MAX_PREALLOC then Some (t @ replicate (n - length t) 0)
      else None)"

definition overwrite :: "bytes \<Rightarrow> nat \<Rightarrow> bytes \<Rightarrow> bytes" where
  "overwrite t off value = take off t @ value @ drop (off + length value) t"

definition setrangeCommand :: "nat \<Rightarrow> 'o server \<Rightarrow> 'o server option" where
  "setrangeCommand c s = do {
     let j = cdb (clients s c);
     key \<leftarrow> arg s c 1;
     off \<leftarrow> arg s c 2;
     value \<leftarrow> arg s c 3;
     case getLongFromObjectOrReply c (Some (Raw off)) None s of
       (s, None) \<Rightarrow> Some s
     | (s, Some offset) \<Rightarrow>
         if offset < 0 then Some (addReplyError c ''offset is out of range'' s)
         else do {
           (s, v) \<leftarrow> lookupKeyWrite j key s;
           (s, todo) \<leftarrow>
             (case v of
                None \<Rightarrow>
                  if value = [] then Some (addReply c (Raw shared_czero) s, None)
                  else
                    let (s, ok) = checkStringLength c (s64 (offset + int (length value))) s in
                    if \<not> ok then Some (s, None)
                    else
                      let v = createObject s (VString (Raw [])) in do {
                      s \<leftarrow> dbAdd j key v s;
                      Some (s, Some v) }
              | Some v \<Rightarrow>
                  let (s, wrong) = checkType c v REDIS_STRING s in
                  if wrong then Some (s, None)
                  else case rval v of
                    VAgg _ _ \<Rightarrow> None
                  | VString t \<Rightarrow>
                      let olen = stringObjectLen t in
                      if value = [] then Some (addReplyLongLong c (int olen) s, None)
                      else
                        let (s, ok) = checkStringLength c (s64 (offset + int (length value))) s in
                        if \<not> ok then Some (s, None)
                        else do {
                          (s, v) \<leftarrow> dbUnshareStringValue j key v s;
                          Some (s, Some v) });
           case todo of
             None \<Rightarrow> Some s
           | Some v \<Rightarrow> do {
               t \<leftarrow> raw_text v;
               t \<leftarrow> grow_zero t (nat offset + length value);
               let t = overwrite t (nat offset) value;
               s \<leftarrow> dbOverwrite j key (v\<lparr>rval := VString (Raw t)\<rparr>) s;
               let s = signalModifiedKey j key s;
               s \<leftarrow> notifyKeyspaceEvent REDIS_NOTIFY_STRING ''setrange'' key j s;
               let s = s\<lparr>dirty := dirty s + 1\<rparr>;
               Some (addReplyLongLong c (int (length t)) s) } } }"

text \<open>The part of the text from \<open>start\<close> to \<open>end\<close>; a byte outside the text is an invalid access.\<close>

definition read_range :: "bytes \<Rightarrow> int \<Rightarrow> int \<Rightarrow> bytes option" where
  "read_range t start e =
     (if 0 \<le> start \<and> e < int (length t) then Some (take (nat (e - start + 1)) (drop (nat start) t))
      else None)"

text \<open>The indices count from the end when they are negative; the last one is compared with the length as
  an \<open>unsigned\<close>.\<close>

definition getrange_clip :: "int \<Rightarrow> int \<Rightarrow> int \<Rightarrow> int \<times> int" where
  "getrange_clip strlen start e =
     (let start = (if start < 0 then strlen + start else start);
          e = (if e < 0 then strlen + e else e);
          start = (if start < 0 then 0 else start);
          e = (if e < 0 then 0 else e);
          e = (if e mod 2 ^ 32 \<ge> strlen then strlen - 1 else e)
      in (start, e))"

definition getrangeCommand :: "nat \<Rightarrow> 'o server \<Rightarrow> 'o server option" where
  "getrangeCommand c s = do {
     key \<leftarrow> arg s c 1;
     a2 \<leftarrow> arg s c 2;
     a3 \<leftarrow> arg s c 3;
     case getLongFromObjectOrReply c (Some (Raw a2)) None s of
       (s, None) \<Rightarrow> Some s
     | (s, Some start) \<Rightarrow>
         (case getLongFromObjectOrReply c (Some (Raw a3)) None s of
            (s, None) \<Rightarrow> Some s
          | (s, Some e) \<Rightarrow> do {
              (s, v) \<leftarrow> lookupKeyReadOrReply c (cdb (clients s c)) key shared_emptybulk s;
              case v of
                None \<Rightarrow> Some s
              | Some v \<Rightarrow>
                  let (s, wrong) = checkType c v REDIS_STRING s in
                  if wrong then Some s
                  else case rval v of
                    VAgg _ _ \<Rightarrow> None
                  | VString t \<Rightarrow>
                      let str = getDecodedObject t; (start, e) = getrange_clip (int (length str)) start e
                      in if start > e then Some (addReply c (Raw shared_emptybulk) s)
                         else do {
                           r \<leftarrow> read_range str start e;
                           Some (addReplyBulkCBuffer c r s) } }) }"

fun mget_loop :: "nat \<Rightarrow> nat \<Rightarrow> bytes list \<Rightarrow> 'o server \<Rightarrow> 'o server option" where
  "mget_loop c j [] s = Some s"
| "mget_loop c j (key # keys) s = do {
     (s, v) \<leftarrow> lookupKeyRead j key s;
     mget_loop c j keys
       (case v of
          None \<Rightarrow> addReply c (Raw shared_nullbulk) s
        | Some v \<Rightarrow>
            (case rval v of
               VString t \<Rightarrow> addReplyBulk c t s
             | VAgg _ _ \<Rightarrow> addReply c (Raw shared_nullbulk) s)) }"

definition mgetCommand :: "nat \<Rightarrow> 'o server \<Rightarrow> 'o server option" where
  "mgetCommand c s =
     (let keys = drop 1 (argv (clients s c))
      in mget_loop c (cdb (clients s c)) keys (addReplyMultiBulkLen c (int (argc s c) - 1) s))"

text \<open>Key and value alternate; the length of the vector was checked.\<close>

fun pairs :: "bytes list \<Rightarrow> (bytes \<times> bytes) list" where
  "pairs (k # v # xs) = (k, v) # pairs xs"
| "pairs _ = []"

fun busy_loop :: "nat \<Rightarrow> bytes list \<Rightarrow> 'o server \<Rightarrow> nat \<Rightarrow> ('o server \<times> nat) option" where
  "busy_loop j [] s busykeys = Some (s, busykeys)"
| "busy_loop j (key # keys) s busykeys = do {
     (s, v) \<leftarrow> lookupKeyWrite j key s;
     busy_loop j keys s (if v \<noteq> None then busykeys + 1 else busykeys) }"

fun mset_loop :: "nat \<Rightarrow> (bytes \<times> bytes) list \<Rightarrow> 'o server \<Rightarrow> 'o server option" where
  "mset_loop j [] s = Some s"
| "mset_loop j ((key, val) # kvs) s = do {
     s \<leftarrow> setKey j key (createObject s (VString (tryObjectEncoding False (Raw val)))) s;
     s \<leftarrow> notifyKeyspaceEvent REDIS_NOTIFY_STRING ''set'' key j s;
     mset_loop j kvs s }"

definition msetGenericCommand :: "nat \<Rightarrow> bool \<Rightarrow> 'o server \<Rightarrow> 'o server option" where
  "msetGenericCommand c nx s =
     (let j = cdb (clients s c); kvs = pairs (drop 1 (argv (clients s c))) in
      if argc s c mod 2 = 0 then Some (addReplyError c ''wrong number of arguments for MSET'' s)
      else do {
        (s, busykeys) \<leftarrow> (if nx then busy_loop j (map fst kvs) s 0 else Some (s, 0));
        if busykeys \<noteq> 0 then Some (addReply c (Raw shared_czero) s)
        else do {
          let n = (argc s c - 1) div 2;
          s \<leftarrow> mset_loop j kvs s;
          let s = s\<lparr>dirty := dirty s + int n\<rparr>;
          Some (addReply c (Raw (if nx then shared_cone else shared_ok)) s) } })"

definition msetCommand :: "nat \<Rightarrow> 'o server \<Rightarrow> 'o server option" where
  "msetCommand c = msetGenericCommand c False"

definition msetnxCommand :: "nat \<Rightarrow> 'o server \<Rightarrow> 'o server option" where
  "msetnxCommand c = msetGenericCommand c True"

definition string_of :: "'o robj option \<Rightarrow> sobj option" where
  "string_of v = (case v of None \<Rightarrow> None | Some v \<Rightarrow> (case rval v of VString t \<Rightarrow> Some t | VAgg _ _ \<Rightarrow> None))"

definition incrDecrCommand :: "nat \<Rightarrow> int \<Rightarrow> 'o server \<Rightarrow> 'o server option" where
  "incrDecrCommand c incr s = do {
     let j = cdb (clients s c);
     key \<leftarrow> arg s c 1;
     (s, v) \<leftarrow> lookupKeyWrite j key s;
     let (s, wrong) = (case v of None \<Rightarrow> (s, False) | Some v \<Rightarrow> checkType c v REDIS_STRING s);
     if wrong then Some s
     else case getLongLongFromObjectOrReply c (string_of v) None s of
       (s, None) \<Rightarrow> Some s
     | (s, Some value) \<Rightarrow>
         let oldvalue = value in
         if (incr < 0 \<and> oldvalue < 0 \<and> incr < LLONG_MIN - oldvalue) \<or>
            (incr > 0 \<and> oldvalue > 0 \<and> incr > LLONG_MAX - oldvalue)
         then Some (addReplyError c ''increment or decrement would overflow'' s)
         else
           let value = s64 (value + incr); new = createStringObjectFromLongLong value in do {
           s \<leftarrow> (if v \<noteq> None then dbOverwrite j key (createObject s (VString new)) s
                else dbAdd j key (createObject s (VString new)) s);
           let s = signalModifiedKey j key s;
           s \<leftarrow> notifyKeyspaceEvent REDIS_NOTIFY_STRING ''incrby'' key j s;
           let s = s\<lparr>dirty := dirty s + 1\<rparr>;
           Some (addReply c (Raw crlf) (addReply c new (addReply c (Raw (cstr '':'')) s))) } }"

definition incrCommand :: "nat \<Rightarrow> 'o server \<Rightarrow> 'o server option" where
  "incrCommand c = incrDecrCommand c 1"

definition decrCommand :: "nat \<Rightarrow> 'o server \<Rightarrow> 'o server option" where
  "decrCommand c = incrDecrCommand c (- 1)"

definition incrbyCommand :: "nat \<Rightarrow> 'o server \<Rightarrow> 'o server option" where
  "incrbyCommand c s = do {
     a \<leftarrow> arg s c 2;
     case getLongLongFromObjectOrReply c (Some (Raw a)) None s of
       (s, None) \<Rightarrow> Some s
     | (s, Some incr) \<Rightarrow> incrDecrCommand c incr s }"

definition decrbyCommand :: "nat \<Rightarrow> 'o server \<Rightarrow> 'o server option" where
  "decrbyCommand c s = do {
     a \<leftarrow> arg s c 2;
     case getLongLongFromObjectOrReply c (Some (Raw a)) None s of
       (s, None) \<Rightarrow> Some s
     | (s, Some incr) \<Rightarrow> incrDecrCommand c (s64 (- incr)) s }"

definition appendCommand :: "nat \<Rightarrow> 'o server \<Rightarrow> 'o server option" where
  "appendCommand c s = do {
     let j = cdb (clients s c);
     key \<leftarrow> arg s c 1;
     a2 \<leftarrow> arg s c 2;
     (s, v) \<leftarrow> lookupKeyWrite j key s;
     (s, todo) \<leftarrow>
       (case v of
          None \<Rightarrow>
            let val = tryObjectEncoding False (Raw a2) in do {
            s \<leftarrow> dbAdd j key (createObject s (VString val)) s;
            Some (s, Some (stringObjectLen val)) }
        | Some v \<Rightarrow>
            let (s, wrong) = checkType c v REDIS_STRING s in
            if wrong then Some (s, None)
            else case rval v of
              VAgg _ _ \<Rightarrow> None
            | VString t \<Rightarrow>
                let totlen = stringObjectLen t + length a2;
                    (s, ok) = checkStringLength c (int totlen) s in
                if \<not> ok then Some (s, None)
                else do {
                  (s, v) \<leftarrow> dbUnshareStringValue j key v s;
                  t \<leftarrow> raw_text v;
                  s \<leftarrow> dbOverwrite j key (v\<lparr>rval := VString (Raw (t @ a2))\<rparr>) s;
                  Some (s, Some (length (t @ a2))) });
     case todo of
       None \<Rightarrow> Some s
     | Some totlen \<Rightarrow> do {
         let s = signalModifiedKey j key s;
         s \<leftarrow> notifyKeyspaceEvent REDIS_NOTIFY_STRING ''append'' key j s;
         let s = s\<lparr>dirty := dirty s + 1\<rparr>;
         Some (addReplyLongLong c (int totlen) s) } }"

definition strlenCommand :: "nat \<Rightarrow> 'o server \<Rightarrow> 'o server option" where
  "strlenCommand c s = do {
     key \<leftarrow> arg s c 1;
     (s, v) \<leftarrow> lookupKeyReadOrReply c (cdb (clients s c)) key shared_czero s;
     Some (case v of
       None \<Rightarrow> s
     | Some v \<Rightarrow>
         let (s, wrong) = checkType c v REDIS_STRING s in
         if wrong then s
         else (case rval v of
            VString t \<Rightarrow> addReplyLongLong c (int (stringObjectLen t)) s
          | VAgg _ _ \<Rightarrow> s)) }"

section \<open>Every command signals and counts what it changes\<close>

text \<open>The arguments of a command: at least \<open>n\<close> of them, each within the limit of the protocol.\<close>

definition args_ok :: "'o server \<Rightarrow> nat \<Rightarrow> nat \<Rightarrow> bool" where
  "args_ok s c n \<longleftrightarrow> n \<le> argc s c \<and> (\<forall>a \<in> set (argv (clients s c)). length a \<le> PROTO_MAX)"

lemma arg_Some: "args_ok s c n \<Longrightarrow> i < n \<Longrightarrow> \<exists>a. arg s c i = Some a \<and> length a \<le> PROTO_MAX"
  by (auto simp: args_ok_def arg_def argc_def)

lemma arg_wp [wp]:
  "args_ok s c n \<Longrightarrow> i < n \<Longrightarrow> (\<And>a. arg s c i = Some a \<Longrightarrow> length a \<le> PROTO_MAX \<Longrightarrow> Q a) \<Longrightarrow>
   holds (arg s c i) Q"
  using arg_Some [of s c n i] by (auto simp: holds_def)

definition same where
  "same s0 s s' \<longleftrightarrow> st s0 s' \<and> dbs s' = dbs s \<and> kv s' = kv s \<and> dirty s' = dirty s \<and> touched s' = touched s"

lemma same_quiet: "st s0 s \<Longrightarrow> quiet s s' \<Longrightarrow> same s0 s s'"
  by (simp add: same_def quiet_st quiet_dbs quiet_kv quiet_dirty quiet_touched)

lemma getLongLong_quiet:
  "getLongLongFromObjectOrReply c obj msg s = (s', r) \<Longrightarrow> quiet s s'"
  "getLongFromObjectOrReply c obj msg s = (s', r) \<Longrightarrow> quiet s s'"
proof -
  show 1: "getLongLongFromObjectOrReply c obj msg s = (s', r) \<Longrightarrow> quiet s s'" for s' r
    by (auto simp: getLongLongFromObjectOrReply_def quiet_replies split: option.splits)
  show "getLongFromObjectOrReply c obj msg s = (s', r) \<Longrightarrow> quiet s s'"
    using 1 quiet_trans [OF 1 quiet_replies(2)]
    by (auto simp: getLongFromObjectOrReply_def split: prod.splits option.splits if_splits)
qed

lemma check_quiet:
  "checkType c v t s = (s', b) \<Longrightarrow> quiet s s'"
  "checkStringLength c n s = (s', b) \<Longrightarrow> quiet s s'"
  by (auto simp: checkType_def checkStringLength_def quiet_replies quiet_addReply split: if_splits)

lemmas same_D =
  getLongLong_quiet(1) [THEN same_quiet [rotated]] getLongLong_quiet(2) [THEN same_quiet [rotated]]
  check_quiet(1) [THEN same_quiet [rotated]] check_quiet(2) [THEN same_quiet [rotated]]

lemma getLongLong_wp [wp]:
  assumes "st s0 s"
    and "\<And>s' r. st s0 s' \<Longrightarrow> dbs s' = dbs s \<Longrightarrow> kv s' = kv s \<Longrightarrow> dirty s' = dirty s \<Longrightarrow>
      touched s' = touched s \<Longrightarrow> r = getLongLongFromObject obj \<Longrightarrow> holds (f s' r) Q"
  shows "holds (case getLongLongFromObjectOrReply c obj msg s of (s', r) \<Rightarrow> f s' r) Q"
proof (rule holds_prod)
  fix s' r assume p: "getLongLongFromObjectOrReply c obj msg s = (s', r)"
  then have "r = getLongLongFromObject obj"
    by (auto simp: getLongLongFromObjectOrReply_def split: option.splits)
  then show "holds (f s' r) Q"
    using same_D(1) [OF p assms(1)] assms(2) by (simp add: same_def)
qed

lemma getLong_result:
  "getLongFromObjectOrReply c obj msg s = (s', Some r) \<Longrightarrow> getLongLongFromObject obj = Some r \<and> r \<le> LLONG_MAX \<and> LLONG_MIN \<le> r"
  by (auto simp: getLongFromObjectOrReply_def getLongLongFromObjectOrReply_def split: option.splits if_splits)

lemma getLong_wp [wp]:
  assumes "st s0 s"
    and "\<And>s' r. st s0 s' \<Longrightarrow> dbs s' = dbs s \<Longrightarrow> kv s' = kv s \<Longrightarrow> dirty s' = dirty s \<Longrightarrow>
      touched s' = touched s \<Longrightarrow>
      (\<forall>n. r = Some n \<longrightarrow> getLongLongFromObject obj = Some n) \<Longrightarrow> holds (f s' r) Q"
  shows "holds (case getLongFromObjectOrReply c obj msg s of (s', r) \<Rightarrow> f s' r) Q"
proof (rule holds_prod)
  fix s' r assume p: "getLongFromObjectOrReply c obj msg s = (s', r)"
  note d = same_D(2) [OF p assms(1)]
  show "holds (f s' r) Q"
    by (rule assms(2)) (use d getLong_result [of c obj msg s s'] p in \<open>auto simp: same_def\<close>)
qed

lemma checkType_wp [wp]:
  assumes "st s0 s"
    and "\<And>s' b. st s0 s' \<Longrightarrow> dbs s' = dbs s \<Longrightarrow> kv s' = kv s \<Longrightarrow> dirty s' = dirty s \<Longrightarrow>
      touched s' = touched s \<Longrightarrow> b = (rtype_of v \<noteq> t) \<Longrightarrow> holds (f s' b) Q"
  shows "holds (case checkType c v t s of (s', b) \<Rightarrow> f s' b) Q"
proof (rule holds_prod)
  fix s' b assume p: "checkType c v t s = (s', b)"
  then have "b = (rtype_of v \<noteq> t)" by (auto simp: checkType_def split: if_splits)
  then show "holds (f s' b) Q" using same_D(3) [OF p assms(1)] assms(2) by (simp add: same_def)
qed

lemma checkStringLength_wp [wp]:
  assumes "st s0 s"
    and "\<And>s' b. st s0 s' \<Longrightarrow> dbs s' = dbs s \<Longrightarrow> kv s' = kv s \<Longrightarrow> dirty s' = dirty s \<Longrightarrow>
      touched s' = touched s \<Longrightarrow> b = (n \<le> int PROTO_MAX) \<Longrightarrow> holds (f s' b) Q"
  shows "holds (case checkStringLength c n s of (s', b) \<Rightarrow> f s' b) Q"
proof (rule holds_prod)
  fix s' b assume p: "checkStringLength c n s = (s', b)"
  then have "b = (n \<le> int PROTO_MAX)" by (auto simp: checkStringLength_def PROTO_MAX_def split: if_splits)
  then show "holds (f s' b) Q" using same_D(4) [OF p assms(1)] assms(2) by (simp add: same_def)
qed

lemma val_ok_encoded [simp]:
  "length t \<le> PROTO_MAX \<Longrightarrow> val_ok (createObject s (VString (tryObjectEncoding b (Raw t))))"
  using tryObjectEncoding_ok [of "Raw t" b] by (simp add: val_ok_def createObject_def)

lemma rval_createObject [simp]: "rval (createObject s v) = v"
  by (simp add: createObject_def)

lemma setGeneric_tail:
  assumes "st s s1" and "\<forall>j' k'. (j', k') \<noteq> (j, key) \<longrightarrow> kv s1 j' k' = kv s j' k'"
    and "dirty s1 = dirty s" and "val_ok (createObject s1 (VString val))"
  shows "holds (do {
             s \<leftarrow> setKey j key (createObject s1 (VString val)) s1;
             let s = s\<lparr>dirty := dirty s + 1\<rparr>;
             s \<leftarrow> (if expire \<noteq> None then setExpire j key (s64 (mstime s + ms)) s else Some s);
             s \<leftarrow> notifyKeyspaceEvent REDIS_NOTIFY_STRING ''set'' key j s;
             s \<leftarrow> (if expire \<noteq> None then notifyKeyspaceEvent REDIS_NOTIFY_GENERIC ''expire'' key j s
                  else Some s);
             Some (addReply c r s) }) (good s)"
  by (intro wp) ((assumption | rule sti assms(1,4) goodI [where D = "{(j, key)}"] | simp add: assms)+)

lemma same_simps:
  assumes "same s0 s s'"
  shows "st s0 s'" "kv s' = kv s" "dirty s' = dirty s" "touched s' = touched s" "dbs s' = dbs s"
  using assms by (simp_all add: same_def)

lemma set_expire_arg_quiet: "set_expire_arg c e u s = (s', r) \<Longrightarrow> quiet s s'"
  using getLongLong_quiet(1) quiet_trans [OF getLongLong_quiet(1) quiet_replies(2)]
  by (auto simp: set_expire_arg_def split: option.splits prod.splits if_splits)

lemma live_st: "st s0 s \<Longrightarrow> st s0 s' \<Longrightarrow> kv s j k = live s0 j k \<Longrightarrow> live s j k = live s0 j k"
  using live_frame(2) [of s0 s j k] by (simp add: st_def frm_def)

lemma live_live: "srv_frame s s' \<Longrightarrow> kv s' = kv_upd s j k (live s j k) \<Longrightarrow> live s' j k = live s j k"
  by (rule live_frame) simp_all

lemma set_aborted_wp [wp]:
  assumes "st s s1" and "kv s1 = kv s" and "dirty s1 = dirty s" and "touched s1 = touched s"
    and "\<And>s' b x. st s s' \<Longrightarrow> kv s' = kv_upd s j k x \<Longrightarrow> x = kv s j k \<or> x = live s j k \<Longrightarrow>
      dirty s' = dirty s \<Longrightarrow> touched s' = touched s \<Longrightarrow> Q (s', b)"
  shows "holds (set_aborted j k nx xx s1) Q"
proof -
  have l: "live s1 j k = live s j k"
    using live_frame(1) [OF st_srv_frame [OF assms(1)]] assms(2) by simp
  have ll: "live s2 j k = live s j k" if "st s s2" "kv s2 = kv_upd s j k (live s j k)" for s2
    using live_frame(2) [OF st_srv_frame [OF that(1)], of j k] that(2) by simp
  have q1: "Q (s1, False)" using assms(5) [of s1 "kv s j k"] assms(1-4) by simp
  have q2: "Q (s2, b)" if "st s s2" "kv s2 = kv_upd s j k (live s j k)" "dirty s2 = dirty s" "touched s2 = touched s"
    for s2 b using assms(5) [of s2 "live s j k"] that by simp
  show ?thesis
    unfolding set_aborted_def
    by (intro wp; (rule assms(1))?) (auto simp: assms(2-4) l ll intro!: assms(1) wp q1 q2)
qed

lemma setGeneric_good:
  assumes "data_inv s" and "sobj_ok val"
  shows "holds (setGenericCommand c nx xx key val expire unit ok ab s) (good s)"
proof -
  obtain s1 ms where p: "set_expire_arg c expire unit s = (s1, ms)" by force
  note s1 = same_simps [OF same_quiet [OF st_refl [OF assms(1)] set_expire_arg_quiet [OF p]]]
  have val: "val_ok (createObject s' (VString val))" for s'
    using assms(2) by (simp add: val_ok_def)
  define j where "j = cdb (clients s c)"
  show ?thesis
  proof (cases ms)
    case None
    then show ?thesis using s1 
      by (simp add: setGenericCommand_def p holds_def goodI [where D = "{}"])
  next
    case (Some ms')
    show ?thesis
      unfolding setGenericCommand_def Let_def p Some prod.case option.case j_def [symmetric]
    proof (rule holds_bind, rule set_aborted_wp [OF s1(1-4)])
      fix s2 b x
      assume a: "st s s2" "kv s2 = kv_upd s j key x"
        "x = kv s j key \<or> x = live s j key"
        "dirty s2 = dirty s" "touched s2 = touched s"
      note t = setGeneric_tail [OF a(1), of j key val, unfolded Let_def]
      show "holds (case (s2, b) of (s, stop) \<Rightarrow> if stop then
             Some (addReply c (Raw (case ab of Some r \<Rightarrow> r | None \<Rightarrow> shared_nullbulk)) s)
           else do {
             s \<leftarrow> setKey j key (createObject s (VString val)) s;
             s \<leftarrow> (if expire \<noteq> None then setExpire j key
               (s64 (mstime (s\<lparr>dirty := dirty s + 1\<rparr>) + ms')) (s\<lparr>dirty := dirty s + 1\<rparr>)
               else Some (s\<lparr>dirty := dirty s + 1\<rparr>));
             s \<leftarrow> notifyKeyspaceEvent REDIS_NOTIFY_STRING ''set'' key j s;
             s \<leftarrow> (if expire \<noteq> None then notifyKeyspaceEvent REDIS_NOTIFY_GENERIC ''expire'' key
               j s else Some s);
             Some (addReply c (Raw (case ok of Some r \<Rightarrow> r | None \<Rightarrow> shared_ok)) s) }) (good s)"
      proof (cases b)
        case True
        then show ?thesis using a by (auto intro!: wp goodI [where D = "{}"] sti)
      next
        case False
        then show ?thesis
          by (simp only: prod.case if_False, intro t) (use a val in auto)
      qed
    qed
  qed
qed

lemma setCommand_good: "data_inv s \<Longrightarrow> args_ok s c 3 \<Longrightarrow> holds (setCommand c s) (good s)"
  unfolding setCommand_def
  by (intro wp setGeneric_good)
    (assumption | simp | rule sti st_refl goodI [where D = "{}"] | use tryObjectEncoding_ok in \<open>simp; fail\<close>)+

lemma setnxCommand_good: "data_inv s \<Longrightarrow> args_ok s c 3 \<Longrightarrow> holds (setnxCommand c s) (good s)"
  unfolding setnxCommand_def
  by (intro wp setGeneric_good) (assumption | simp add: tryObjectEncoding_ok)+

lemma setexCommand_good: "data_inv s \<Longrightarrow> args_ok s c 4 \<Longrightarrow> holds (setexCommand c s) (good s)"
  unfolding setexCommand_def
  by (intro wp setGeneric_good) (assumption | simp add: tryObjectEncoding_ok)+

lemma psetexCommand_good: "data_inv s \<Longrightarrow> args_ok s c 4 \<Longrightarrow> holds (psetexCommand c s) (good s)"
  unfolding psetexCommand_def
  by (intro wp setGeneric_good) (assumption | simp add: tryObjectEncoding_ok)+

lemma getGeneric_wp [wp]:
  assumes "data_inv s" and "args_ok s c 2"
    and "\<And>s' k b. arg s c 1 = Some k \<Longrightarrow> st s s' \<Longrightarrow>
      kv s' = kv_upd s (cdb (clients s c)) k (live s (cdb (clients s c)) k) \<Longrightarrow>
      dirty s' = dirty s \<Longrightarrow> touched s' = touched s \<Longrightarrow> Q (s', b)"
  shows "holds (getGenericCommand c s) Q"
  unfolding getGenericCommand_def
  by (intro wp) (assumption | simp add: assms | rule st_refl assms
      | force split: option.splits rval.splits intro: assms(3) sti)+

lemma getCommand_ro: "data_inv s \<Longrightarrow> args_ok s c 2 \<Longrightarrow> holds (getCommand c s) (ro s)"
proof -
  assume a: "data_inv s" "args_ok s c 2"
  have "holds (getGenericCommand c s) (\<lambda>(s', _). ro s s')"
    by (rule getGeneric_wp [OF a]) (auto intro: ro_lookup [OF ro_refl [OF a(1)]])
  then show ?thesis by (auto simp: getCommand_def holds_def)
qed

lemma args_st: "st s s' \<Longrightarrow> arg s' c i = arg s c i"
  by (simp add: st_def frm_def client_frame_def arg_def)

lemma st_cdb: "st s s' \<Longrightarrow> cdb (clients s' c) = cdb (clients s c)"
  and st_argc: "st s s' \<Longrightarrow> argc s' c = argc s c"
  by (simp_all add: st_def frm_def client_frame_def argc_def)

lemma args_ok_mono: "args_ok s c n \<Longrightarrow> m \<le> n \<Longrightarrow> args_ok s c m"
  by (simp add: args_ok_def)

lemma args_ok_st: "args_ok s c n \<Longrightarrow> st s s' \<Longrightarrow> args_ok s' c n"
  by (simp add: args_ok_def argc_def st_def frm_def client_frame_def)

text \<open>The effect of a command on one key.\<close>

lemma good1:
  assumes "st s s'" and "\<And>j' k'. (j', k') \<noteq> (j, k) \<Longrightarrow> kv s' j' k' = kv s j' k'"
    and "kv s' j k = live s j k \<or> kv s' j k = kv s j k \<or> touched s' j k \<and> dirty s < dirty s'"
  shows "good s s'"
  by (rule goodI [where D = "if touched s' j k \<and> dirty s < dirty s' then {(j, k)} else {}"])
    (use assms in \<open>force split: if_splits\<close>)+

lemma getsetCommand_good: "data_inv s \<Longrightarrow> args_ok s c 3 \<Longrightarrow> holds (getsetCommand c s) (good s)"
proof -
  assume a: "data_inv s" "args_ok s c 3"
  have n: "args_ok s c 2" using args_ok_mono [OF a(2)] by simp
  obtain k where "arg s c 1 = Some k" using arg_Some [OF n, of 1] by auto
  note k = this this [unfolded One_nat_def]
  show ?thesis
    unfolding getsetCommand_def Let_def k bind.simps
    by (intro wp a(1) n)
      (assumption | rule sti a args_ok_st [OF a(2)] good1 [where j = "cdb (clients s c)" and k = k]
        | (simp add: k; fail) | force simp: k)+
qed

definition setrange_no_wrap :: "'o server \<Rightarrow> nat \<Rightarrow> bool" where
  "setrange_no_wrap s c \<longleftrightarrow>
     (\<forall>off value n. arg s c 2 = Some off \<longrightarrow> arg s c 3 = Some value \<longrightarrow>
        getLongLongFromObject (Some (Raw off)) = Some n \<longrightarrow> n + int (length value) \<le> LLONG_MAX)"

lemma unshare_wp [wp]:
  assumes "st s0 s" and "ddict (dbs s j) k = Some v" and "rval v = VString t"
    and "\<And>s' v'. st s0 s' \<Longrightarrow> rval v' = VString (Raw (getDecodedObject t)) \<Longrightarrow>
      kv s' = kv_upd s j k (Some (rval v'), snd (kv s j k)) \<Longrightarrow> ddict (dbs s' j) k = Some v' \<Longrightarrow>
      dirty s' = dirty s \<Longrightarrow> touched s' = touched s \<Longrightarrow> Q (s', v')"
  shows "holds (dbUnshareStringValue j k v s) Q"
proof (cases t)
  case (Raw r)
  have "kv s = kv_upd s j k (Some (rval v), snd (kv s j k))"
    using assms(2) by (auto simp: kv_def fun_eq_iff)
  then show ?thesis
    using Raw assms(1-3) assms(4) [of s v] by (simp add: dbUnshareStringValue_def holds_def)
next
  case (IntEnc n)
  have "sobj_ok t" using val_ok_present [OF st_inv [OF assms(1)] assms(2)] assms(3) by (simp add: val_ok_def)
  then have v: "val_ok (createObject s (VString (Raw (getDecodedObject (IntEnc n)))))"
    using length_decoded [of t] by (simp add: val_ok_def IntEnc)
  show ?thesis
    unfolding dbUnshareStringValue_def assms(3) IntEnc rval.case sobj.case Let_def
    by (intro wp, rule assms(1)) (use v in \<open>simp_all add: assms IntEnc\<close>)
qed

lemma set_upd_val: "ddict (dbs s j) k = Some v \<Longrightarrow> fst (kv s j k) = Some (rval v)"
  by (simp add: kv_def)

lemma val_ok_raw [simp]: "val_ok (v\<lparr>rval := VString (Raw t)\<rparr>) \<longleftrightarrow> length t \<le> PROTO_MAX"
  by (simp add: val_ok_def)

lemma sobj_ok_encoded [simp]: "length t \<le> PROTO_MAX \<Longrightarrow> sobj_ok (tryObjectEncoding b (Raw t))"
  using tryObjectEncoding_ok [of "Raw t" b] by simp

lemma val_ok_create [simp]: "val_ok (createObject s (VString t)) \<longleftrightarrow> sobj_ok t"
  by (simp add: val_ok_def)

lemma present_string:
  "data_inv s \<Longrightarrow> ddict (dbs s j) k = Some v \<Longrightarrow> rtype_of v = REDIS_STRING \<Longrightarrow>
   \<exists>t. rval v = VString t \<and> sobj_ok t"
  using val_ok_present [of s j k v]
  by (cases "rval v") (auto simp: rtype_of_def val_ok_def)

lemma strlenCommand_ro: "data_inv s \<Longrightarrow> args_ok s c 2 \<Longrightarrow> holds (strlenCommand c s) (ro s)"
proof -
  assume a: "data_inv s" "args_ok s c 2"
  show ?thesis
    unfolding strlenCommand_def
    by (intro wp, rule a(2)) (use a in \<open>auto intro!: ro_lookup [OF ro_refl] sti st_refl
      simp: checkType_def Let_def split: option.splits rval.splits\<close>)
qed

lemma ro_quiet: "ro s0 s \<Longrightarrow> quiet s s' \<Longrightarrow> ro s0 s'"
  by (rule ro_same) (auto simp: quiet_kv quiet_dirty quiet_touched intro: quiet_st ro_st)

lemma mget_loop_ro:
  "ro s0 (s :: 'a server) \<Longrightarrow> holds (mget_loop c j keys s) (ro s0)"
proof (induction keys arbitrary: s)
  case (Cons k ks)
  have "holds (lookupKeyRead j k s) (\<lambda>(s', v). ro s0 s')"
    by (rule lookupKeyRead_wp [OF ro_st [OF Cons.prems]]) (auto intro: ro_lookup [OF Cons.prems])
  moreover have "ro s0 s' \<Longrightarrow> ro s0 (case v of None \<Rightarrow> addReply c (Raw shared_nullbulk) s'
      | Some v \<Rightarrow> (case rval v of VString t \<Rightarrow> addReplyBulk c t s'
           | VAgg _ _ \<Rightarrow> addReply c (Raw shared_nullbulk) s'))"
    for s' and v :: "'a robj option"
    by (auto split: option.splits rval.splits intro: ro_quiet quiet_addReply quiet_replies)
  ultimately show ?case
    by (auto simp: holds_def Cons.IH [unfolded holds_def])
qed (simp add: holds_def)

lemma mgetCommand_ro: "data_inv s \<Longrightarrow> holds (mgetCommand c s) (ro s)"
  unfolding mgetCommand_def Let_def
  by (rule mget_loop_ro) (auto intro!: ro_quiet [OF ro_refl] quiet_replies)

lemma s64_range [simp]: "sobj_ok (createStringObjectFromLongLong (s64 n))"
  using pos_mod_bound [of "2 ^ 64" n] pos_mod_sign [of "2 ^ 64" n]
  by (auto simp: createStringObjectFromLongLong_def s64_def srange_def spat_def upat_def nat_less_iff)

lemma holds_option_pair [wp]:
  "(v = None \<Longrightarrow> holds (case a of (s, b) \<Rightarrow> f s b) Q) \<Longrightarrow>
   (\<And>x. v = Some x \<Longrightarrow> holds (case g x of (s, b) \<Rightarrow> f s b) Q) \<Longrightarrow>
   holds (case (case v of None \<Rightarrow> a | Some x \<Rightarrow> g x) of (s, b) \<Rightarrow> f s b) Q"
  by (cases v) auto

lemma incrDecr_good: 
  assumes "data_inv s" and "args_ok s c 2"
  shows "holds (incrDecrCommand c n s) (good s)"
proof -
  obtain k where "arg s c 1 = Some k" using arg_Some [OF assms(2), of 1] by auto
  note k = this this [unfolded One_nat_def]
  show ?thesis
    unfolding incrDecrCommand_def Let_def k bind.simps
    apply (intro wp)
    apply (assumption | rule sti st_refl assms good1 [where j = "cdb (clients s c)" and k = k]
        | (simp add: k; fail) | force simp: k)+
    done
qed


lemma good_after: "good s s' \<Longrightarrow> holds m (good s') \<Longrightarrow> holds m (good s)"
  by (auto simp: holds_def intro: good_trans)

lemma good_quiet: "data_inv s \<Longrightarrow> quiet s s' \<Longrightarrow> good s s'"
  by (rule ro_good [OF ro_quiet [OF ro_refl]])

lemma quiet_inv: "data_inv s \<Longrightarrow> quiet s s' \<Longrightarrow> data_inv s'"
  by (rule st_inv [OF quiet_st [OF st_refl]])

lemma incrby_good:
  assumes "data_inv s" and "args_ok s c 3"
  shows "holds (incrbyCommand c s) (good s)" "holds (decrbyCommand c s) (good s)"
proof -
  have "holds (case getLongLongFromObjectOrReply c x None s of (s, None) \<Rightarrow> Some s
       | (s, Some incr) \<Rightarrow> incrDecrCommand c (f incr) s) (good s)" for x f
  proof (rule holds_prod)
    fix s' r assume p: "getLongLongFromObjectOrReply c x None s = (s', r)"
    note q = getLongLong_quiet(1) [OF p]
    have "args_ok s' c 2"
      using args_ok_mono [OF args_ok_st [OF assms(2) quiet_st [OF st_refl [OF assms(1)] q]]] by simp
    then show "holds (case r of None \<Rightarrow> Some s' | Some incr \<Rightarrow> incrDecrCommand c (f incr) s') (good s)"
      using good_after [OF good_quiet [OF assms(1) q] incrDecr_good [OF quiet_inv [OF assms(1) q]]]
        good_quiet [OF assms(1) q]
      by (auto simp: holds_def split: option.splits)
  qed
  note * = this
  show "holds (incrbyCommand c s) (good s)" "holds (decrbyCommand c s) (good s)"
    unfolding incrbyCommand_def decrbyCommand_def
    by ((rule holds_bind, rule arg_wp [OF assms(2)], simp, rule *)+)
qed

lemma incr_good:
  assumes "data_inv s" and "args_ok s c 2"
  shows "holds (incrCommand c s) (good s)" "holds (decrCommand c s) (good s)"
  using incrDecr_good [OF assms] by (simp_all add: incrCommand_def decrCommand_def)

lemma raw_text_wp [wp]: "rval v = VString (Raw t) \<Longrightarrow> Q t \<Longrightarrow> holds (raw_text v) Q"
  by (simp add: raw_text_def holds_def)

lemma agg_string:
  "st s0 s \<Longrightarrow> ddict (dbs s j) k = Some v \<Longrightarrow> rtype_of v = REDIS_STRING \<Longrightarrow> rval v = VAgg t x \<Longrightarrow> False"
  using present_string [OF st_inv] by fastforce

lemma appendCommand_good:
  assumes "data_inv s" and "args_ok s c 3"
  shows "holds (appendCommand c s) (good s)"
proof -
  obtain k where "arg s c 1 = Some k" using arg_Some [OF assms(2), of 1] by auto
  note k = this this [unfolded One_nat_def]
  obtain a where a: "arg s c 2 = Some a" "length a \<le> PROTO_MAX" using arg_Some [OF assms(2), of 2] by auto
  show ?thesis
    unfolding appendCommand_def Let_def k a(1) bind.simps
    apply (intro wp)
    apply (assumption | rule sti st_refl assms good1 [where j = "cdb (clients s c)" and k = k]
        | (simp add: k a tryObjectEncoding_ok stringObjectLen_eq; fail) | (auto dest: agg_string; fail))+
    done
qed


lemma grow_zero_wp [wp]:
  assumes "n \<le> PROTO_MAX" and "Q (t @ replicate (n - length t) 0)"
  shows "holds (grow_zero t n) Q"
proof (cases "n \<le> length t")
  case False
  moreover have "n < 2 ^ 31 - SDS_MAX_PREALLOC"
    using assms(1) by (simp add: PROTO_MAX_def SDS_MAX_PREALLOC_def)
  ultimately show ?thesis using assms(2) by (simp add: grow_zero_def holds_def)
qed (use assms(2) in \<open>simp add: grow_zero_def holds_def\<close>)

lemma length_overwrite [simp]:
  "off + length v \<le> length t \<Longrightarrow> length (overwrite t off v) = length t"
  by (simp add: overwrite_def)

lemma setrange_room:
  assumes "n + int l \<le> int PROTO_MAX" and "0 \<le> n"
  shows "nat n + l \<le> PROTO_MAX"
  using assms by linarith

lemma string_len:
  "st s0 s \<Longrightarrow> ddict (dbs s j) k = Some v \<Longrightarrow> rval v = VString t \<Longrightarrow> length (getDecodedObject t) \<le> PROTO_MAX"
  using val_ok_present [OF st_inv] length_decoded by (fastforce simp: val_ok_def)

lemma live_kv: "st s s' \<Longrightarrow> kv s' = kv s \<Longrightarrow> live s' j k = live s j k"
  using live_frame(1) [OF st_srv_frame] by metis

lemma setrangeCommand_good:
  assumes "data_inv s" and "args_ok s c 4" and "setrange_no_wrap s c"
  shows "holds (setrangeCommand c s) (good s)"
proof -
  obtain k where "arg s c 1 = Some k" using arg_Some [OF assms(2), of 1] by auto
  note k = this this [unfolded One_nat_def]
  obtain off where off: "arg s c 2 = Some off" using arg_Some [OF assms(2), of 2] by auto
  obtain w where w: "arg s c 3 = Some w" using arg_Some [OF assms(2), of 3] by auto
  have nw: "s64 (n + int (length w)) = n + int (length w)"
    if "getLongLongFromObject (Some (Raw off)) = Some n" "0 \<le> n" for n
    using assms(3) that off w by (intro s64_id) (auto simp: setrange_no_wrap_def)
  show ?thesis
    unfolding setrangeCommand_def Let_def k off w bind.simps
    apply (simp (no_asm) only: option.case prod.case | rule wp
        | assumption | rule sti st_refl assms good1 [where j = "cdb (clients s c)" and k = k]
        | (simp add: k off w stringObjectLen_eq live_kv nw setrange_room; fail) | (auto dest: agg_string; fail)
        | ((frule (2) string_len, assumption)?, simp add: nw, linarith) | (auto dest!: string_len simp: nw; fail))+
    done
qed


text \<open>A loop over keys, before the changes are counted.\<close>

definition sofar :: "'o server \<Rightarrow> 'o server \<Rightarrow> bool" where
  "sofar s0 s \<longleftrightarrow> st s0 s \<and>
     (\<forall>j k. kv s j k = kv s0 j k \<or> kv s j k = live s0 j k \<or> touched s j k)"

lemma sofar_ro: "ro s0 s \<Longrightarrow> sofar s0 s"
  by (auto simp: sofar_def ro_def)

lemma sofar_st: "sofar s0 s \<Longrightarrow> st s0 s"
  by (simp add: sofar_def)

lemma sofar_quiet: "sofar s0 s \<Longrightarrow> quiet s s' \<Longrightarrow> sofar s0 s'"
  by (auto simp: sofar_def quiet_kv quiet_touched intro: quiet_st)

lemma sofar_touch:
  assumes "sofar s0 s" and "st s0 s'" and "\<And>j' k'. (j', k') \<noteq> (j, k) \<Longrightarrow> kv s' j' k' = kv s j' k'"
    and "touched s' j k" and "\<And>j' k'. touched s j' k' \<Longrightarrow> touched s' j' k'"
  shows "sofar s0 s'"
proof -
  have "kv s' j' k' = kv s0 j' k' \<or> kv s' j' k' = live s0 j' k' \<or> touched s' j' k'" for j' k'
    using assms(1,4) assms(3) [of j' k'] assms(5) [of j' k']
    by (cases "(j', k') = (j, k)") (auto simp: sofar_def)
  then show ?thesis using assms(2) by (simp add: sofar_def)
qed

lemma sofar_good: "sofar s0 s \<Longrightarrow> dirty s0 < dirty s \<Longrightarrow> good s0 s"
  by (auto simp: sofar_def good_def changed_def)

lemma mset_loop_sofar:
  "sofar s0 s \<Longrightarrow> \<forall>(k, v) \<in> set kvs. length v \<le> PROTO_MAX \<Longrightarrow>
   holds (mset_loop j kvs s) (\<lambda>s'. sofar s0 s' \<and> dirty s' = dirty s)"
proof (induction kvs arbitrary: s)
  case (Cons x kvs)
  obtain k v where x: "x = (k, v)" by force
  have v: "length v \<le> PROTO_MAX" using Cons.prems(2) x by auto
  have *: "sofar s0 s2" if "kv s1 = kv_upd s j k y" "touched s1 j k"
      "\<And>j' k'. touched s j' k' \<Longrightarrow> touched s1 j' k'" "st s0 s2" "kv s2 = kv s1" "touched s2 = touched s1" for s1 s2 y
    by (rule sofar_touch [OF Cons.prems(1) that(4)]) (use that in auto)
  have **: "holds (mset_loop j kvs s2) (\<lambda>s'. sofar s0 s' \<and> dirty s' = dirty s)"
    if "sofar s0 s2" "dirty s2 = dirty s" for s2
    using Cons.IH [OF that(1)] Cons.prems(2) that(2) by auto
  show ?case
    unfolding x mset_loop.simps
    by (intro wp, rule sofar_st [OF Cons.prems(1)])
      (assumption | rule ** *  | simp add: v; fail)+
qed (simp add: holds_def)

lemma busy_loop_ro: "ro s0 s \<Longrightarrow> holds (busy_loop j keys s n) (\<lambda>(s', m). ro s0 s')"
proof (induction keys arbitrary: s n)
  case (Cons k ks)
  show ?case
    unfolding busy_loop.simps
    by (rule holds_bind, rule lookupKeyWrite_wp [OF ro_st [OF Cons.prems]])
      (auto intro!: Cons.IH ro_lookup [OF Cons.prems])
qed (simp add: holds_def)

lemma pairs_length: "(k, v) \<in> set (pairs xs) \<Longrightarrow> \<forall>x \<in> set xs. length x \<le> n \<Longrightarrow> length v \<le> n"
  by (induction xs rule: pairs.induct) auto

lemma pairs_Nil: "pairs xs = [] \<longleftrightarrow> length xs < 2"
  by (cases xs rule: pairs.cases) auto

lemma msetGeneric_good:
  assumes "data_inv s" and "args_ok s c 1"
  shows "holds (msetGenericCommand c nx s) (good s)"
proof -
  define kvs where "kvs = pairs (drop 1 (argv (clients s c)))"
  have b: "\<forall>x \<in> set (drop 1 (argv (clients s c))). length x \<le> PROTO_MAX"
    using assms(2) by (auto simp: args_ok_def dest: in_set_dropD)
  have len: "\<forall>(k, v) \<in> set kvs. length v \<le> PROTO_MAX"
    using pairs_length [OF _ b] by (auto simp: kvs_def)
  have busy: "holds (if nx then busy_loop j ks s 0 else Some (s, 0)) (\<lambda>(s', m). ro s s')" for j ks
    using busy_loop_ro [OF ro_refl [OF assms(1)]] ro_refl [OF assms(1)] by (simp add: holds_def)
  have tail: "holds (do {
          s2 \<leftarrow> mset_loop j kvs s1;
          Some (addReply c r (s2\<lparr>dirty := dirty s2 + int ((argc s1 c - 1) div 2)\<rparr>)) }) (good s)"
    if "ro s s1" "argc s1 c = argc s c" for s1 j r
  proof (cases "kvs = []")
    case True
    then have "length (argv (clients s c)) < 3"
      using pairs_Nil [of "drop 1 (argv (clients s c))"] by (simp add: kvs_def)
    then have "argc s c div 2 = 0 \<or> (argc s c - 1) div 2 = 0" by (auto simp: argc_def)
    then have "ro s (addReply c r (s1\<lparr>dirty := dirty s1 + int ((argc s1 c - 1) div 2)\<rparr>))"
      using that ro_quiet [OF that(1) quiet_addReply] by auto
    then show ?thesis using True by (simp add: holds_def ro_good)
  next
    case False
    then have "0 < (argc s c - 1) div 2"
      using pairs_Nil [of "drop 1 (argv (clients s c))"] by (auto simp: kvs_def argc_def)
    then have p: "0 < int ((argc s1 c - 1) div 2)" using that(2) by simp
    show ?thesis
    proof (rule holds_bind, rule holds_mono [OF mset_loop_sofar [OF sofar_ro [OF that(1)] len]])
      fix s2 assume s2: "sofar s s2 \<and> dirty s2 = dirty s1"
      let ?s = "s2\<lparr>dirty := dirty s2 + int ((argc s1 c - 1) div 2)\<rparr>"
      have "sofar s ?s" using s2 st_upd(2) [of s s2 "int ((argc s1 c - 1) div 2)"] by (auto simp: sofar_def)
      then have "sofar s (addReply c r ?s)" by (rule sofar_quiet [OF _ quiet_addReply])
      then show "holds (Some (addReply c r ?s)) (good s)"
        using p s2 that(1) by (auto simp: holds_def ro_def intro!: sofar_good)
    qed
  qed
  show ?thesis
    unfolding msetGenericCommand_def Let_def kvs_def [symmetric]
    apply (rule holds_if)
     apply (simp add: holds_def good_quiet [OF assms(1)] quiet_replies)
    apply (rule holds_bind, rule holds_mono [OF busy])
    apply (auto split: prod.splits intro!: tail [unfolded One_nat_def] st_argc ro_st)
     apply (auto simp: holds_def intro: ro_good ro_quiet quiet_addReply)
    done
qed

lemma mset_good:
  assumes "data_inv s" and "args_ok s c 1"
  shows "holds (msetCommand c s) (good s)" "holds (msetnxCommand c s) (good s)"
  using msetGeneric_good [OF assms] by (simp_all add: msetCommand_def msetnxCommand_def)

text \<open>\<open>GETRANGE\<close> truncates its last argument to 32 bits before it is compared with the length.\<close>

definition getrange_no_trunc :: "'o server \<Rightarrow> nat \<Rightarrow> bool" where
  "getrange_no_trunc s c \<longleftrightarrow>
     (\<forall>a n. arg s c 3 = Some a \<longrightarrow> getLongLongFromObject (Some (Raw a)) = Some n \<longrightarrow> n < 2 ^ 32)"

definition range_start :: "int \<Rightarrow> int \<Rightarrow> int" where
  "range_start l a = max 0 (if a < 0 then l + a else a)"

definition range_end :: "int \<Rightarrow> int \<Rightarrow> int" where
  "range_end l b = min (l - 1) (max 0 (if b < 0 then l + b else b))"

lemma getrange_clip_eq:
  assumes "b < 2 ^ 32" and "0 \<le> l" and "l \<le> int PROTO_MAX"
  shows "getrange_clip l a b = (range_start l a, range_end l b)"
proof -
  have m: "x mod 2 ^ 32 = x" if "0 \<le> x" "x < 2 ^ 32" for x :: int using that by simp
  have "max 0 (if b < 0 then l + b else b) mod 2 ^ 32 = max 0 (if b < 0 then l + b else b)"
    using assms by (intro m) (auto simp: PROTO_MAX_def)
  then show ?thesis
    unfolding getrange_clip_def Let_def range_start_def range_end_def
    by (simp only: max_def min_def split: if_splits) (use assms(2) in \<open>auto split: if_splits\<close>)
qed

lemma read_range_clip:
  "range_start (int (length t)) a \<le> range_end (int (length t)) b \<Longrightarrow>
   \<exists>r. read_range t (range_start (int (length t)) a) (range_end (int (length t)) b) = Some r"
  by (auto simp: read_range_def range_start_def range_end_def)

lemma getrangeCommand_ro:
  assumes "data_inv s" and "args_ok s c 4" and "getrange_no_trunc s c"
  shows "holds (getrangeCommand c s) (ro s)"
proof -
  obtain k where k: "arg s c 1 = Some k" using arg_Some [OF assms(2), of 1] by auto
  obtain a2 where a2: "arg s c 2 = Some a2" using arg_Some [OF assms(2), of 2] by auto
  obtain a3 where a3: "arg s c 3 = Some a3" using arg_Some [OF assms(2), of 3] by auto
  have tail: "holds (case v of None \<Rightarrow> Some s2
      | Some v \<Rightarrow> (case checkType c v REDIS_STRING s2 of (s, wrong) \<Rightarrow>
          if wrong then Some s else (case rval v of VAgg _ _ \<Rightarrow> None
          | VString t \<Rightarrow>
              (case getrange_clip (int (length (getDecodedObject t))) a e of (start, e) \<Rightarrow>
               if start > e then Some (addReply c (Raw shared_emptybulk) s)
               else read_range (getDecodedObject t) start e \<bind> (\<lambda>r. Some (addReplyBulkCBuffer c r s)))))) (ro s)"
    if s2: "ro s s2" "\<And>v'. v = Some v' \<Longrightarrow> ddict (dbs s2 (cdb (clients s c))) k = Some v'" and e: "e < 2 ^ 32" for s2 v a e
  proof (cases v)
    case (Some v')
    note d = s2(2) [OF Some]
    show ?thesis
    proof (cases "rtype_of v' = REDIS_STRING")
      case True
      then obtain t where t: "rval v' = VString t"
        using present_string [OF st_inv [OF ro_st [OF s2(1)]] d] by auto
      note l = string_len [OF ro_st [OF s2(1)] d t]
      show ?thesis
        using read_range_clip [of "getDecodedObject t" a e] l s2(1)
        by (auto simp: Some True t checkType_def holds_def getrange_clip_eq [OF e]
            intro!: ro_quiet [OF s2(1)] quiet_addReply quiet_replies not_le_imp_less split: if_splits)
    qed (use s2(1) in \<open>auto simp: Some checkType_def holds_def intro: ro_quiet quiet_addReply\<close>)
  qed (use s2(1) in \<open>simp add: holds_def\<close>)
  show ?thesis
    unfolding getrangeCommand_def Let_def k a2 a3 bind.simps
    apply (rule getLong_wp [OF st_refl [OF assms(1)]])
    apply (rule holds_option)
     apply (simp add: holds_def ro_same [OF ro_refl [OF assms(1)]])
    apply (rule getLong_wp, assumption)
    apply (rule holds_option)
     apply (simp add: holds_def ro_same [OF ro_refl [OF assms(1)]])
    apply (rule holds_bind, rule lookupKeyReadOrReply_wp, assumption, rule holds_pair, rule tail)
      apply (rule ro_lookup [OF ro_refl [OF assms(1)]], assumption)
    apply (use assms(3) a3 in \<open>auto simp: live_kv st_cdb getrange_no_trunc_def\<close>)
    done
qed

end
