(* ===== verification/Db_Cmd.thy ===== *)
theory Db_Cmd
  imports String_Cmd
begin

text \<open>
  The commands on keys of \<open>db.c\<close>: deletion, renaming, moving, expire times, flushing, inspection. They
  signal and count what they change like the string commands, with two exceptions: \<open>MOVE\<close> (lemma
  \<open>moveCommand_st\<close>) and \<open>PERSIST\<close> (theory Txn_Props) do not signal the keys they modify.
  \<open>SCAN\<close> is represented by the theory
  Dict_Scan; \<open>SHUTDOWN\<close> is not modelled.
\<close>

section \<open>The commands\<close>

text \<open>What a command needs to know of the system: whether saving the database succeeds.\<close>

record cmd_env =
  rdb_saved :: bool

definition flushdbCommand :: "nat \<Rightarrow> 'o server \<Rightarrow> 'o server option" where
  "flushdbCommand c s =
     (let j = cdb (clients s c);
          s = s\<lparr>dirty := dirty s + db_size j s\<rparr>;
          s = signalFlushedDb (int j) s;
          s = upd_db j (\<lambda>d. d\<lparr>ddict := Map.empty, dexpires := Map.empty\<rparr>) s
      in Some (addReply c (Raw shared_ok) s))"

text \<open>\<open>rdbSave\<close> is outside: when it succeeds it resets the counter of changes and records the time. The
  counter is kept in an \<open>int\<close> meanwhile.\<close>

definition rdbSave :: "cmd_env \<Rightarrow> 'o server \<Rightarrow> 'o server" where
  "rdbSave e s =
     (if rdb_saved e then s\<lparr>dirty := 0, lastsave := mstime s div 1000, lastbgsave_ok := True\<rparr> else s)"

definition flushallCommand :: "cmd_env \<Rightarrow> nat \<Rightarrow> 'o server \<Rightarrow> 'o server option" where
  "flushallCommand e c s =
     (let s = signalFlushedDb (- 1) s;
          (s, removed) = emptyDb s;
          s = s\<lparr>dirty := dirty s + removed\<rparr>;
          s = addReply c (Raw shared_ok) s;
          s = (if saveparamslen s > 0 then
                 let saved_dirty = s32 (dirty s); s = rdbSave e s in s\<lparr>dirty := saved_dirty\<rparr>
               else s)
      in Some (s\<lparr>dirty := dirty s + 1\<rparr>))"

fun del_loop :: "nat \<Rightarrow> bytes list \<Rightarrow> 'o server \<Rightarrow> int \<Rightarrow> ('o server \<times> int) option" where
  "del_loop j [] s deleted = Some (s, deleted)"
| "del_loop j (key # keys) s deleted =
     (let (s, gone) = dbDelete j key s in
      if gone then do {
        s \<leftarrow> notifyKeyspaceEvent REDIS_NOTIFY_GENERIC ''del'' key j (signalModifiedKey j key s);
        del_loop j keys (s\<lparr>dirty := dirty s + 1\<rparr>) (deleted + 1) }
      else del_loop j keys s deleted)"

definition delCommand :: "nat \<Rightarrow> 'o server \<Rightarrow> 'o server option" where
  "delCommand c s = do {
     (s, deleted) \<leftarrow> del_loop (cdb (clients s c)) (drop 1 (argv (clients s c))) s 0;
     Some (addReplyLongLong c deleted s) }"

definition existsCommand :: "nat \<Rightarrow> 'o server \<Rightarrow> 'o server option" where
  "existsCommand c s = do {
     let j = cdb (clients s c);
     key \<leftarrow> arg s c 1;
     (s, _) \<leftarrow> expireIfNeeded j key s;
     Some (if dbExists j key s then addReply c (Raw shared_cone) s
           else addReply c (Raw shared_czero) s) }"

definition selectCommand :: "nat \<Rightarrow> 'o server \<Rightarrow> 'o server option" where
  "selectCommand c s = do {
     a \<leftarrow> arg s c 1;
     Some (case getLongFromObjectOrReply c (Some (Raw a)) (Some ''invalid DB index'') s of
         (s, None) \<Rightarrow> s
       | (s, Some n) \<Rightarrow>
           let (s, ok) = selectDb c (s32 n) s in
           if \<not> ok then addReplyError c ''invalid DB index'' s else addReply c (Raw shared_ok) s) }"

text \<open>\<open>Inr\<close>: the loop goes on after the given picks.\<close>

definition randomkeyCommand :: "nat \<Rightarrow> bytes list \<Rightarrow> 'o server \<Rightarrow> ('o server + 'o server) option" where
  "randomkeyCommand c picks s = do {
     r \<leftarrow> dbRandomKey (cdb (clients s c)) picks s;
     Some (case r of
         Inr s \<Rightarrow> Inr s
       | Inl (s, None) \<Rightarrow> Inl (addReply c (Raw shared_nullbulk) s)
       | Inl (s, Some key) \<Rightarrow> Inl (addReplyBulk c (Raw key) s)) }"

text \<open>The iterator is safe, and the loop deletes only the entry it is at, so the keys it visits are
  those present at the beginning.\<close>

definition all_keys :: "bytes \<Rightarrow> bool" where
  "all_keys pat \<longleftrightarrow> pk pat 0 = ch CHR ''*'' \<and> pk pat 1 = 0"

fun keys_cmd_loop ::
  "nat \<Rightarrow> nat \<Rightarrow> bytes \<Rightarrow> bytes list \<Rightarrow> 'o server \<Rightarrow> int \<Rightarrow> ('o server \<times> int) option" where
  "keys_cmd_loop c j pat [] s numkeys = Some (s, numkeys)"
| "keys_cmd_loop c j pat (key # keys) s numkeys = do {
     m \<leftarrow> (if all_keys pat then Some True else sds_match pat key);
     if m then do {
       (s, gone) \<leftarrow> expireIfNeeded j key s;
       if \<not> gone then keys_cmd_loop c j pat keys (addReplyBulk c (Raw key) s) (numkeys + 1)
       else keys_cmd_loop c j pat keys s numkeys }
     else keys_cmd_loop c j pat keys s numkeys }"

definition keysCommand :: "nat \<Rightarrow> 'o server \<Rightarrow> 'o server option" where
  "keysCommand c s = do {
     let j = cdb (clients s c);
     pat \<leftarrow> arg s c 1;
     let (s, node) = addDeferred c s;
     (s, n) \<leftarrow> keys_cmd_loop c j pat (dict_order s (dom (ddict (dbs s j)))) s 0;
     Some (setDeferred c node n s) }"

definition dbsizeCommand :: "nat \<Rightarrow> 'o server \<Rightarrow> 'o server option" where
  "dbsizeCommand c s = Some (addReplyLongLong c (db_size (cdb (clients s c)) s) s)"

definition lastsaveCommand :: "nat \<Rightarrow> 'o server \<Rightarrow> 'o server option" where
  "lastsaveCommand c s = Some (addReplyLongLong c (lastsave s) s)"

definition type_name :: "rtype \<Rightarrow> string" where
  "type_name t = (case t of REDIS_STRING \<Rightarrow> ''string'' | REDIS_LIST \<Rightarrow> ''list''
     | REDIS_SET \<Rightarrow> ''set'' | REDIS_ZSET \<Rightarrow> ''zset'' | REDIS_HASH \<Rightarrow> ''hash'')"

definition typeCommand :: "nat \<Rightarrow> 'o server \<Rightarrow> 'o server option" where
  "typeCommand c s = do {
     key \<leftarrow> arg s c 1;
     (s, v) \<leftarrow> lookupKeyRead (cdb (clients s c)) key s;
     Some (addReplyStatus c (case v of None \<Rightarrow> ''none'' | Some v \<Rightarrow> type_name (rtype_of v)) s) }"

definition renameGenericCommand :: "nat \<Rightarrow> bool \<Rightarrow> 'o server \<Rightarrow> 'o server option" where
  "renameGenericCommand c nx s = do {
     let j = cdb (clients s c);
     src \<leftarrow> arg s c 1;
     dst \<leftarrow> arg s c 2;
     if src = dst then Some (addReply c (Raw shared_sameobjecterr) s)
     else do {
       (s, v) \<leftarrow> lookupKeyWriteOrReply c j src shared_nokeyerr s;
       case v of
         None \<Rightarrow> Some s
       | Some v \<Rightarrow> do {
           expire \<leftarrow> getExpire j src s;
           (s, old) \<leftarrow> lookupKeyWrite j dst s;
           if old \<noteq> None \<and> nx then Some (addReply c (Raw shared_czero) s)
           else do {
             let s = (if old \<noteq> None then fst (dbDelete j dst s) else s);
             s \<leftarrow> dbAdd j dst v s;
             s \<leftarrow> (if expire \<noteq> - 1 then setExpire j dst expire s else Some s);
             let s = signalModifiedKey j dst (signalModifiedKey j src (fst (dbDelete j src s)));
             s \<leftarrow> notifyKeyspaceEvent REDIS_NOTIFY_GENERIC ''rename_from'' src j s;
             s \<leftarrow> notifyKeyspaceEvent REDIS_NOTIFY_GENERIC ''rename_to'' dst j s;
             let s = s\<lparr>dirty := dirty s + 1\<rparr>;
             Some (addReply c (Raw (if nx then shared_cone else shared_ok)) s) } } } }"

definition renameCommand :: "nat \<Rightarrow> 'o server \<Rightarrow> 'o server option" where
  "renameCommand c = renameGenericCommand c False"

definition renamenxCommand :: "nat \<Rightarrow> 'o server \<Rightarrow> 'o server option" where
  "renamenxCommand c = renameGenericCommand c True"

definition moveCommand :: "nat \<Rightarrow> 'o server \<Rightarrow> 'o server option" where
  "moveCommand c s = do {
     let src = cdb (clients s c);
     key \<leftarrow> arg s c 1;
     a \<leftarrow> arg s c 2;
     let (s, ok) = selectDb c (atoi a) s;
     if \<not> ok then Some (addReply c (Raw shared_outofrangeerr) s)
     else do {
       let dst = cdb (clients s c);
       let (s, _) = selectDb c (int src) s;
       if src = dst then Some (addReply c (Raw shared_sameobjecterr) s)
       else do {
         (s, v) \<leftarrow> lookupKeyWrite src key s;
         case v of
           None \<Rightarrow> Some (addReply c (Raw shared_czero) s)
         | Some v \<Rightarrow> do {
             (s, old) \<leftarrow> lookupKeyWrite dst key s;
             if old \<noteq> None then Some (addReply c (Raw shared_czero) s)
             else do {
               s \<leftarrow> dbAdd dst key v s;
               let s = fst (dbDelete src key s);
               let s = s\<lparr>dirty := dirty s + 1\<rparr>;
               Some (addReply c (Raw shared_cone) s) } } } } }"

text \<open>Replacing the argument vector of the current command, for what is propagated
  (\<open>rewriteClientCommandVector\<close>); the command must exist.\<close>

definition rewriteClientCommandVector :: "nat \<Rightarrow> bytes list \<Rightarrow> 'o server \<Rightarrow> 'o server option" where
  "rewriteClientCommandVector c av s =
     (case lookupCommandOrOriginal (commands s) (orig_commands s) (hd av) of
        None \<Rightarrow> None
      | Some cm \<Rightarrow> Some (upd_client c (\<lambda>cl. cl\<lparr>argv := av, cmd := Some cm\<rparr>) s))"

definition expireGenericCommand :: "nat \<Rightarrow> int \<Rightarrow> time_unit \<Rightarrow> 'o server \<Rightarrow> 'o server option" where
  "expireGenericCommand c basetime unit s = do {
     let j = cdb (clients s c);
     key \<leftarrow> arg s c 1;
     param \<leftarrow> arg s c 2;
     case getLongLongFromObjectOrReply c (Some (Raw param)) None s of
       (s, None) \<Rightarrow> Some s
     | (s, Some when) \<Rightarrow> do {
         let when = (if unit = UNIT_SECONDS then s64 (when * 1000) else when);
         let when = s64 (when + basetime);
         (s, v) \<leftarrow> lookupKeyRead j key s;
         if v = None then Some (addReply c (Raw shared_czero) s)
         else if when \<le> mstime s \<and> \<not> loading s \<and> \<not> masterhost s then do {
           let (s, gone) = dbDelete j key s;
           if \<not> gone then None
           else do {
             let s = s\<lparr>dirty := dirty s + 1\<rparr>;
             s \<leftarrow> rewriteClientCommandVector c [cstr ''DEL'', key] s;
             s \<leftarrow> notifyKeyspaceEvent REDIS_NOTIFY_GENERIC ''del'' key j (signalModifiedKey j key s);
             Some (addReply c (Raw shared_cone) s) } }
         else do {
           s \<leftarrow> setExpire j key when s;
           let s = signalModifiedKey j key (addReply c (Raw shared_cone) s);
           s \<leftarrow> notifyKeyspaceEvent REDIS_NOTIFY_GENERIC ''expire'' key j s;
           Some (s\<lparr>dirty := dirty s + 1\<rparr>) } } }"

definition expireCommand :: "nat \<Rightarrow> 'o server \<Rightarrow> 'o server option" where
  "expireCommand c s = expireGenericCommand c (mstime s) UNIT_SECONDS s"

definition expireatCommand :: "nat \<Rightarrow> 'o server \<Rightarrow> 'o server option" where
  "expireatCommand c s = expireGenericCommand c 0 UNIT_SECONDS s"

definition pexpireCommand :: "nat \<Rightarrow> 'o server \<Rightarrow> 'o server option" where
  "pexpireCommand c s = expireGenericCommand c (mstime s) UNIT_MILLISECONDS s"

definition pexpireatCommand :: "nat \<Rightarrow> 'o server \<Rightarrow> 'o server option" where
  "pexpireatCommand c s = expireGenericCommand c 0 UNIT_MILLISECONDS s"

text \<open>The division of C rounds towards zero.\<close>

definition c_div :: "int \<Rightarrow> int \<Rightarrow> int" where
  "c_div a b = (if a < 0 then - (- a div b) else a div b)"

definition ttlGenericCommand :: "nat \<Rightarrow> bool \<Rightarrow> 'o server \<Rightarrow> 'o server option" where
  "ttlGenericCommand c output_ms s = do {
     let j = cdb (clients s c);
     key \<leftarrow> arg s c 1;
     (s, v) \<leftarrow> lookupKeyRead j key s;
     if v = None then Some (addReplyLongLong c (- 2) s)
     else do {
       expire \<leftarrow> getExpire j key s;
       let ttl = (if expire \<noteq> - 1 then max 0 (s64 (expire - mstime s)) else - 1);
       Some (if ttl = - 1 then addReplyLongLong c (- 1) s
             else addReplyLongLong c (if output_ms then ttl else c_div (s64 (ttl + 500)) 1000) s) } }"

definition ttlCommand :: "nat \<Rightarrow> 'o server \<Rightarrow> 'o server option" where
  "ttlCommand c = ttlGenericCommand c False"

definition pttlCommand :: "nat \<Rightarrow> 'o server \<Rightarrow> 'o server option" where
  "pttlCommand c = ttlGenericCommand c True"

definition persistCommand :: "nat \<Rightarrow> 'o server \<Rightarrow> 'o server option" where
  "persistCommand c s = do {
     let j = cdb (clients s c);
     key \<leftarrow> arg s c 1;
     if ddict (dbs s j) key = None then Some (addReply c (Raw shared_czero) s)
     else do {
       (s, removed) \<leftarrow> removeExpire j key s;
       Some (if removed then (addReply c (Raw shared_cone) s)\<lparr>dirty := dirty s + 1\<rparr>
             else addReply c (Raw shared_czero) s) } }"


section \<open>They signal and count what they change\<close>

lemma holds_good_trans:
  "holds m (good s) \<Longrightarrow> (\<And>s1. good s s1 \<Longrightarrow> holds (f s1) (good s1)) \<Longrightarrow> holds (m \<bind> f) (good s)"
  by (auto simp: holds_def) (metis good_trans)

lemma good_inv: "good s s' \<Longrightarrow> data_inv s'"
  by (simp add: good_def st_def)

lemma kv_absent: "data_inv s \<Longrightarrow> ddict (dbs s j) k = None \<Longrightarrow> kv s j k = (None, None)"
  using expires_present [of s j k] by (cases "dexpires (dbs s j) k") (auto simp: kv_def)

lemma db_upd_absent:
  assumes "data_inv s" and "ddict (dbs s j) k = None"
  shows "ro s (db_upd j k None None s)"
proof (rule ro_same [OF ro_refl [OF assms(1)]])
  show "kv (db_upd j k None None s) = kv s" using kv_absent [OF assms] by (simp add: fun_eq_iff)
qed (simp_all add: sti st_refl assms)

lemma del_one_good:
  assumes "data_inv s"
  shows "holds (do {
        s \<leftarrow> notifyKeyspaceEvent REDIS_NOTIFY_GENERIC ''del'' key j (signalModifiedKey j key (db_upd j key None None s));
        Some (s\<lparr>dirty := dirty s + 1\<rparr>) }) (good s)"
  by (intro wp) (assumption | rule sti st_refl assms good1 [where j = j and k = key] | (simp; fail))+

lemma del_loop_good:
  "data_inv s \<Longrightarrow> holds (del_loop j keys s n) (\<lambda>(s', m). good s s')"
proof (induction keys arbitrary: s n)
  case Nil
  then show ?case by (simp add: holds_def good_refl)
next
  case (Cons k ks)
  show ?case
  proof (cases "ddict (dbs s j) k")
    case None
    note r = db_upd_absent [OF Cons.prems None]
    show ?thesis
      using Cons.IH [OF st_inv [OF ro_st [OF r]], of n] good_trans [OF ro_good [OF r]]
      by (auto simp: dbDelete_eq None holds_def)
  next
    case (Some v)
    obtain s1 where s1: "notifyKeyspaceEvent REDIS_NOTIFY_GENERIC ''del'' k j
        (signalModifiedKey j k (db_upd j k None None s)) = Some s1" "good s (s1\<lparr>dirty := dirty s1 + 1\<rparr>)"
      using del_one_good [OF Cons.prems, of k j] by (auto simp: holds_def bind_eq_Some_conv)
    then show ?thesis
      using Cons.IH [OF good_inv [OF s1(2)], of "n + 1"] good_trans [OF s1(2)]
      by (auto simp: dbDelete_eq Some holds_def)
  qed
qed

lemma good_then_quiet: "good s s1 \<Longrightarrow> quiet s1 s2 \<Longrightarrow> good s s2"
  by (rule good_trans, assumption, rule good_quiet [OF good_inv])

lemma delCommand_good: "data_inv s \<Longrightarrow> holds (delCommand c s) (good s)"
  unfolding delCommand_def
  by (rule holds_bind, rule holds_mono [OF del_loop_good])
    (auto simp: holds_def intro: good_then_quiet quiet_replies)

lemma existsCommand_ro: "data_inv s \<Longrightarrow> args_ok s c 2 \<Longrightarrow> holds (existsCommand c s) (ro s)"
  unfolding existsCommand_def Let_def
  by (intro wp) (assumption | rule st_refl | (auto intro!: ro_quiet [OF ro_lookup [OF ro_refl]] quiet_addReply; fail))+

lemma typeCommand_ro: "data_inv s \<Longrightarrow> args_ok s c 2 \<Longrightarrow> holds (typeCommand c s) (ro s)"
  unfolding typeCommand_def
  by (intro wp) (assumption | rule st_refl | (auto intro!: ro_quiet [OF ro_lookup [OF ro_refl]] quiet_replies; fail))+

lemma ttlGeneric_ro: "data_inv s \<Longrightarrow> args_ok s c 2 \<Longrightarrow> holds (ttlGenericCommand c b s) (ro s)"
  unfolding ttlGenericCommand_def Let_def
  by (intro wp) (assumption | rule st_refl | (auto intro!: ro_quiet [OF ro_lookup [OF ro_refl]] quiet_replies; fail))+

lemma size_ro: "data_inv s \<Longrightarrow> holds (dbsizeCommand c s) (ro s)" "data_inv s \<Longrightarrow> holds (lastsaveCommand c s) (ro s)"
  by (auto simp: dbsizeCommand_def lastsaveCommand_def holds_def intro!: ro_quiet [OF ro_refl] quiet_replies)

lemma keys_cmd_loop_ro:
  "ro s0 s \<Longrightarrow> pat_safe pat \<Longrightarrow> holds (keys_cmd_loop c j pat keys s n) (\<lambda>(s', m). ro s0 s')"
proof (induction keys arbitrary: s n)
  case (Cons k ks)
  have m: "holds (if all_keys pat then Some True else sds_match pat k) (\<lambda>_. True)"
    using Cons.prems(2) by (auto simp: holds_def pat_safe_def)
  have e: "holds (expireIfNeeded j k s) (\<lambda>(s', _). ro s0 s')"
    by (rule expireIfNeeded_wp [OF ro_st [OF Cons.prems(1)]]) (auto intro: ro_lookup [OF Cons.prems(1)])
  show ?case
    unfolding keys_cmd_loop.simps
    by (rule holds_bind, rule holds_mono [OF m], rule holds_if, rule holds_bind, rule holds_mono [OF e])
      (auto intro!: Cons.IH Cons.prems elim: ro_quiet [OF _ quiet_replies(10)])
qed (simp add: holds_def)

lemma keysCommand_ro:
  assumes "data_inv s" and "args_ok s c 2" and "\<And>p. arg s c 1 = Some p \<Longrightarrow> pat_safe p"
  shows "holds (keysCommand c s) (ro s)"
proof -
  obtain p where p: "arg s c 1 = Some p" using arg_Some [OF assms(2), of 1] by auto
  obtain s1 node where d: "addDeferred c s = (s1, node)" by force
  note r = ro_quiet [OF ro_refl [OF assms(1)] quiet_deferred(1) [OF d]]
  show ?thesis
    unfolding keysCommand_def Let_def p bind.simps d prod.case
    by (rule holds_bind, rule holds_mono [OF keys_cmd_loop_ro [OF r assms(3) [OF p]]])
      (auto simp: holds_def intro: ro_quiet quiet_deferred(2))
qed


lemma db_upd_noop:
  assumes "data_inv s" and "ddict (dbs s j) k = None"
  shows "db_upd j k None None s = s"
proof -
  have "dexpires (dbs s j) k = None" using kv_absent [OF assms] by (simp add: kv_def)
  then have "(dbs s j)\<lparr>dexpires := (dexpires (dbs s j))(k := None), ddict := (ddict (dbs s j))(k := None)\<rparr> = dbs s j"
    using assms(2) by (simp add: fun_upd_idem)
  then show ?thesis by (simp add: db_upd_def upd_db_def)
qed

text \<open>Adding a key after the old one was deleted, if there was one.\<close>

lemma dbAdd_if_wp:
  assumes "st s0 s" and "ddict (dbs s j) k = old" and "val_ok v"
    and "\<And>s'. st s0 s' \<Longrightarrow> kv s' = kv_upd s j k (Some (rval v), None) \<Longrightarrow>
      ddict (dbs s' j) k = Some v \<Longrightarrow> dirty s' = dirty s \<Longrightarrow> touched s' = touched s \<Longrightarrow> Q s'"
  shows "holds (dbAdd j k v (if old \<noteq> None then db_upd j k None None s else s)) Q"
proof -
  have "(if old \<noteq> None then db_upd j k None None s else s) = db_upd j k None None s"
    using db_upd_noop [OF st_inv [OF assms(1)]] assms(2) by auto
  then show ?thesis
    by (simp only:) (rule dbAdd_wp [OF st_delete [OF assms(1)]], use assms(3,4) in auto)
qed

lemma good2:
  assumes "st s s'" and "\<And>j' k'. (j', k') \<noteq> (j1, k1) \<Longrightarrow> (j', k') \<noteq> (j2, k2) \<Longrightarrow> kv s' j' k' = kv s j' k'"
    and "kv s' j1 k1 = live s j1 k1 \<or> kv s' j1 k1 = kv s j1 k1 \<or> touched s' j1 k1 \<and> dirty s < dirty s'"
    and "kv s' j2 k2 = live s j2 k2 \<or> kv s' j2 k2 = kv s j2 k2 \<or> touched s' j2 k2 \<and> dirty s < dirty s'"
  shows "good s s'"
proof -
  have "touched s' j k \<and> dirty s < dirty s'" if "changed s s' j k" for j k
    using that assms(2) [of j k] assms(3,4) by (auto simp: changed_def)
  then show ?thesis using assms(1) by (simp add: good_def)
qed

lemma live_other:
  "st s s' \<Longrightarrow> kv s' = kv_upd s j k1 x \<Longrightarrow> k \<noteq> k1 \<Longrightarrow> live s' j k = live s j k"
  using live_frame(1) [OF st_srv_frame, of s s' j k] by simp

lemma renameGeneric_good:
  assumes "data_inv s" and "args_ok s c 3"
  shows "holds (renameGenericCommand c nx s) (good s)"
proof -
  obtain k1 where "arg s c 1 = Some k1" using arg_Some [OF assms(2), of 1] by auto
  note k1 = this this [unfolded One_nat_def]
  obtain k2 where k2: "arg s c 2 = Some k2" using arg_Some [OF assms(2), of 2] by auto
  show ?thesis
    unfolding renameGenericCommand_def Let_def k1 k2 bind.simps dbDelete_eq fst_conv
    apply (simp (no_asm) only: option.case prod.case | rule dbAdd_if_wp wp
      | assumption | rule sti st_refl assms good2 [where ?j1.0 = "cdb (clients s c)" and ?k1.0 = k1 and ?j2.0 = "cdb (clients s c)" and ?k2.0 = k2]
      | (simp add: live_other val_ok_present [OF st_inv]; fail) | (auto simp: live_other dest: val_ok_present [OF st_inv]; fail))+
    done
qed


text \<open>\<open>EXPIRE\<close> with a time in the past replaces the command to propagate; the effect is that of a command
  of a client that has the new argument vector.\<close>

definition with_argv :: "nat \<Rightarrow> bytes list \<Rightarrow> redisCommand option \<Rightarrow> 'o server \<Rightarrow> 'o server" where
  "with_argv c av cm = upd_client c (\<lambda>cl. cl\<lparr>argv := av, cmd := cm\<rparr>)"

definition del_cmd :: "'o server \<Rightarrow> redisCommand option" where
  "del_cmd s = lookupCommandOrOriginal (commands s) (orig_commands s) (cstr ''DEL'')"

definition good_argv :: "nat \<Rightarrow> 'o server \<Rightarrow> 'o server \<Rightarrow> bool" where
  "good_argv c s s' \<longleftrightarrow> good s s' \<or>
     (\<exists>a. a \<in> set (argv (clients s c)) \<and> good (with_argv c [cstr ''DEL'', a] (del_cmd s) s) s')"

lemma with_argv_fields [simp]:
  "dbs (with_argv c av cm s) = dbs s" "kv (with_argv c av cm s) = kv s"
  "dirty (with_argv c av cm s) = dirty s" "touched (with_argv c av cm s) = touched s"
  "masterhost (with_argv c av cm s) = masterhost s" "loading (with_argv c av cm s) = loading s"
  "mstime (with_argv c av cm s) = mstime s" "lua_caller (with_argv c av cm s) = lua_caller s"
  "lua_time_start (with_argv c av cm s) = lua_time_start s"
  "srv_patterns (with_argv c av cm s) = srv_patterns s"
  by (auto simp: with_argv_def upd_client_def kv_def touched_def watchers_def fun_eq_iff)

lemma with_argv_expired [simp]:
  "expired (with_argv c av cm s) = expired s" "live (with_argv c av cm s) = live s"
  by (auto simp: fun_eq_iff expired_def live_def expire_now_def)

lemma with_argv_inv [simp]: "data_inv (with_argv c av cm s) \<longleftrightarrow> data_inv s"
  by (simp add: data_inv_def)

lemma st_with_argv: "st s0 s \<Longrightarrow> st (with_argv c av cm s0) (with_argv c av cm s)"
  by (auto simp: st_def frm_def srv_frame_def client_frame_def with_argv_def upd_client_def data_inv_def)

lemma good_argvI: "good s s' \<Longrightarrow> good_argv c s s'"
  by (simp add: good_argv_def)

text \<open>The table the command was found in has \<open>DEL\<close>.\<close>

definition del_known :: "'o server \<Rightarrow> bool" where
  "del_known s \<longleftrightarrow> del_cmd s \<noteq> None"

lemma del_cmd_st: "st s s' \<Longrightarrow> del_cmd s' = del_cmd s"
  by (simp add: st_def frm_def srv_frame_def del_cmd_def)

lemma rewrite_wp [wp]:
  assumes "st s0 s" and "del_known s0"
    and "\<And>s'. st (with_argv c (cstr ''DEL'' # av) (del_cmd s0) s0) s' \<Longrightarrow> kv s' = kv s \<Longrightarrow> dirty s' = dirty s \<Longrightarrow>
      touched s' = touched s \<Longrightarrow> Q s'"
  shows "holds (rewriteClientCommandVector c (cstr ''DEL'' # av) s) Q"
proof -
  obtain cm where cm: "del_cmd s = Some cm" "del_cmd s0 = Some cm"
    using del_cmd_st [OF assms(1)] assms(2) by (auto simp: del_known_def)
  then have "rewriteClientCommandVector c (cstr ''DEL'' # av) s = Some (with_argv c (cstr ''DEL'' # av) (Some cm) s)"
    by (simp add: rewriteClientCommandVector_def del_cmd_def with_argv_def)
  then show ?thesis using assms(3) [OF st_with_argv [OF assms(1)]] cm by (simp add: holds_def)
qed

lemma expireGeneric_good:
  assumes "data_inv s" and "args_ok s c 3" and "del_known s"
  shows "holds (expireGenericCommand c b u s) (good_argv c s)"
proof -
  obtain k where "arg s c 1 = Some k" using arg_Some [OF assms(2), of 1] by auto
  note k = this this [unfolded One_nat_def]
  obtain a where a: "arg s c 2 = Some a" using arg_Some [OF assms(2), of 2] by auto
  have ka: "k \<in> set (argv (clients s c))" using k(1) by (auto simp: arg_def split: if_splits)
  have fin: "good_argv c s s'" if "st (with_argv c [cstr ''DEL'', k] (del_cmd s) s) s'"
    "\<And>j' k'. (j', k') \<noteq> (cdb (clients s c), k) \<Longrightarrow> kv s' j' k' = kv s j' k'"
    "touched s' (cdb (clients s c)) k" "dirty s < dirty s'" for s'
    unfolding good_argv_def
    by (rule disjI2, intro exI conjI, rule ka, rule good1 [OF that(1), where j = "cdb (clients s c)" and k = k]) (use that in auto)
  have plain: "good_argv c s s'" if "st s s'"
    "\<And>j' k'. (j', k') \<noteq> (cdb (clients s c), k) \<Longrightarrow> kv s' j' k' = kv s j' k'"
    "kv s' (cdb (clients s c)) k = live s (cdb (clients s c)) k \<or> kv s' (cdb (clients s c)) k = kv s (cdb (clients s c)) k \<or>
      touched s' (cdb (clients s c)) k \<and> dirty s < dirty s'" for s'
    by (rule good_argvI, rule good1 [OF that(1), where j = "cdb (clients s c)" and k = k]) (use that in auto)
  show ?thesis
    unfolding expireGenericCommand_def Let_def k a bind.simps dbDelete_eq
    apply (simp (no_asm) only: option.case prod.case list.sel | rule wp
      | assumption | rule sti st_refl assms | (rule fin, rule sti, assumption) | (rule plain)
      | (simp add: live_kv del_cmd_st assms; fail) )+
    done
qed


section \<open>Flushing\<close>

text \<open>The lists of watching clients and the lists of watched keys agree.\<close>

definition watch_inv :: "'o server \<Rightarrow> bool" where
  "watch_inv s \<longleftrightarrow>
     (\<forall>j k c. c \<in> set (watchers s j k) \<longleftrightarrow>
        c \<in> set (client_list s) \<and> (k, j) \<in> set (watched_keys (clients s c))) \<and>
     (\<forall>j k. distinct (watchers s j k) \<and> dwatched (dbs s j) k \<noteq> Some []) \<and>
     (\<forall>c. distinct (watched_keys (clients s c)))"

lemma watch_inv_frm: "frm s s' \<Longrightarrow> watch_inv s' = watch_inv s"
  by (simp add: watch_inv_def watchers_def frm_def srv_frame_def client_frame_def)

definition flush_hits :: "int \<Rightarrow> 'o server \<Rightarrow> nat \<Rightarrow> bool" where
  "flush_hits dbid s c \<longleftrightarrow>
     (\<exists>(k, j) \<in> set (watched_keys (clients s c)). (dbid = - 1 \<or> int j = dbid) \<and> ddict (dbs s j) k \<noteq> None)"

lemma touch_client_fold:
  "fold (\<lambda>(k, j) s. if (dbid = - 1 \<or> int j = dbid) \<and> ddict (dbs s j) k \<noteq> None
       then upd_client c (set_flag REDIS_DIRTY_CAS) s else s) ws s =
   (if \<exists>(k, j) \<in> set ws. (dbid = - 1 \<or> int j = dbid) \<and> ddict (dbs s j) k \<noteq> None
    then upd_client c (set_flag REDIS_DIRTY_CAS) s else s)"
proof (induction ws arbitrary: s)
  case (Cons w ws)
  have "upd_client c (set_flag REDIS_DIRTY_CAS) (upd_client c (set_flag REDIS_DIRTY_CAS) s) =
      upd_client c (set_flag REDIS_DIRTY_CAS) s"
    by (simp add: upd_client_def)
  moreover have "dbs (upd_client c (set_flag REDIS_DIRTY_CAS) s) = dbs s" by (simp add: upd_client_def)
  ultimately show ?case using Cons.IH by (cases w) auto
qed simp

lemma touch_client_eq:
  "touch_client dbid c s = (if flush_hits dbid s c then upd_client c (set_flag REDIS_DIRTY_CAS) s else s)"
  unfolding touch_client_def touch_client_fold flush_hits_def ..

lemma touch_flush_eq:
  "touchWatchedKeysOnFlush dbid s =
     s\<lparr>clients := \<lambda>c. if c \<in> set (client_list s) \<and> flush_hits dbid s c
       then set_flag REDIS_DIRTY_CAS (clients s c) else clients s c\<rparr>"
proof -
  have hits: "flush_hits dbid (s\<lparr>clients := f\<rparr>) c = flush_hits dbid s c"
    if "\<forall>c. watched_keys (f c) = watched_keys (clients s c)" for f c
    using that by (simp add: flush_hits_def)
  have "fold (touch_client dbid) cs (s\<lparr>clients := \<lambda>c. if c \<in> A \<and> flush_hits dbid s c
       then set_flag REDIS_DIRTY_CAS (clients s c) else clients s c\<rparr>) =
     s\<lparr>clients := \<lambda>c. if c \<in> A \<union> set cs \<and> flush_hits dbid s c
       then set_flag REDIS_DIRTY_CAS (clients s c) else clients s c\<rparr>" for cs A
  proof (induction cs arbitrary: A)
    case (Cons a cs)
    let ?f = "\<lambda>A c. if c \<in> A \<and> flush_hits dbid s c
       then set_flag REDIS_DIRTY_CAS (clients s c) else clients s c"
    have "touch_client dbid a (s\<lparr>clients := ?f A\<rparr>) = s\<lparr>clients := ?f (insert a A)\<rparr>"
      by (auto simp: touch_client_eq hits upd_client_def fun_eq_iff)
    then show ?case using Cons.IH [of "insert a A"] by simp
  qed simp
  from this [of "client_list s" "{}"] show ?thesis
    by (simp add: touchWatchedKeysOnFlush_def)
qed

lemma flush_signal:
  "dbs (signalFlushedDb dbid s) = dbs s" "dirty (signalFlushedDb dbid s) = dirty s"
  "dbnum (signalFlushedDb dbid s) = dbnum s"
  "frm s (signalFlushedDb dbid s)"
  by (auto simp: signalFlushedDb_def touch_flush_eq frm_def srv_frame_def client_frame_def)

lemma flush_touched:
  assumes "watch_inv s" and "ddict (dbs s j) k \<noteq> None" and "dbid = - 1 \<or> int j = dbid"
  shows "touched (signalFlushedDb dbid s) j k"
proof -
  have "c \<in> set (client_list s) \<and> flush_hits dbid s c" if "c \<in> set (watchers s j k)" for c
    using assms that by (force simp: watch_inv_def flush_hits_def)
  then show ?thesis
    by (auto simp: touched_def watchers_def signalFlushedDb_def touch_flush_eq)
qed

lemma st_signal_flush: "st s0 s \<Longrightarrow> st s0 (signalFlushedDb dbid s)"
  by (rule st_step, assumption, rule flush_signal)
    (auto simp: signalFlushedDb_def touch_flush_eq intro: data_inv_dbs dest: st_inv)

text \<open>Emptying the databases of a set.\<close>

definition emptied :: "nat set \<Rightarrow> 'o server \<Rightarrow> 'o server" where
  "emptied A s = s\<lparr>dbs := \<lambda>j. if j \<in> A then (dbs s j)\<lparr>ddict := Map.empty, dexpires := Map.empty\<rparr> else dbs s j\<rparr>"

lemma st_emptied: "st s0 s \<Longrightarrow> st s0 (emptied A s)"
  by (rule st_step) (auto simp: emptied_def frm_def srv_frame_def data_inv_def st_def)

lemma emptied_fields [simp]:
  "dirty (emptied A s) = dirty s" "touched (emptied A s) = touched s"
  "kv (emptied A s) j k = (if j \<in> A then (None, None) else kv s j k)"
  by (auto simp: emptied_def touched_def watchers_def kv_def fun_eq_iff)

lemma emptied_one:
  "upd_db j (\<lambda>d. d\<lparr>ddict := Map.empty, dexpires := Map.empty\<rparr>) s = emptied {j} s"
  by (auto simp: emptied_def upd_db_def fun_eq_iff)

lemma db_size_pos: "data_inv s \<Longrightarrow> ddict (dbs s j) k \<noteq> None \<Longrightarrow> 0 < db_size j s"
  by (auto simp: db_size_def data_inv_def card_gt_0_iff)

lemma flushdb_good:
  assumes "data_inv s" and "watch_inv s"
  shows "holds (flushdbCommand c s) (good s)"
proof -
  define j where "j = cdb (clients s c)"
  define s1 where "s1 = s\<lparr>dirty := dirty s + db_size j s\<rparr>"
  have s1: "st s s1" unfolding s1_def by (rule st_upd(2) [OF st_refl [OF assms(1)]]) (simp add: db_size_def)
  have w1: "watch_inv s1" using assms(2) watch_inv_frm s1 by (auto simp: st_def)
  define s2 where "s2 = emptied {j} (signalFlushedDb (int j) s1)"
  have s2: "st s s2" unfolding s2_def by (intro st_emptied st_signal_flush s1)
  have kv2: "kv s2 j' k = (if j' = j then (None, None) else kv s j' k)" for j' k
    by (simp add: s2_def s1_def kv_dbs [OF flush_signal(1)])
  have "good s s2"
    unfolding good_def
  proof (intro conjI s2 allI impI)
    fix j' k assume ch: "changed s s2 j' k"
    then have "j' = j" "kv s j k \<noteq> (None, None)" by (auto simp: changed_def kv2 split: if_splits)
    then have p: "j' = j" "ddict (dbs s j) k \<noteq> None" using kv_absent [OF assms(1)] by auto
    have "touched (signalFlushedDb (int j) s1) j k"
      by (rule flush_touched [OF w1]) (use p in \<open>auto simp: s1_def\<close>)
    then show "touched s2 j' k" using p by (simp add: s2_def)
    show "dirty s < dirty s2"
      using db_size_pos [OF assms(1) p(2)] by (simp add: s2_def s1_def flush_signal)
  qed
  moreover have "flushdbCommand c s = Some (addReply c (Raw shared_ok) s2)"
    by (simp add: flushdbCommand_def Let_def s2_def s1_def j_def emptied_one)
  ultimately show ?thesis by (auto simp: holds_def intro: good_then_quiet quiet_addReply)
qed


lemma emptied_twice: "emptied A (emptied B s) = emptied (A \<union> B) s"
  by (auto simp: emptied_def fun_eq_iff)

lemma emptyDb_loop_eq:
  "n \<le> dbnum s \<Longrightarrow> emptyDb_loop n s r =
     (emptied {dbnum s - n..<dbnum s} s, r + (\<Sum>j = dbnum s - n..<dbnum s. db_size j s))"
proof (induction n arbitrary: s r)
  case 0
  then show ?case by (simp add: emptied_def)
next
  case (Suc n)
  let ?j = "dbnum s - Suc n" and ?s = "emptied {dbnum s - Suc n} s"
  have d: "dbnum ?s = dbnum s" by (simp add: emptied_def)
  have r: "{?j..<dbnum s} = insert ?j {dbnum s - n..<dbnum s}" "?j \<notin> {dbnum s - n..<dbnum s}"
    using Suc.prems by auto
  have "(\<Sum>j = dbnum s - n..<dbnum s. db_size j ?s) = (\<Sum>j = dbnum s - n..<dbnum s. db_size j s)"
    using Suc.prems by (intro sum.cong) (auto simp: db_size_def emptied_def)
  then show ?case
    using Suc.IH [of ?s "r + db_size ?j s"] Suc.prems r
    by (simp add: emptied_one emptied_twice d Let_def)
qed

lemma emptyDb_eq:
  "emptyDb s = (emptied {..<dbnum s} s, \<Sum>j<dbnum s. db_size j s)"
  by (simp add: emptyDb_def emptyDb_loop_eq atLeast0LessThan)

lemma flushall_good:
  assumes "data_inv (s :: 'a server)" and "watch_inv s" and "0 \<le> dirty s"
    and "saveparamslen s = 0 \<or> dirty s + (\<Sum>j<dbnum s. db_size j s) < 2 ^ 31"
  shows "holds (flushallCommand e c s) (good s)"
proof -
  define n where "n = (\<Sum>j<dbnum s. db_size j s)"
  have n: "0 \<le> n" by (simp add: n_def db_size_def sum_nonneg)
  define s1 where "s1 = signalFlushedDb (- 1) s"
  have s1: "st s s1" unfolding s1_def by (intro st_signal_flush st_refl assms(1))
  have sz: "db_size j s1 = db_size j s" for j by (simp add: s1_def db_size_def flush_signal)
  define s2 where "s2 = (addReply c (Raw shared_ok) (emptied {..<dbnum s} s1))\<lparr>dirty := dirty s + n + 1\<rparr>"
  have d1: "dirty s1 = dirty s" "dbnum s1 = dbnum s" "kv s1 = kv s"
    by (simp_all add: s1_def flush_signal kv_dbs [OF flush_signal(1)])
  have "st s (addReply c (Raw shared_ok) (emptied {..<dbnum s} s1))"
    by (intro sti st_emptied s1)
  from st_upd(2) [OF this, of "n + 1"] have s2: "st s s2" using n by (simp add: s2_def d1 add.assoc)
  have g: "good s s2"
    unfolding good_def
  proof (intro conjI s2 allI impI)
    fix j k assume ch: "changed s s2 j k"
    then have "kv s j k \<noteq> (None, None)"
      by (auto simp: changed_def s2_def d1 split: if_splits)
    then have "ddict (dbs s j) k \<noteq> None" using kv_absent [OF assms(1)] by auto
    then have "touched s1 j k" unfolding s1_def by (intro flush_touched [OF assms(2)]) auto
    then show "touched s2 j k" by (simp add: s2_def)
    show "dirty s < dirty s2" using n by (simp add: s2_def)
  qed
  have s32: "saveparamslen s = 0 \<or> s32 (dirty s + n) = dirty s + n"
    using assms(3,4) n by (auto simp: n_def intro: s32_id)
  have sp: "saveparamslen (addReply c r x) = saveparamslen x" "saveparamslen (emptied A x) = saveparamslen x"
      "saveparamslen s1 = saveparamslen s" "addReply c r (x\<lparr>dirty := m\<rparr>) = (addReply c r x)\<lparr>dirty := m\<rparr>"
    for r A m and x :: "'a server"
    by (simp_all add: addReply_def put_out_def emptied_def s1_def signalFlushedDb_def touch_flush_eq)
  obtain s' where s': "flushallCommand e c s = Some s'"
    "s' = s2 \<or> s' = s2\<lparr>lastsave := mstime s2 div 1000, lastbgsave_ok := True\<rparr>"
    using s32 n by (auto simp: flushallCommand_def Let_def s1_def [symmetric] emptyDb_eq d1 sz n_def [symmetric]
        sp s2_def rdbSave_def)
  have "st s2 (s2\<lparr>lastsave := x, lastbgsave_ok := True\<rparr>)" for x
    by (rule st_step [OF st_refl [OF good_inv [OF g]]])
      (auto simp: frm_def srv_frame_def intro: data_inv_dbs [OF good_inv [OF g]])
  then have "good s2 (s2\<lparr>lastsave := x, lastbgsave_ok := True\<rparr>)" for x
    by (intro ro_good ro_same [OF ro_refl [OF good_inv [OF g]]]) (auto intro: touched_same kv_dbs)
  with g s' show ?thesis by (auto simp: holds_def intro: good_trans)
qed


section \<open>Commands that do not signal\<close>

lemma select_st:
  "st s0 s \<Longrightarrow> selectDb c (int (cdb (clients s c))) s = (s, cdb (clients s c) < dbnum s)"
  by (auto simp: selectDb_def upd_client_def)

lemma move_select:
  assumes "selectDb c n s = (s1, True)" and "cdb (clients s c) < dbnum s"
  shows "selectDb c (int (cdb (clients s c))) s1 = (s, True)" "cdb (clients s1 c) < dbnum s"
    "n = int (cdb (clients s1 c))"
  using assms by (auto simp: selectDb_def upd_client_def fun_upd_idem split: if_splits)

text \<open>Lookups leave the flag of every client that watches a key as it was, so a program whose touched
  keys are those of the beginning has signalled nothing.\<close>

lemma moveCommand_st:
  assumes "data_inv s" and "args_ok s c 3" and "cdb (clients s c) < dbnum s"
  shows "holds (moveCommand c s) (\<lambda>s'. st s s' \<and> touched s' = touched s)"
proof -
  obtain k where "arg s c 1 = Some k" using arg_Some [OF assms(2), of 1] by auto
  note k = this this [unfolded One_nat_def]
  obtain a where a: "arg s c 2 = Some a" using arg_Some [OF assms(2), of 2] by auto
  obtain s1 ok where sel: "selectDb c (atoi a) s = (s1, ok)" by force
  show ?thesis
  proof (cases ok)
    case False
    then have "s1 = s" using sel by (auto simp: selectDb_def split: if_splits)
    then show ?thesis
      using False sel st_refl [OF assms(1)]
      by (simp add: moveCommand_def k a holds_def sti)
  next
    case True
    have sel': "selectDb c (atoi a) s = (s1, True)" using sel True by simp
    note m = move_select [OF sel' assms(3)]
    show ?thesis
      unfolding moveCommand_def Let_def k a bind.simps sel' prod.case m(1) dbDelete_eq fst_conv
      apply (simp (no_asm) only: option.case prod.case not_True_eq_False if_False | rule wp conjI
        | assumption | rule sti st_refl assms(1) | (simp; fail) | (auto simp: live_other dest: val_ok_present [OF st_inv]; fail))+
      done
  qed
qed

end
