(* ===== verification/Reply_Rules.thy ===== *)
theory Reply_Rules
  imports Db_Cmd
begin

text \<open>
  What clients receive. \<open>outp s c\<close> is what client \<open>c\<close> has still to receive; a client that is
  \<open>ready\<close> takes every reply. With keyspace notifications off (the default) only replies write to
  clients: \<open>osame\<close> says that a step left all outputs alone.
\<close>

definition outp :: "'o server \<Rightarrow> nat \<Rightarrow> bytes" where
  "outp s c = client_out (clients s c)"

definition ready :: "'o server \<Rightarrow> nat \<Rightarrow> bool" where
  "ready s c \<longleftrightarrow> out_ready (clients s c)"

text \<open>A bulk reply and an integer reply of the protocol.\<close>

definition bulk :: "bytes \<Rightarrow> bytes" where
  "bulk t = ch CHR ''$'' # ll_repr (int (length t)) @ crlf @ t @ crlf"

definition int_reply :: "int \<Rightarrow> bytes" where
  "int_reply n = ch CHR '':'' # ll_repr n @ crlf"

lemma addReplyStr_out:
  assumes "ready s c"
  shows "outp (addReplyStr c t s) c = outp s c @ t" "ready (addReplyStr c t s) c"
  using assms addReplyString_out [of "clients s c" "oenv s" t] addReplyString_ready [of "clients s c"]
  by (auto simp: addReplyStr_def put_out_def outp_def ready_def out_ready_def)

lemma addReply_out:
  assumes "ready s c"
  shows "outp (addReply c obj s) c = outp s c @ getDecodedObject obj" "ready (addReply c obj s) c"
  using addReplyStr_out [OF assms, of "getDecodedObject obj"]
  by (simp_all add: addReply_def addReplyStr_def addReplyObj_alt)

lemma decoded_Raw [simp]: "getDecodedObject (Raw t) = t"
  and decoded_Int [simp]: "getDecodedObject (IntEnc n) = ll_repr n"
  by (simp_all add: getDecodedObject_def)

lemma longlong_prefix_out:
  assumes "ready s c"
  shows "outp (addReplyLongLongWithPrefix c n p s) c = outp s c @ len_hdr p n"
    "ready (addReplyLongLongWithPrefix c n p s) c"
  using addReply_out [OF assms] addReplyStr_out [OF assms] by (simp_all add: addReplyLongLongWithPrefix_def)

lemma ll_repr_01: "ll_repr 0 = cstr ''0''" "ll_repr 1 = cstr ''1''"
  by (simp_all add: ll_repr_def dec_repr.simps)

lemma addReplyLongLong_out:
  assumes "ready s c"
  shows "outp (addReplyLongLong c n s) c = outp s c @ int_reply n" "ready (addReplyLongLong c n s) c"
  using addReply_out [OF assms] longlong_prefix_out [OF assms]
  by (simp_all add: addReplyLongLong_def int_reply_def len_hdr_def shared_czero_def shared_cone_def ll_repr_01)

lemma digits_loop_eq: "digits_loop n l = length (dec_repr n) + l - 1"
proof (induction n l rule: digits_loop.induct)
  case (1 n l)
  have d: "length (dec_repr n) = (if n < 10 then 1 else Suc (length (dec_repr (n div 10))))"
    by (subst dec_repr.simps) simp
  show ?case
  proof (cases "n div 10 = 0")
    case True
    then show ?thesis using d by (simp add: digits_loop.simps [of n l])
  next
    case False
    then have "\<not> n < 10" by auto
    then show ?thesis using 1 False d by (simp add: digits_loop.simps [of n l])
  qed
qed

lemma bulk_len:
  "(case obj of Raw t \<Rightarrow> int (length t)
      | IntEnc n \<Rightarrow> int (digits_loop (nat \<bar>n\<bar>) (if n < 0 then 2 else 1))) =
   int (length (getDecodedObject obj))"
  by (cases obj) (auto simp: digits_loop_eq ll_repr_def)

lemma addReplyBulkLen_out:
  assumes "ready s c"
  shows "outp (addReplyBulkLen c obj s) c = outp s c @ len_hdr CHR ''$'' (int (length (getDecodedObject obj)))"
    "ready (addReplyBulkLen c obj s) c"
  unfolding addReplyBulkLen_def bulk_len Let_def
  using addReply_out [OF assms] longlong_prefix_out [OF assms] by simp_all

lemma addReplyBulk_out:
  assumes "ready s c"
  shows "outp (addReplyBulk c obj s) c = outp s c @ bulk (getDecodedObject obj)" "ready (addReplyBulk c obj s) c"
proof -
  note 1 = addReplyBulkLen_out [OF assms, of obj]
  note 2 = addReply_out [OF 1(2), of obj]
  note 3 = addReply_out [OF 2(2), of "Raw crlf"]
  show "outp (addReplyBulk c obj s) c = outp s c @ bulk (getDecodedObject obj)" "ready (addReplyBulk c obj s) c"
    using 3 by (simp_all add: addReplyBulk_def bulk_def len_hdr_def 1 2)
qed

section \<open>Steps that write to no client\<close>

definition osame :: "'o server \<Rightarrow> 'o server \<Rightarrow> bool" where
  "osame s s' \<longleftrightarrow> notify_keyspace_events s' = notify_keyspace_events s \<and>
     (\<forall>c. outp s' c = outp s c \<and> (ready s c \<longrightarrow> ready s' c) \<and> cdb (clients s' c) = cdb (clients s c) \<and>
       argv (clients s' c) = argv (clients s c))"

lemma osame_refl [simp]: "osame s s"
  by (simp add: osame_def)

lemma osame_trans: "osame a b \<Longrightarrow> osame b c \<Longrightarrow> osame a c"
  by (simp add: osame_def)

lemma osame_clients:
  "clients s' = clients s \<Longrightarrow> notify_keyspace_events s' = notify_keyspace_events s \<Longrightarrow> osame s s'"
  by (simp add: osame_def outp_def ready_def)

lemma flag_out:
  "client_out (set_flag REDIS_DIRTY_CAS c) = client_out c"
  "out_ready (set_flag REDIS_DIRTY_CAS c) \<longleftrightarrow> out_ready c"
  by (simp_all add: client_out_def out_ready_def out_wf_def accepts_def prepareClientToWrite_def)

lemma osame_signal: "osame s (signalModifiedKey j k s)"
  by (auto simp: signal_eq osame_def outp_def ready_def flag_out)

lemma osame_notify:
  "notify_keyspace_events s = {} \<Longrightarrow> notifyKeyspaceEvent t e k j s = Some s"
  by (simp add: notifyKeyspaceEvent_def)

lemma propagateExpire_clients:
  assumes "propagateExpire j k s = Some s'"
  shows "clients s' = clients s \<and> notify_keyspace_events s' = notify_keyspace_events s"
proof (cases "aof_state s = REDIS_AOF_OFF")
  case True
  then show ?thesis using assms by (auto simp: propagateExpire_def Let_def)
next
  case False
  then obtain s1 where s1: "feedAppendOnlyFile server_delCommand j [cstr ''DEL'', k] s = Some s1"
    "s' = s1\<lparr>repl_log := repl_log s1 @ [(j, [cstr ''DEL'', k])]\<rparr>"
    using assms by (auto simp: propagateExpire_def Let_def bind_eq_Some_conv)
  show ?thesis by (rule feed_fields [OF s1(1)]) (simp add: s1(2))
qed

lemma osame_expire:
  assumes "notify_keyspace_events s = {}" and "expireIfNeeded j k s = Some (s', b)"
  shows "clients s' = clients s" "notify_keyspace_events s' = {}"
proof -
  obtain t where t: "getExpire j k s = Some t" using assms(2) by (auto simp: expireIfNeeded_def bind_eq_Some_conv)
  let ?s = "s\<lparr>stat_expiredkeys := stat_expiredkeys s + 1\<rparr>"
  have "s' = s \<or> (\<exists>s1. propagateExpire j k ?s = Some s1 \<and>
      notifyKeyspaceEvent REDIS_NOTIFY_EXPIRED ''expired'' k j s1 \<bind> (\<lambda>s. Some (dbDelete j k s)) = Some (s', b))"
    using assms(2) unfolding expireIfNeeded_def t bind.simps Let_def
    by (auto simp: bind_eq_Some_conv split: if_splits)
  then have "clients s' = clients s \<and> notify_keyspace_events s' = {}"
  proof
    assume "\<exists>s1. propagateExpire j k ?s = Some s1 \<and>
      notifyKeyspaceEvent REDIS_NOTIFY_EXPIRED ''expired'' k j s1 \<bind> (\<lambda>s. Some (dbDelete j k s)) = Some (s', b)"
    then obtain s1 where s1: "propagateExpire j k ?s = Some s1"
      "notifyKeyspaceEvent REDIS_NOTIFY_EXPIRED ''expired'' k j s1 \<bind> (\<lambda>s. Some (dbDelete j k s)) = Some (s', b)" by blast
    note p = propagateExpire_clients [OF s1(1)]
    have "s' = fst (dbDelete j k s1)" using s1(2) osame_notify [of s1] p assms(1) by simp
    then show ?thesis using p assms(1) by (simp add: dbDelete_def upd_db_def)
  qed (use assms(1) in simp)
  then show "clients s' = clients s" "notify_keyspace_events s' = {}" by simp_all
qed

lemma osame_lookupKey:
  "lookupKey j k s = (s', v) \<Longrightarrow> clients s' = clients s \<and> notify_keyspace_events s' = notify_keyspace_events s"
  by (auto simp: lookupKey_def upd_db_def Let_def split: option.splits)

lemma osame_lookup:
  assumes "notify_keyspace_events s = {}"
  shows "lookupKeyWrite j k s = Some (s', v) \<Longrightarrow> clients s' = clients s \<and> notify_keyspace_events s' = {}"
    "lookupKeyRead j k s = Some (s', v) \<Longrightarrow> clients s' = clients s \<and> notify_keyspace_events s' = {}"
proof -
  have *: "clients s2 = clients s \<and> notify_keyspace_events s2 = {}"
    if "expireIfNeeded j k s = Some (s1, b)" "lookupKey j k s1 = (s2, v)" for s1 s2 b v
    using osame_expire [OF assms that(1)] osame_lookupKey [OF that(2)] by simp
  show "clients s' = clients s \<and> notify_keyspace_events s' = {}" if r: "lookupKeyWrite j k s = Some (s', v)"
  proof -
    obtain s1 b where "expireIfNeeded j k s = Some (s1, b)" "lookupKey j k s1 = (s', v)"
      using r by (auto simp: lookupKeyWrite_def bind_eq_Some_conv)
    then show ?thesis by (rule *)
  qed
  show "clients s' = clients s \<and> notify_keyspace_events s' = {}" if r: "lookupKeyRead j k s = Some (s', v)"
  proof -
    obtain s1 b where e: "expireIfNeeded j k s = Some (s1, b)"
      using r by (auto simp: lookupKeyRead_def bind_eq_Some_conv)
    obtain s2 v2 where l: "lookupKey j k s1 = (s2, v2)" by force
    have "clients s' = clients s2 \<and> notify_keyspace_events s' = notify_keyspace_events s2"
      using r by (auto simp: lookupKeyRead_def e l split: if_splits)
    then show ?thesis using * [OF e l] by simp
  qed
qed

lemma osame_db:
  "dbAdd j k v s = Some s' \<Longrightarrow> clients s' = clients s \<and> notify_keyspace_events s' = notify_keyspace_events s"
  "dbOverwrite j k v s = Some s' \<Longrightarrow> clients s' = clients s \<and> notify_keyspace_events s' = notify_keyspace_events s"
  "setExpire j k t s = Some s' \<Longrightarrow> clients s' = clients s \<and> notify_keyspace_events s' = notify_keyspace_events s"
  "removeExpire j k s = Some (s', b) \<Longrightarrow> clients s' = clients s \<and> notify_keyspace_events s' = notify_keyspace_events s"
  by (auto simp: dbAdd_def dbOverwrite_def setExpire_def removeExpire_def upd_db_def split: if_splits)

lemma osame_setKey:
  assumes "notify_keyspace_events s = {}" and "setKey j k v s = Some s'"
  shows "osame s s'"
proof -
  obtain s1 old s2 s3 b where s: "lookupKeyWrite j k s = Some (s1, old)"
    "(if old = None then dbAdd j k v s1 else dbOverwrite j k v s1) = Some s2"
    "removeExpire j k s2 = Some (s3, b)" "s' = signalModifiedKey j k s3"
    using assms(2) by (auto simp: setKey_def bind_eq_Some_conv)
  have "clients s3 = clients s \<and> notify_keyspace_events s3 = {}"
    using osame_lookup(1) [OF assms(1) s(1)] osame_db(4) [OF s(3)] s(2)
    by (auto dest!: osame_db(1,2) split: if_splits)
  then show ?thesis using s(4) assms(1) osame_signal osame_trans osame_clients by metis
qed

end
