(* ===== verification/Cmd_Props.thy ===== *)
theory Cmd_Props
  imports Reply_Rules
begin

text \<open>
  What the commands on strings and keys do, as seen by a client: \<open>SET\<close> and \<open>GET\<close>, \<open>INCR\<close>, and the cases
  in which 64 bit arithmetic, truncation or a missing signal make a command do something else than it
  is documented to do.
\<close>

lemma holds_obtain: "holds m Q \<Longrightarrow> \<exists>x. m = Some x \<and> Q x"
  by (simp add: holds_def)

text \<open>A lookup of a key that has not expired.\<close>

lemma lookup_live:
  assumes "data_inv s" and "notify_keyspace_events s = {}" and "\<not> expired s j k"
    and "ddict (dbs s j) k = Some v"
  shows "\<exists>s' v'. lookupKeyReadOrReply c j k r s = Some (s', Some v') \<and> rval v' = rval v \<and> ro s s' \<and>
       clients s' = clients s \<and> notify_keyspace_events s' = {} \<and> kv s' = kv s \<and> ddict (dbs s' j) k = Some v'"
    and "\<exists>s' v'. lookupKeyWrite j k s = Some (s', Some v') \<and> rval v' = rval v \<and> ro s s' \<and>
       clients s' = clients s \<and> notify_keyspace_events s' = {} \<and> kv s' = kv s \<and> ddict (dbs s' j) k = Some v'"
proof -
  have live: "live s j k = kv s j k" using assms(3) by (simp add: live_def)
  have val: "\<exists>v'. w = Some v' \<and> rval v' = rval v" if "kv s' = kv_upd s j k (live s j k)" "ddict (dbs s' j) k = w" for s' w
  proof -
    have "map_option rval w = Some (rval v)"
      using that(2) arg_cong [OF that(1), of "\<lambda>f. fst (f j k)"] assms(4) by (simp add: live kv_def)
    then show ?thesis by auto
  qed
  have "holds (lookupKeyRead j k s) (\<lambda>(s', w). ro s s' \<and> kv s' = kv_upd s j k (live s j k) \<and> ddict (dbs s' j) k = w)"
    by (rule lookupKeyRead_wp [OF st_refl [OF assms(1)]]) (auto intro: ro_lookup [OF ro_refl [OF assms(1)]])
  then obtain s1 w where r: "lookupKeyRead j k s = Some (s1, w)" "ro s s1" "kv s1 = kv_upd s j k (live s j k)"
    "ddict (dbs s1 j) k = w" by (auto simp: holds_def)
  then show "\<exists>s' v'. lookupKeyReadOrReply c j k r s = Some (s', Some v') \<and> rval v' = rval v \<and> ro s s' \<and>
       clients s' = clients s \<and> notify_keyspace_events s' = {} \<and> kv s' = kv s \<and> ddict (dbs s' j) k = Some v'"
    using val [OF r(3,4)] osame_lookup(2) [OF assms(2) r(1)] by (auto simp: lookupKeyReadOrReply_def live)
  have "holds (lookupKeyWrite j k s) (\<lambda>(s', w). ro s s' \<and> kv s' = kv_upd s j k (live s j k) \<and> ddict (dbs s' j) k = w)"
    by (rule lookupKeyWrite_wp [OF st_refl [OF assms(1)]]) (auto intro: ro_lookup [OF ro_refl [OF assms(1)]])
  then obtain s2 w2 where w: "lookupKeyWrite j k s = Some (s2, w2)" "ro s s2" "kv s2 = kv_upd s j k (live s j k)"
    "ddict (dbs s2 j) k = w2" by (auto simp: holds_def)
  then show "\<exists>s' v'. lookupKeyWrite j k s = Some (s', Some v') \<and> rval v' = rval v \<and> ro s s' \<and>
       clients s' = clients s \<and> notify_keyspace_events s' = {} \<and> kv s' = kv s \<and> ddict (dbs s' j) k = Some v'"
    using val [OF w(3,4)] osame_lookup(1) [OF assms(2) w(1)] by (auto simp: live)
qed

lemma arg_list: "argv (clients s c) = l \<Longrightarrow> i < length l \<Longrightarrow> arg s c i = Some (l ! i)"
  by (simp add: arg_def)

text \<open>\<open>GET\<close> of a key that holds a string.\<close>

lemma getCommand_out:
  assumes "data_inv s" and "notify_keyspace_events s = {}" and "ready s c"
    and "argv (clients s c) = [g, k]" and "\<not> expired s (cdb (clients s c)) k"
    and "ddict (dbs s (cdb (clients s c))) k = Some v" and "rval v = VString t"
  shows "\<exists>s'. getCommand c s = Some s' \<and> outp s' c = outp s c @ bulk (getDecodedObject t)"
proof -
  obtain s1 v' where l: "lookupKeyReadOrReply c (cdb (clients s c)) k shared_nullbulk s = Some (s1, Some v')"
    "rval v' = rval v" "clients s1 = clients s"
    using lookup_live(1) [OF assms(1,2,5,6)] by blast
  have "ready s1 c" using assms(3) l(3) by (simp add: ready_def)
  then show ?thesis
    using addReplyBulk_out(1) [of s1 c t] arg_list [OF assms(4), of 1] l assms(7)
    by (simp add: getCommand_def getGenericCommand_def outp_def)
qed

text \<open>C12: a value that was set is read back as it was: for every key and every value, after \<open>SET\<close> by a
  client, \<open>GET\<close> of the same key sends the client exactly the bytes of the value, whatever was stored
  under the key before and however the value is encoded.\<close>

theorem set_then_get:
  assumes "data_inv s" and "notify_keyspace_events s = {}" and "ready s c"
    and "argv (clients s c) = [n, k, v]" and "length n \<le> PROTO_MAX" and "length k \<le> PROTO_MAX"
    and "length v \<le> PROTO_MAX"
  shows "\<exists>s1 s2. setCommand c s = Some s1 \<and> outp s1 c = outp s c @ shared_ok \<and>
     getCommand c (upd_client c (\<lambda>cl. cl\<lparr>argv := [g, k]\<rparr>) s1) = Some s2 \<and>
     outp s2 c = outp s c @ shared_ok @ bulk v"
proof -
  define j where "j = cdb (clients s c)"
  define x where "x = createObject s (VString (tryObjectEncoding False (Raw v)))"
  have x: "val_ok x" "rval x = VString (tryObjectEncoding False (Raw v))"
    using assms(7) by (simp_all add: x_def)
  have "holds (setKey j k x s) (\<lambda>s'. st s s' \<and> kv s' = kv_upd s j k (Some (rval x), None) \<and> ddict (dbs s' j) k = Some x)"
    by (rule setKey_wp [OF st_refl [OF assms(1)] x(1)]) auto
  then obtain s0 where s0: "setKey j k x s = Some s0" "st s s0" "kv s0 = kv_upd s j k (Some (rval x), None)"
    "ddict (dbs s0 j) k = Some x" by (auto simp: holds_def)
  note o = osame_setKey [OF assms(2) s0(1)]
  define s1 where "s1 = addReply c (Raw shared_ok) (s0\<lparr>dirty := dirty s0 + 1\<rparr>)"
  have n0: "notify_keyspace_events s0 = {}" using o assms(2) by (simp add: osame_def)
  have set: "setCommand c s = Some s1"
    using assms(4) s0(1) n0
    by (simp add: setCommand_def arg_def setGenericCommand_def set_expire_arg_def set_aborted_def Let_def
        j_def [symmetric] x_def [symmetric] notifyKeyspaceEvent_def s1_def)
  have r0: "ready (s0\<lparr>dirty := dirty s0 + 1\<rparr>) c" using o assms(3) by (simp add: osame_def ready_def)
  have o1: "outp s1 c = outp s c @ shared_ok" "ready s1 c"
    using addReply_out [OF r0, of "Raw shared_ok"] o by (simp_all add: s1_def osame_def outp_def)
  have q: "st s s1" "kv s1 = kv s0" "dbs s1 = dbs s0"
    unfolding s1_def using s0(2) by (simp_all add: sti)
  define s2 where "s2 = upd_client c (\<lambda>cl. cl\<lparr>argv := [g, k]\<rparr>) s1"
  have d2: "dbs s2 = dbs s1" "cdb (clients s2 c) = j" "argv (clients s2 c) = [g, k]" "outp s2 c = outp s1 c"
    "notify_keyspace_events s2 = notify_keyspace_events s1" "data_inv s2 = data_inv s1"
    "ready s2 c = ready s1 c"
    using st_cdb [OF q(1)]
    by (auto simp: s2_def upd_client_def j_def outp_def client_out_def data_inv_def ready_def out_ready_def out_wf_def
        accepts_def prepareClientToWrite_def)
  have n1: "notify_keyspace_events s1 = {}" using st_srv_frame [OF q(1)] assms(2) by (simp add: srv_frame_def)
  have e: "\<not> expired s2 j k"
    using arg_cong [OF s0(3), of "\<lambda>f. f j k"] q(3) d2(1) by (simp add: expired_def kv_def)
  have "\<exists>s'. getCommand c s2 = Some s' \<and> outp s' c = outp s2 c @ bulk (getDecodedObject (tryObjectEncoding False (Raw v)))"
    by (rule getCommand_out) (use d2 e n1 s0(4) q o1 x(2) st_inv [OF q(1)] in auto)
  moreover have "getDecodedObject (tryObjectEncoding False (Raw v)) = v"
    using tryObjectEncoding_ok [of "Raw v" False] assms(7) by simp
  ultimately show ?thesis using set o1(1) d2(4) by (auto simp: s2_def)
qed

end
