(* ===== verification/Pubsub.thy ===== *)
theory Pubsub
  imports Reply_Rules
begin

text \<open>
  Subscriptions (\<open>pubsub.c\<close>). Clients know their channels and patterns, the server knows for each
  channel its clients and keeps one list of all patterns; \<open>pubsub_inv\<close> says that both sides agree. A
  published message is delivered once per subscription (theory Publish_Props). \<^const>\<open>None\<close> is a
  failed assertion or a null pointer.
\<close>

section \<open>Subscribing\<close>

definition subscriptions :: "nat \<Rightarrow> 'o server \<Rightarrow> int" where
  "subscriptions c s =
     int (length (pubsub_channels (clients s c)) + length (pubsub_patterns (clients s c)))"

text \<open>The reply to a change of a subscription; without a name it is a null bulk.\<close>

definition sub_reply :: "nat \<Rightarrow> bytes \<Rightarrow> bytes option \<Rightarrow> 'o server \<Rightarrow> 'o server" where
  "sub_reply c kind name s =
     (let s = addReply c (Raw (len_hdr CHR ''*'' 3)) s;
          s = addReply c (Raw kind) s;
          s = (case name of None \<Rightarrow> addReply c (Raw shared_nullbulk) s | Some t \<Rightarrow> addReplyBulk c (Raw t) s)
      in addReplyLongLong c (subscriptions c s) s)"

definition pubsubSubscribeChannel :: "nat \<Rightarrow> bytes \<Rightarrow> 'o server \<Rightarrow> 'o server \<times> nat" where
  "pubsubSubscribeChannel c channel s =
     (let (s, retval) =
        (if channel \<notin> set (pubsub_channels (clients s c)) then
           let s = upd_client c (\<lambda>cl. cl\<lparr>pubsub_channels := pubsub_channels cl @ [channel]\<rparr>) s;
               l = (case srv_channels s channel of None \<Rightarrow> [] | Some l \<Rightarrow> l)
           in (s\<lparr>srv_channels := (srv_channels s)(channel \<mapsto> l @ [c])\<rparr>, 1)
         else (s, 0))
      in (sub_reply c shared_subscribebulk (Some channel) s, retval))"

definition pubsubUnsubscribeChannel :: "nat \<Rightarrow> bytes \<Rightarrow> bool \<Rightarrow> 'o server \<Rightarrow> ('o server \<times> nat) option" where
  "pubsubUnsubscribeChannel c channel notify s = do {
     (s, retval) \<leftarrow>
       (if channel \<in> set (pubsub_channels (clients s c)) then
          let s = upd_client c (\<lambda>cl. cl\<lparr>pubsub_channels := remove1 channel (pubsub_channels cl)\<rparr>) s in
          case srv_channels s channel of
            None \<Rightarrow> None
          | Some l \<Rightarrow>
              if c \<notin> set l then None
              else let l = remove1 c l in
                Some (s\<lparr>srv_channels := (srv_channels s)(channel := (if l = [] then None else Some l))\<rparr>, 1)
        else Some (s, 0));
     Some (if notify then sub_reply c shared_unsubscribebulk (Some channel) s else s, retval) }"

definition pubsubSubscribePattern :: "nat \<Rightarrow> bytes \<Rightarrow> 'o server \<Rightarrow> 'o server \<times> nat" where
  "pubsubSubscribePattern c pat s =
     (let (s, retval) =
        (if pat \<notin> set (pubsub_patterns (clients s c)) then
           let s = upd_client c (\<lambda>cl. cl\<lparr>pubsub_patterns := pubsub_patterns cl @ [pat]\<rparr>) s
           in (s\<lparr>srv_patterns := srv_patterns s @ [(c, pat)]\<rparr>, 1)
         else (s, 0))
      in (sub_reply c shared_psubscribebulk (Some pat) s, retval))"

definition pubsubUnsubscribePattern :: "nat \<Rightarrow> bytes \<Rightarrow> bool \<Rightarrow> 'o server \<Rightarrow> ('o server \<times> nat) option" where
  "pubsubUnsubscribePattern c pat notify s = do {
     (s, retval) \<leftarrow>
       (if pat \<in> set (pubsub_patterns (clients s c)) then
          let s = upd_client c (\<lambda>cl. cl\<lparr>pubsub_patterns := remove1 pat (pubsub_patterns cl)\<rparr>) s in
          if (c, pat) \<notin> set (srv_patterns s) then None
          else Some (s\<lparr>srv_patterns := remove1 (c, pat) (srv_patterns s)\<rparr>, 1)
        else Some (s, 0));
     Some (if notify then sub_reply c shared_punsubscribebulk (Some pat) s else s, retval) }"

fun unsub_channels :: "nat \<Rightarrow> bytes list \<Rightarrow> bool \<Rightarrow> 'o server \<Rightarrow> nat \<Rightarrow> ('o server \<times> nat) option" where
  "unsub_channels c [] notify s n = Some (s, n)"
| "unsub_channels c (channel # chs) notify s n = do {
     (s, r) \<leftarrow> pubsubUnsubscribeChannel c channel notify s;
     unsub_channels c chs notify s (n + r) }"

fun unsub_patterns :: "nat \<Rightarrow> bytes list \<Rightarrow> bool \<Rightarrow> 'o server \<Rightarrow> nat \<Rightarrow> ('o server \<times> nat) option" where
  "unsub_patterns c [] notify s n = Some (s, n)"
| "unsub_patterns c (pat # pats) notify s n = do {
     (s, r) \<leftarrow> pubsubUnsubscribePattern c pat notify s;
     unsub_patterns c pats notify s (n + r) }"

text \<open>The iterators visit what is there at the beginning; the loops delete only the entry they are at.\<close>

definition pubsubUnsubscribeAllChannels :: "nat \<Rightarrow> bool \<Rightarrow> 'o server \<Rightarrow> ('o server \<times> nat) option" where
  "pubsubUnsubscribeAllChannels c notify s = do {
     (s, n) \<leftarrow> unsub_channels c (dict_order s (set (pubsub_channels (clients s c)))) notify s 0;
     Some (if notify \<and> n = 0 then sub_reply c shared_unsubscribebulk None s else s, n) }"

definition pubsubUnsubscribeAllPatterns :: "nat \<Rightarrow> bool \<Rightarrow> 'o server \<Rightarrow> ('o server \<times> nat) option" where
  "pubsubUnsubscribeAllPatterns c notify s = do {
     (s, n) \<leftarrow> unsub_patterns c (pubsub_patterns (clients s c)) notify s 0;
     Some (if notify \<and> n = 0 then sub_reply c shared_punsubscribebulk None s else s, n) }"

section \<open>The commands\<close>

definition subscribeCommand :: "nat \<Rightarrow> 'o server \<Rightarrow> 'o server option" where
  "subscribeCommand c s =
     Some (fold (\<lambda>chan s. fst (pubsubSubscribeChannel c chan s)) (drop 1 (argv (clients s c))) s)"

definition unsubscribeCommand :: "nat \<Rightarrow> 'o server \<Rightarrow> 'o server option" where
  "unsubscribeCommand c s =
     map_option fst
       (if argc s c = 1 then pubsubUnsubscribeAllChannels c True s
        else unsub_channels c (drop 1 (argv (clients s c))) True s 0)"

definition psubscribeCommand :: "nat \<Rightarrow> 'o server \<Rightarrow> 'o server option" where
  "psubscribeCommand c s =
     Some (fold (\<lambda>p s. fst (pubsubSubscribePattern c p s)) (drop 1 (argv (clients s c))) s)"

definition punsubscribeCommand :: "nat \<Rightarrow> 'o server \<Rightarrow> 'o server option" where
  "punsubscribeCommand c s =
     map_option fst
       (if argc s c = 1 then pubsubUnsubscribeAllPatterns c True s
        else unsub_patterns c (drop 1 (argv (clients s c))) True s 0)"

text \<open>\<open>forceCommandPropagation\<close> (\<open>redis.c\<close>).\<close>

definition forceCommandPropagation :: "nat \<Rightarrow> bool \<Rightarrow> bool \<Rightarrow> 'o server \<Rightarrow> 'o server" where
  "forceCommandPropagation c repl aof s =
     (let s = (if repl then upd_client c (set_flag REDIS_FORCE_REPL) s else s)
      in (if aof then upd_client c (set_flag REDIS_FORCE_AOF) s else s))"

definition publishCommand :: "nat \<Rightarrow> 'o server \<Rightarrow> 'o server option" where
  "publishCommand c s = do {
     channel \<leftarrow> arg s c 1;
     message \<leftarrow> arg s c 2;
     (s, receivers) \<leftarrow> pubsubPublishMessage channel (Raw message) s;
     let s = forceCommandPropagation c True False s;
     Some (addReplyLongLong c (int receivers) s) }"

fun channels_loop :: "nat \<Rightarrow> bytes option \<Rightarrow> bytes list \<Rightarrow> 'o server \<Rightarrow> int \<Rightarrow> ('o server \<times> int) option" where
  "channels_loop c pat [] s mblen = Some (s, mblen)"
| "channels_loop c pat (chan # chans) s mblen = do {
     m \<leftarrow> (case pat of None \<Rightarrow> Some True | Some p \<Rightarrow> sds_match p chan);
     if m then channels_loop c pat chans (addReplyBulk c (Raw chan) s) (mblen + 1)
     else channels_loop c pat chans s mblen }"

fun numsub_loop :: "nat \<Rightarrow> bytes list \<Rightarrow> 'o server \<Rightarrow> 'o server" where
  "numsub_loop c [] s = s"
| "numsub_loop c (chan # chans) s =
     (let n = (case srv_channels s chan of None \<Rightarrow> 0 | Some l \<Rightarrow> int (length l))
      in numsub_loop c chans (addReplyBulkLongLong c n (addReplyBulk c (Raw chan) s)))"

definition pubsubCommand :: "nat \<Rightarrow> 'o server \<Rightarrow> 'o server option" where
  "pubsubCommand c s = do {
     sub \<leftarrow> arg s c 1;
     if strcasecmp_eq (c_string sub) (cstr ''channels'') \<and> (argc s c = 2 \<or> argc s c = 3) then do {
       let pat = arg s c 2;
       let (s, node) = addDeferred c s;
       (s, n) \<leftarrow> channels_loop c pat (dict_order s (dom (srv_channels s))) s 0;
       Some (setDeferred c node n s) }
     else if strcasecmp_eq (c_string sub) (cstr ''numsub'') \<and> argc s c \<ge> 2 then
       Some (numsub_loop c (drop 2 (argv (clients s c))) (addReplyMultiBulkLen c (int (argc s c - 2) * 2) s))
     else if strcasecmp_eq (c_string sub) (cstr ''numpat'') \<and> argc s c = 2 then
       Some (addReplyLongLong c (int (length (srv_patterns s))) s)
     else
       Some (addReplyErrorFormat c (cstr ''Unknown PUBSUB subcommand or wrong number of arguments for '' @
         cstr [CHR 0x27] @ c_string sub @ cstr [CHR 0x27]) s) }"

section \<open>Both sides agree\<close>

definition subscribers :: "'o server \<Rightarrow> bytes \<Rightarrow> nat list" where
  "subscribers s chan = (case srv_channels s chan of None \<Rightarrow> [] | Some l \<Rightarrow> l)"

definition pubsub_inv :: "'o server \<Rightarrow> bool" where
  "pubsub_inv s \<longleftrightarrow>
     (\<forall>chan c. c \<in> set (subscribers s chan) \<longleftrightarrow>
        c \<in> set (client_list s) \<and> chan \<in> set (pubsub_channels (clients s c))) \<and>
     (\<forall>chan. distinct (subscribers s chan) \<and> srv_channels s chan \<noteq> Some []) \<and>
     (\<forall>c p. (c, p) \<in> set (srv_patterns s) \<longleftrightarrow>
        c \<in> set (client_list s) \<and> p \<in> set (pubsub_patterns (clients s c))) \<and>
     distinct (srv_patterns s) \<and>
     (\<forall>c. distinct (pubsub_channels (clients s c)) \<and> distinct (pubsub_patterns (clients s c)))"

lemma pubsub_inv_frm: "frm s s' \<Longrightarrow> pubsub_inv s' = pubsub_inv s"
  by (simp add: pubsub_inv_def subscribers_def frm_def srv_frame_def client_frame_def)

lemma quiet_frm: "quiet s s' \<Longrightarrow> frm s s'"
  by (simp add: quiet_def)

lemma quiet_sub_reply: "quiet s (sub_reply c kind name s)"
  unfolding sub_reply_def Let_def
  by (cases name) (auto intro!: quiet_trans [OF _ quiet_replies(7)] quiet_trans [OF _ quiet_replies(10)] quiet_base)

text \<open>The change of a subscription without its reply.\<close>

definition add_chan :: "nat \<Rightarrow> bytes \<Rightarrow> 'o server \<Rightarrow> 'o server" where
  "add_chan c chan s =
     (upd_client c (\<lambda>cl. cl\<lparr>pubsub_channels := pubsub_channels cl @ [chan]\<rparr>) s)
       \<lparr>srv_channels := (srv_channels s)(chan \<mapsto> subscribers s chan @ [c])\<rparr>"

definition del_chan :: "nat \<Rightarrow> bytes \<Rightarrow> 'o server \<Rightarrow> 'o server" where
  "del_chan c chan s =
     (upd_client c (\<lambda>cl. cl\<lparr>pubsub_channels := remove1 chan (pubsub_channels cl)\<rparr>) s)
       \<lparr>srv_channels := (srv_channels s)(chan :=
          (if remove1 c (subscribers s chan) = [] then None else Some (remove1 c (subscribers s chan))))\<rparr>"

definition add_pat :: "nat \<Rightarrow> bytes \<Rightarrow> 'o server \<Rightarrow> 'o server" where
  "add_pat c p s =
     (upd_client c (\<lambda>cl. cl\<lparr>pubsub_patterns := pubsub_patterns cl @ [p]\<rparr>) s)
       \<lparr>srv_patterns := srv_patterns s @ [(c, p)]\<rparr>"

definition del_pat :: "nat \<Rightarrow> bytes \<Rightarrow> 'o server \<Rightarrow> 'o server" where
  "del_pat c p s =
     (upd_client c (\<lambda>cl. cl\<lparr>pubsub_patterns := remove1 p (pubsub_patterns cl)\<rparr>) s)
       \<lparr>srv_patterns := remove1 (c, p) (srv_patterns s)\<rparr>"

lemmas sub_defs = add_chan_def del_chan_def add_pat_def del_pat_def

text \<open>What a change of a subscription leaves alone.\<close>

lemma sub_fields [simp]:
  "client_list (add_chan c x s) = client_list s" "client_list (del_chan c x s) = client_list s"
  "client_list (add_pat c x s) = client_list s" "client_list (del_pat c x s) = client_list s"
  "subscribers (add_pat c x s) = subscribers s" "subscribers (del_pat c x s) = subscribers s"
  "srv_patterns (add_chan c x s) = srv_patterns s" "srv_patterns (del_chan c x s) = srv_patterns s"
  "pubsub_patterns (clients (add_chan c x s) y) = pubsub_patterns (clients s y)"
  "pubsub_patterns (clients (del_chan c x s) y) = pubsub_patterns (clients s y)"
  "pubsub_channels (clients (add_pat c x s) y) = pubsub_channels (clients s y)"
  "pubsub_channels (clients (del_pat c x s) y) = pubsub_channels (clients s y)"
  "srv_channels (add_pat c x s) = srv_channels s" "srv_channels (del_pat c x s) = srv_channels s"
  by (simp_all add: sub_defs upd_client_def subscribers_def fun_eq_iff)

lemma sub_new:
  "subscribers (add_chan c x s) = (subscribers s)(x := subscribers s x @ [c])"
  "subscribers (del_chan c x s) = (subscribers s)(x := remove1 c (subscribers s x))"
  "pubsub_channels (clients (add_chan c x s) y) =
     (if y = c then pubsub_channels (clients s c) @ [x] else pubsub_channels (clients s y))"
  "pubsub_channels (clients (del_chan c x s) y) =
     (if y = c then remove1 x (pubsub_channels (clients s c)) else pubsub_channels (clients s y))"
  "pubsub_patterns (clients (add_pat c x s) y) =
     (if y = c then pubsub_patterns (clients s c) @ [x] else pubsub_patterns (clients s y))"
  "pubsub_patterns (clients (del_pat c x s) y) =
     (if y = c then remove1 x (pubsub_patterns (clients s c)) else pubsub_patterns (clients s y))"
  "srv_patterns (add_pat c x s) = srv_patterns s @ [(c, x)]"
  "srv_patterns (del_pat c x s) = remove1 (c, x) (srv_patterns s)"
  by (simp_all add: sub_defs upd_client_def subscribers_def fun_eq_iff)

lemma add_chan_inv:
  assumes "pubsub_inv s" and "c \<in> set (client_list s)" and "x \<notin> set (pubsub_channels (clients s c))"
  shows "pubsub_inv (add_chan c x s)"
proof -
  have "c \<notin> set (subscribers s x)" using assms(1,3) by (simp add: pubsub_inv_def)
  moreover have "srv_channels (add_chan c x s) y \<noteq> Some []" for y
    using assms(1) by (simp add: add_chan_def pubsub_inv_def)
  ultimately show ?thesis
    using assms by (auto simp: pubsub_inv_def sub_new)
qed

lemma del_chan_inv:
  assumes "pubsub_inv s" and "c \<in> set (client_list s)"
  shows "pubsub_inv (del_chan c x s)"
proof -
  have "srv_channels (del_chan c x s) y \<noteq> Some []" for y
    using assms(1) by (simp add: del_chan_def pubsub_inv_def)
  then show ?thesis
    using assms by (auto simp: pubsub_inv_def sub_new set_remove1_eq)
qed

lemma add_pat_inv:
  "pubsub_inv s \<Longrightarrow> c \<in> set (client_list s) \<Longrightarrow> x \<notin> set (pubsub_patterns (clients s c)) \<Longrightarrow>
   pubsub_inv (add_pat c x s)"
  by (auto simp: pubsub_inv_def sub_new)

lemma del_pat_inv: "pubsub_inv s \<Longrightarrow> c \<in> set (client_list s) \<Longrightarrow> pubsub_inv (del_pat c x s)"
  by (auto simp: pubsub_inv_def sub_new set_remove1_eq)

text \<open>The operations: a change if there is something to change, and a reply.\<close>

lemma subscribe_eq:
  "pubsubSubscribeChannel c x s =
     (if x \<in> set (pubsub_channels (clients s c)) then (sub_reply c shared_subscribebulk (Some x) s, 0)
      else (sub_reply c shared_subscribebulk (Some x) (add_chan c x s), 1))"
  "pubsubSubscribePattern c x s =
     (if x \<in> set (pubsub_patterns (clients s c)) then (sub_reply c shared_psubscribebulk (Some x) s, 0)
      else (sub_reply c shared_psubscribebulk (Some x) (add_pat c x s), 1))"
  by (simp_all add: pubsubSubscribeChannel_def pubsubSubscribePattern_def add_chan_def add_pat_def
      subscribers_def upd_client_def Let_def)

lemma unsubscribe_eq:
  assumes "pubsub_inv s" and "c \<in> set (client_list s)"
  shows "pubsubUnsubscribeChannel c x notify s =
     (let (s, n) = (if x \<in> set (pubsub_channels (clients s c)) then (del_chan c x s, 1) else (s, 0))
      in Some (if notify then sub_reply c shared_unsubscribebulk (Some x) s else s, n))"
    "pubsubUnsubscribePattern c x notify s =
     (let (s, n) = (if x \<in> set (pubsub_patterns (clients s c)) then (del_pat c x s, 1) else (s, 0))
      in Some (if notify then sub_reply c shared_punsubscribebulk (Some x) s else s, n))"
proof -
  have "x \<in> set (pubsub_channels (clients s c)) \<Longrightarrow> c \<in> set (subscribers s x)"
    using assms by (simp add: pubsub_inv_def)
  then show "pubsubUnsubscribeChannel c x notify s =
     (let (s, n) = (if x \<in> set (pubsub_channels (clients s c)) then (del_chan c x s, 1) else (s, 0))
      in Some (if notify then sub_reply c shared_unsubscribebulk (Some x) s else s, n))"
    by (cases "srv_channels s x")
      (auto simp: pubsubUnsubscribeChannel_def del_chan_def subscribers_def upd_client_def Let_def)
  have "x \<in> set (pubsub_patterns (clients s c)) \<Longrightarrow> (c, x) \<in> set (srv_patterns s)"
    using assms by (simp add: pubsub_inv_def)
  then show "pubsubUnsubscribePattern c x notify s =
     (let (s, n) = (if x \<in> set (pubsub_patterns (clients s c)) then (del_pat c x s, 1) else (s, 0))
      in Some (if notify then sub_reply c shared_punsubscribebulk (Some x) s else s, n))"
    by (simp add: pubsubUnsubscribePattern_def del_pat_def upd_client_def Let_def)
qed

end
