(* ===== verification/Multi.thy ===== *)
theory Multi
  imports Pubsub
begin

text \<open>
  Transactions (\<open>multi.c\<close>) without \<open>EXEC\<close>, which is in the theory Process because it executes other
  commands: queueing, \<open>MULTI\<close>, \<open>DISCARD\<close>, \<open>WATCH\<close>, \<open>UNWATCH\<close>. \<open>watch_inv\<close> of the theory Db_Cmd says that
  the clients' lists of watched keys and the databases' lists of watching clients agree; every operation
  here keeps it, so none of them meets a missing list entry.
\<close>

section \<open>The queue and the flags\<close>

definition queueMultiCommand :: "nat \<Rightarrow> 'o server \<Rightarrow> 'o server option" where
  "queueMultiCommand c s =
     (case cmd (clients s c) of
        None \<Rightarrow> None
      | Some cm \<Rightarrow> Some (upd_client c (\<lambda>cl. cl\<lparr>mstate := mstate cl @ [(cm, argv cl)]\<rparr>) s))"

definition flagTransaction :: "nat \<Rightarrow> 'o server \<Rightarrow> 'o server" where
  "flagTransaction c s =
     (if REDIS_MULTI \<in> cflags (clients s c) then upd_client c (set_flag REDIS_DIRTY_EXEC) s else s)"

definition multiCommand :: "nat \<Rightarrow> 'o server \<Rightarrow> 'o server option" where
  "multiCommand c s =
     Some (if REDIS_MULTI \<in> cflags (clients s c) then addReplyError c ''MULTI calls can not be nested'' s
       else addReply c (Raw shared_ok) (upd_client c (set_flag REDIS_MULTI) s))"

section \<open>Watching\<close>

text \<open>Taking a client off the list of clients that watch a key; the list and the entry must be there.\<close>

definition unwatch_one :: "nat \<Rightarrow> bytes \<Rightarrow> nat \<Rightarrow> 'o server \<Rightarrow> 'o server option" where
  "unwatch_one c key j s =
     (case dwatched (dbs s j) key of
        None \<Rightarrow> None
      | Some l \<Rightarrow>
          if c \<notin> set l then None
          else
            let l = remove1 c l;
                s = upd_db j (\<lambda>d. d\<lparr>dwatched := (dwatched d)(key := (if l = [] then None else Some l))\<rparr>) s
            in Some (upd_client c (\<lambda>cl. cl\<lparr>watched_keys := remove1 (key, j) (watched_keys cl)\<rparr>) s))"

fun unwatch_loop :: "nat \<Rightarrow> (bytes \<times> nat) list \<Rightarrow> 'o server \<Rightarrow> 'o server option" where
  "unwatch_loop c [] s = Some s"
| "unwatch_loop c ((key, j) # ws) s = do { s \<leftarrow> unwatch_one c key j s; unwatch_loop c ws s }"

definition unwatchAllKeys :: "nat \<Rightarrow> 'o server \<Rightarrow> 'o server option" where
  "unwatchAllKeys c s = unwatch_loop c (watched_keys (clients s c)) s"

definition discardTransaction :: "nat \<Rightarrow> 'o server \<Rightarrow> 'o server option" where
  "discardTransaction c s =
     unwatchAllKeys c (upd_client c (\<lambda>cl. cl\<lparr>mstate := [],
       cflags := cflags cl - {REDIS_MULTI, REDIS_DIRTY_CAS, REDIS_DIRTY_EXEC}\<rparr>) s)"

definition discardCommand :: "nat \<Rightarrow> 'o server \<Rightarrow> 'o server option" where
  "discardCommand c s =
     (if REDIS_MULTI \<notin> cflags (clients s c) then Some (addReplyError c ''DISCARD without MULTI'' s)
      else do { s \<leftarrow> discardTransaction c s; Some (addReply c (Raw shared_ok) s) })"

definition watchForKey :: "nat \<Rightarrow> bytes \<Rightarrow> 'o server \<Rightarrow> 'o server" where
  "watchForKey c key s =
     (let j = cdb (clients s c) in
      if (key, j) \<in> set (watched_keys (clients s c)) then s
      else
        let l = (case dwatched (dbs s j) key of None \<Rightarrow> [] | Some l \<Rightarrow> l);
            s = upd_db j (\<lambda>d. d\<lparr>dwatched := (dwatched d)(key \<mapsto> l @ [c])\<rparr>) s
        in upd_client c (\<lambda>cl. cl\<lparr>watched_keys := watched_keys cl @ [(key, j)]\<rparr>) s)"

definition watchCommand :: "nat \<Rightarrow> 'o server \<Rightarrow> 'o server option" where
  "watchCommand c s =
     Some (if REDIS_MULTI \<in> cflags (clients s c) then addReplyError c ''WATCH inside MULTI is not allowed'' s
       else addReply c (Raw shared_ok) (fold (watchForKey c) (drop 1 (argv (clients s c))) s))"

definition unwatchCommand :: "nat \<Rightarrow> 'o server \<Rightarrow> 'o server option" where
  "unwatchCommand c s = do {
     s \<leftarrow> unwatchAllKeys c s;
     Some (addReply c (Raw shared_ok) (upd_client c (clr_flag REDIS_DIRTY_CAS) s)) }"

section \<open>The two views of what is watched agree\<close>

lemma watchForKey_inv:
  assumes "watch_inv s" and "c \<in> set (client_list s)"
  shows "watch_inv (watchForKey c key s)"
proof (cases "(key, cdb (clients s c)) \<in> set (watched_keys (clients s c))")
  case False
  then have "c \<notin> set (watchers s (cdb (clients s c)) key)" using assms(1) by (simp add: watch_inv_def)
  then show ?thesis
    using False assms
    by (auto simp: watchForKey_def Let_def watch_inv_def watchers_def upd_db_def upd_client_def split: option.splits)
qed (use assms in \<open>simp add: watchForKey_def Let_def\<close>)

lemma unwatch_one_inv:
  assumes "watch_inv s" and "(key, j) \<in> set (watched_keys (clients s c))" and "c \<in> set (client_list s)"
  shows "\<exists>s'. unwatch_one c key j s = Some s' \<and> watch_inv s' \<and>
     watched_keys (clients s' c) = remove1 (key, j) (watched_keys (clients s c)) \<and>
     client_list s' = client_list s"
proof -
  have w: "c \<in> set (watchers s j key)" using assms by (simp add: watch_inv_def)
  then obtain l where l: "dwatched (dbs s j) key = Some l" "c \<in> set l"
    by (cases "dwatched (dbs s j) key") (auto simp: watchers_def)
  define s' where "s' = upd_client c (\<lambda>cl. cl\<lparr>watched_keys := remove1 (key, j) (watched_keys cl)\<rparr>)
     (upd_db j (\<lambda>d. d\<lparr>dwatched := (dwatched d)(key := (if remove1 c l = [] then None else Some (remove1 c l)))\<rparr>) s)"
  have ws: "watchers s' j' k' = (if j' = j \<and> k' = key then remove1 c l else watchers s j' k')" for j' k'
    by (simp add: s'_def watchers_def upd_client_def upd_db_def)
  have dl: "distinct l" "watchers s j key = l" using assms(1) l(1) by (auto simp: watch_inv_def watchers_def split: option.splits)
  have wk: "watched_keys (clients s' x) = (if x = c then remove1 (key, j) (watched_keys (clients s c)) else watched_keys (clients s x))" for x
    by (simp add: s'_def upd_client_def upd_db_def)
  have dw: "distinct (watched_keys (clients s x))" for x using assms(1) by (simp add: watch_inv_def)
  have cl: "client_list s' = client_list s" by (simp add: s'_def upd_client_def upd_db_def)
  have "watch_inv s'"
    unfolding watch_inv_def
  proof (intro conjI allI)
    fix j' k' x
    have "x \<in> set (watchers s j' k') \<longleftrightarrow> x \<in> set (client_list s) \<and> (k', j') \<in> set (watched_keys (clients s x))"
      using assms(1) by (simp add: watch_inv_def)
    then show "x \<in> set (watchers s' j' k') \<longleftrightarrow> x \<in> set (client_list s') \<and> (k', j') \<in> set (watched_keys (clients s' x))"
      using dl dw cl by (auto simp: ws wk)
  next
    fix j' k' show "distinct (watchers s' j' k')" using assms(1) dl by (simp add: ws watch_inv_def)
  next
    fix j' k' show "dwatched (dbs s' j') k' \<noteq> Some []"
      using assms(1) by (auto simp: s'_def watch_inv_def upd_client_def upd_db_def)
  next
    fix x show "distinct (watched_keys (clients s' x))" using dw by (simp add: wk)
  qed
  moreover have "unwatch_one c key j s = Some s'"
    using l by (simp add: unwatch_one_def s'_def Let_def)
  ultimately show ?thesis using cl by (auto simp: wk)
qed

text \<open>What unwatching leaves alone: everything but the lists of watched keys.\<close>

definition unwatched :: "nat \<Rightarrow> 'o server \<Rightarrow> 'o server \<Rightarrow> bool" where
  "unwatched c s s' \<longleftrightarrow>
     (\<exists>w. s' = s\<lparr>dbs := \<lambda>j. (dbs s j)\<lparr>dwatched := w j\<rparr>,
        clients := (clients s)(c := (clients s c)\<lparr>watched_keys := []\<rparr>)\<rparr>)"

lemma unwatched_step:
  assumes "unwatch_one c key j s = Some s1" and "unwatched c s1 s2"
  shows "unwatched c s s2"
proof -
  obtain l where s1: "s1 = upd_client c (\<lambda>cl. cl\<lparr>watched_keys := remove1 (key, j) (watched_keys cl)\<rparr>)
     (upd_db j (\<lambda>d. d\<lparr>dwatched := l\<rparr>) s)"
    using assms(1) by (auto simp: unwatch_one_def Let_def upd_db_def split: option.splits if_splits)
  obtain w where s2: "s2 = s1\<lparr>dbs := \<lambda>j. (dbs s1 j)\<lparr>dwatched := w j\<rparr>,
        clients := (clients s1)(c := (clients s1 c)\<lparr>watched_keys := []\<rparr>)\<rparr>"
    using assms(2) by (auto simp: unwatched_def)
  show ?thesis
    unfolding unwatched_def s2 s1
    by (rule exI [of _ w]) (simp add: upd_client_def upd_db_def fun_eq_iff)
qed

lemma unwatch_loop_ok:
  assumes "watch_inv s" and "watched_keys (clients s c) = ws" and "c \<in> set (client_list s)"
  shows "\<exists>s'. unwatch_loop c ws s = Some s' \<and> watch_inv s' \<and> unwatched c s s'"
  using assms
proof (induction ws arbitrary: s)
  case Nil
  have e: "(clients s c)\<lparr>watched_keys := []\<rparr> = clients s c" using Nil(2) by simp
  have "unwatched c s s"
    unfolding unwatched_def by (rule exI [of _ "\<lambda>j. dwatched (dbs s j)"]) (simp add: e)
  then show ?case using Nil by simp
next
  case (Cons w ws)
  obtain key j where w: "w = (key, j)" by force
  obtain s1 where s1: "unwatch_one c key j s = Some s1" "watch_inv s1" "watched_keys (clients s1 c) = ws"
    "client_list s1 = client_list s"
    using unwatch_one_inv [OF Cons.prems(1), of key j c] Cons.prems(2,3) w by auto
  obtain s2 where s2: "unwatch_loop c ws s1 = Some s2" "watch_inv s2" "unwatched c s1 s2"
    using Cons.IH [OF s1(2,3)] s1(4) Cons.prems(3) by auto
  have "unwatched c s s2"
    using unwatched_step [OF s1(1) s2(3)] .
  then show ?case using s1(1) s2 w by simp
qed

lemma unwatchAllKeys_ok:
  "watch_inv s \<Longrightarrow> c \<in> set (client_list s) \<Longrightarrow>
   \<exists>s'. unwatchAllKeys c s = Some s' \<and> watch_inv s' \<and> unwatched c s s'"
  by (simp add: unwatchAllKeys_def unwatch_loop_ok)

end
