(* ===== verification/Evict.thy ===== *)
theory Evict
  imports Reply_Rules
begin

text \<open>
  The memory limit (\<open>freeMemoryIfNeeded\<close> of \<open>redis.c\<close>): while too much memory is used, every database
  gives up its best key among some samples. The readings of the allocator and the random samples are
  given in advance, by round, database, number and the keys to choose from. \<open>freeMemoryIfNeeded_ok\<close> shows that the loop ends, that it only
  removes keys, only those with an expire time under the volatile policies, and that no client that
  watches a removed key is told.
\<close>

section \<open>The limit\<close>

record mem_env =
  used_memory :: nat
  slave_obufs :: "nat list"
  aof_pending :: nat
  samples :: "nat \<Rightarrow> nat \<Rightarrow> nat \<Rightarrow> bytes set \<Rightarrow> bytes list"
  freed :: "nat \<Rightarrow> nat \<Rightarrow> int"

definition REDIS_LRU_CLOCK_MAX :: nat where "REDIS_LRU_CLOCK_MAX = 2 ^ 24 - 1"

definition estimateObjectIdleTime :: "nat \<Rightarrow> 'o robj \<Rightarrow> int" where
  "estimateObjectIdleTime clock v =
     (if clock \<ge> lru v then int (clock - lru v) else int (REDIS_LRU_CLOCK_MAX - lru v + clock))"

text \<open>The memory that counts; the subtraction of the buffers of the append only file is that of a
  \<open>size_t\<close>.\<close>

definition mem_used :: "mem_env \<Rightarrow> 'o server \<Rightarrow> nat" where
  "mem_used e s =
     (let m = fold (\<lambda>ob m. if ob > m then 0 else m - ob) (slave_obufs e) (used_memory e)
      in if aof_state s \<noteq> REDIS_AOF_OFF then usize (int m - int (aof_pending e)) else m)"

definition allkeys :: "maxmemory_policy \<Rightarrow> bool" where
  "allkeys p \<longleftrightarrow> p = REDIS_MAXMEMORY_ALLKEYS_LRU \<or> p = REDIS_MAXMEMORY_ALLKEYS_RANDOM"

definition candidates :: "nat \<Rightarrow> 'o server \<Rightarrow> bytes set" where
  "candidates j s =
     (if allkeys (maxmemory_policy s) then dom (ddict (dbs s j)) else dom (dexpires (dbs s j)))"

text \<open>The value by which a sample is judged; the better of two values.\<close>

definition sample_val :: "nat \<Rightarrow> 'o server \<Rightarrow> bytes \<Rightarrow> int option" where
  "sample_val j s key =
     (if maxmemory_policy s = REDIS_MAXMEMORY_VOLATILE_TTL then dexpires (dbs s j) key
      else map_option (estimateObjectIdleTime (lruclock s)) (ddict (dbs s j) key))"

definition better :: "maxmemory_policy \<Rightarrow> int \<Rightarrow> int \<Rightarrow> bool" where
  "better p thisval bestval \<longleftrightarrow>
     (if p = REDIS_MAXMEMORY_VOLATILE_TTL then thisval < bestval else thisval > bestval)"

fun best_loop :: "nat \<Rightarrow> 'o server \<Rightarrow> bytes list \<Rightarrow> (bytes \<times> int) option \<Rightarrow> (bytes \<times> int) option option" where
  "best_loop j s [] best = Some best"
| "best_loop j s (key # keys) best =
     (if key \<notin> candidates j s then None
      else do {
        v \<leftarrow> sample_val j s key;
        best_loop j s keys
          (case best of
             None \<Rightarrow> Some (key, v)
           | Some (k, w) \<Rightarrow> if better (maxmemory_policy s) v w then Some (key, v) else best) })"

text \<open>The key a database gives up, when there is a candidate; the samples are keys of the dictionary.\<close>

definition best_key :: "mem_env \<Rightarrow> nat \<Rightarrow> nat \<Rightarrow> 'o server \<Rightarrow> bytes option option" where
  "best_key e n j s =
     (if maxmemory_policy s = REDIS_MAXMEMORY_ALLKEYS_RANDOM \<or>
        maxmemory_policy s = REDIS_MAXMEMORY_VOLATILE_RANDOM then
        (case samples e n j 1 (candidates j s) of
           [] \<Rightarrow> None
         | key # _ \<Rightarrow> if key \<in> candidates j s then Some (Some key) else None)
      else
        map_option (map_option fst)
          (best_loop j s (samples e n j (maxmemory_samples s) (candidates j s)) None))"

definition evict_key :: "nat \<Rightarrow> bytes \<Rightarrow> 'o server \<Rightarrow> 'o server option" where
  "evict_key j key s = do {
     s \<leftarrow> propagateExpire j key s;
     let s = fst (dbDelete j key s);
     let s = s\<lparr>stat_evictedkeys := stat_evictedkeys s + 1\<rparr>;
     notifyKeyspaceEvent REDIS_NOTIFY_EVICTED ''evicted'' key j s }"

fun evict_dbs :: "mem_env \<Rightarrow> nat \<Rightarrow> nat list \<Rightarrow> 'o server \<Rightarrow> nat \<Rightarrow> nat \<Rightarrow> ('o server \<times> nat \<times> nat) option" where
  "evict_dbs e n [] s mem_freed keys_freed = Some (s, mem_freed, keys_freed)"
| "evict_dbs e n (j # js) s mem_freed keys_freed =
     (if candidates j s = {} then evict_dbs e n js s mem_freed keys_freed
      else do {
        best \<leftarrow> best_key e n j s;
        case best of
          None \<Rightarrow> evict_dbs e n js s mem_freed keys_freed
        | Some key \<Rightarrow> do {
            s \<leftarrow> evict_key j key s;
            evict_dbs e n js s (usize (int mem_freed + freed e n j)) (keys_freed + 1) } })"

text \<open>The number of rounds is bounded by the number of keys, so the total number of keys and one more
  is enough fuel.\<close>

fun evict_loop :: "nat \<Rightarrow> mem_env \<Rightarrow> nat \<Rightarrow> 'o server \<Rightarrow> nat \<Rightarrow> nat \<Rightarrow> ('o server \<times> bool) option" where
  "evict_loop 0 e n s mem_tofree mem_freed = None"
| "evict_loop (Suc fuel) e n s mem_tofree mem_freed =
     (if mem_freed < mem_tofree then do {
        (s, mem_freed, keys_freed) \<leftarrow> evict_dbs e n [0..<dbnum s] s mem_freed 0;
        if keys_freed = 0 then Some (s, False) else evict_loop fuel e (n + 1) s mem_tofree mem_freed }
      else Some (s, True))"

definition total_keys :: "'o server \<Rightarrow> nat" where
  "total_keys s = (\<Sum>j<dbnum s. card (dom (ddict (dbs s j))))"

definition freeMemoryIfNeeded :: "mem_env \<Rightarrow> 'o server \<Rightarrow> ('o server \<times> bool) option" where
  "freeMemoryIfNeeded e s =
     (if mem_used e s \<le> maxmemory s then Some (s, True)
      else if maxmemory_policy s = REDIS_MAXMEMORY_NO_EVICTION then Some (s, False)
      else evict_loop (total_keys s + 1) e 0 s (mem_used e s - maxmemory s) 0)"

section \<open>The loop ends, and what it removes\<close>

text \<open>The samples are keys of the dictionary they are taken from, as many as asked for.\<close>

definition samples_ok :: "mem_env \<Rightarrow> bytes set \<Rightarrow> bool" where
  "samples_ok e U \<longleftrightarrow>
     (\<forall>n j m A. A \<noteq> {} \<longrightarrow> A \<subseteq> U \<longrightarrow> set (samples e n j m A) \<subseteq> A \<and> length (samples e n j m A) = m)"

definition all_keys_of :: "'o server \<Rightarrow> bytes set" where
  "all_keys_of s = (\<Union>j. dom (ddict (dbs s j)))"

text \<open>What an eviction may do to the server.\<close>

definition evicted :: "'o server \<Rightarrow> 'o server \<Rightarrow> bool" where
  "evicted s s' \<longleftrightarrow> st s s' \<and> dirty s' = dirty s \<and>
     (\<forall>c. REDIS_DIRTY_CAS \<in> cflags (clients s' c) \<longleftrightarrow> REDIS_DIRTY_CAS \<in> cflags (clients s c)) \<and>
     (\<forall>j k. kv s' j k = kv s j k \<or> kv s' j k = (None, None)) \<and>
     (\<not> allkeys (maxmemory_policy s) \<longrightarrow> (\<forall>j k. snd (kv s j k) = None \<longrightarrow> kv s' j k = kv s j k))"

lemma evicted_refl: "data_inv s \<Longrightarrow> evicted s s"
  by (simp add: evicted_def st_refl)

lemma st_policy: "st s s' \<Longrightarrow> maxmemory_policy s' = maxmemory_policy s \<and> maxmemory_samples s' = maxmemory_samples s \<and> dbnum s' = dbnum s"
  by (simp add: st_def frm_def srv_frame_def)

lemma evicted_trans:
  assumes "evicted a b" and "evicted b c"
  shows "evicted a c"
proof -
  have p: "maxmemory_policy b = maxmemory_policy a" using assms(1) st_policy by (auto simp: evicted_def)
  have "kv c j k = kv a j k \<or> kv c j k = (None, None)" for j k
    using assms unfolding evicted_def by metis
  moreover have "kv c j k = kv a j k" if "\<not> allkeys (maxmemory_policy a)" "snd (kv a j k) = None" for j k
    using assms that p unfolding evicted_def by metis
  moreover have "st a c" using assms st_trans by (auto simp: evicted_def)
  ultimately show ?thesis using assms(1,2) unfolding evicted_def by metis
qed

lemma evict_key_ok:
  assumes "data_inv s" and "key \<in> candidates j s"
  shows "\<exists>s'. evict_key j key s = Some s' \<and> evicted s s' \<and> kv s' = kv_upd s j key (None, None)"
proof -
  have "holds (propagateExpire j key s) (\<lambda>s1. st s s1 \<and> dbs s1 = dbs s \<and> dirty s1 = dirty s \<and> clients s1 = clients s)"
    by (rule propagateExpire_wp [OF st_refl [OF assms(1)]]) simp
  then obtain s1 where s1: "propagateExpire j key s = Some s1" "st s s1" "dbs s1 = dbs s" "dirty s1 = dirty s"
    "clients s1 = clients s" by (auto simp: holds_def)
  define s2 where "s2 = (db_upd j key None None s1)\<lparr>stat_evictedkeys := stat_evictedkeys s1 + 1\<rparr>"
  have kv2: "kv s2 = kv_upd s j key (None, None)" "dirty s2 = dirty s"
    using s1(4) kv_dbs [OF s1(3)] by (simp_all add: s2_def kv_def fun_eq_iff) (simp add: db_upd_def upd_db_def s1)
  have c2: "clients s2 = clients s" by (simp add: s2_def s1(5) db_upd_def upd_db_def)
  have st2: "st s s2"
    unfolding s2_def by (rule st_step [OF st_delete [OF s1(2)]])
      (auto simp: frm_def srv_frame_def intro: data_inv_dbs [OF st_inv [OF st_delete [OF s1(2)]]])
  have "holds (notifyKeyspaceEvent REDIS_NOTIFY_EVICTED ''evicted'' key j s2) (quiet s2)"
    by (rule notify_quiet [OF data_inv_patterns [OF st_inv [OF st2]]])
  then obtain s3 where s3: "notifyKeyspaceEvent REDIS_NOTIFY_EVICTED ''evicted'' key j s2 = Some s3" "quiet s2 s3"
    by (auto simp: holds_def)
  have "stat_evictedkeys (db_upd j key None None s1) = stat_evictedkeys s1"
    by (simp add: db_upd_def upd_db_def)
  then have "evict_key j key s = Some s3"
    using s1(1) s3(1) by (simp add: evict_key_def dbDelete_eq s2_def)
  moreover have kv3: "kv s3 = kv_upd s j key (None, None)" using quiet_kv [OF s3(2)] kv2 by simp
  moreover have "evicted s s3"
    unfolding evicted_def
  proof (intro conjI allI impI)
    show "st s s3" by (rule quiet_st [OF st2 s3(2)])
    show "dirty s3 = dirty s" using quiet_dirty [OF s3(2)] kv2 by simp
    show "REDIS_DIRTY_CAS \<in> cflags (clients s3 c) \<longleftrightarrow> REDIS_DIRTY_CAS \<in> cflags (clients s c)" for c
      using s3(2) c2 by (simp add: quiet_def)
    show "kv s3 j' k = kv s j' k \<or> kv s3 j' k = (None, None)" for j' k by (simp add: kv3)
    show "kv s3 j' k = kv s j' k" if "\<not> allkeys (maxmemory_policy s)" "snd (kv s j' k) = None" for j' k
      using that assms(2) by (auto simp: kv3 candidates_def kv_def)
  qed
  ultimately show ?thesis by blast
qed

lemma sample_val_Some:
  assumes "data_inv s" and "key \<in> candidates j s"
  shows "\<exists>v. sample_val j s key = Some v"
  using assms expires_present [OF assms(1), of j key]
  by (auto simp: sample_val_def candidates_def allkeys_def split: if_splits)

text \<open>The loop over the samples returns a best one.\<close>

lemma best_loop_ok:
  assumes "data_inv s" and "set keys \<subseteq> candidates j s"
    and "\<And>k v. best = Some (k, v) \<Longrightarrow> k \<in> candidates j s \<and> sample_val j s k = Some v"
    and "keys \<noteq> [] \<or> best \<noteq> None"
  shows "\<exists>k v. best_loop j s keys best = Some (Some (k, v)) \<and> k \<in> candidates j s \<and> sample_val j s k = Some v \<and>
     (\<forall>k' \<in> set keys. \<forall>v'. sample_val j s k' = Some v' \<longrightarrow> \<not> better (maxmemory_policy s) v' v) \<and>
     (\<forall>k' v'. best = Some (k', v') \<longrightarrow> \<not> better (maxmemory_policy s) v' v)"
  using assms
proof (induction keys arbitrary: best)
  case Nil
  then show ?case by (cases best) (auto simp: better_def)
next
  case (Cons key keys)
  have key: "key \<in> candidates j s" using Cons.prems(2) by simp
  obtain v where v: "sample_val j s key = Some v" using sample_val_Some [OF assms(1) key] by blast
  define b where "b = (case best of None \<Rightarrow> Some (key, v)
    | Some (k, w) \<Rightarrow> if better (maxmemory_policy s) v w then Some (key, v) else best)"
  have b: "b \<noteq> None" "\<And>k w. b = Some (k, w) \<Longrightarrow> k \<in> candidates j s \<and> sample_val j s k = Some w"
    using key v Cons.prems(3) by (auto simp: b_def split: option.splits if_splits)
  obtain k w where r: "best_loop j s keys b = Some (Some (k, w))" "k \<in> candidates j s" "sample_val j s k = Some w"
    "\<forall>k' \<in> set keys. \<forall>v'. sample_val j s k' = Some v' \<longrightarrow> \<not> better (maxmemory_policy s) v' w"
    "\<forall>k' v'. b = Some (k', v') \<longrightarrow> \<not> better (maxmemory_policy s) v' w"
    using Cons.IH [of b] b Cons.prems(1,2) by auto
  have "\<not> better (maxmemory_policy s) v w \<and> (\<forall>k' v'. best = Some (k', v') \<longrightarrow> \<not> better (maxmemory_policy s) v' w)"
    using r(5) by (auto simp: b_def better_def split: option.splits if_splits)
  then show ?case using r key v by (auto simp: b_def)
qed

lemma best_key_ok:
  assumes "data_inv s" and "samples_ok e U" and "candidates j s \<noteq> {}" and "candidates j s \<subseteq> U"
  shows "\<exists>r. best_key e n j s = Some r \<and> (\<forall>k. r = Some k \<longrightarrow> k \<in> candidates j s)"
proof -
  define keys where "keys = (\<lambda>m. samples e n j m (candidates j s))"
  have k: "set (keys m) \<subseteq> candidates j s" "length (keys m) = m" for m
    using assms(2-4) by (auto simp: keys_def samples_ok_def)
  obtain x xs where x: "keys 1 = x # xs" "x \<in> candidates j s"
    using k(1) [of 1] k(2) [of 1] by (cases "keys 1") auto
  have "\<exists>r. best_loop j s (keys m) None = Some r \<and> (\<forall>b v. r = Some (b, v) \<longrightarrow> b \<in> candidates j s)" for m
  proof (cases "keys m = []")
    case False
    then obtain b v where "best_loop j s (keys m) None = Some (Some (b, v))" "b \<in> candidates j s"
      using best_loop_ok [OF assms(1) k(1) [of m], of None] by auto
    then show ?thesis by auto
  qed simp
  then obtain r where "best_loop j s (keys (maxmemory_samples s)) None = Some r"
    "\<forall>b v. r = Some (b, v) \<longrightarrow> b \<in> candidates j s" by blast
  then show ?thesis
    using x by (auto simp: best_key_def keys_def)
qed

lemma keys_gone:
  assumes "evicted s s'"
  shows "all_keys_of s' \<subseteq> all_keys_of s" "candidates j s' \<subseteq> all_keys_of s"
proof -
  have d: "data_inv s'" using assms st_inv by (auto simp: evicted_def)
  have "ddict (dbs s j) k \<noteq> None" if "ddict (dbs s' j) k \<noteq> None" for j k
  proof -
    have "fst (kv s' j k) \<noteq> None" using that by (simp add: kv_def)
    moreover have "kv s' j k = kv s j k \<or> kv s' j k = (None, None)" using assms by (simp add: evicted_def)
    ultimately have "fst (kv s j k) \<noteq> None" by auto
    then show ?thesis by (simp add: kv_def)
  qed
  then show a: "all_keys_of s' \<subseteq> all_keys_of s" by (auto simp: all_keys_of_def)
  have "candidates j s' \<subseteq> all_keys_of s'"
  proof
    fix x assume "x \<in> candidates j s'"
    then have "ddict (dbs s' j) x \<noteq> None"
      using expires_present [OF d, of j x] by (auto simp: candidates_def split: if_splits)
    then show "x \<in> all_keys_of s'" by (auto simp: all_keys_of_def)
  qed
  with a show "candidates j s' \<subseteq> all_keys_of s" by blast
qed

lemma total_keys_evict:
  assumes "data_inv s" and "kv s' = kv_upd s j k (None, None)" and "k \<in> candidates j s"
    and "j < dbnum s" and "dbnum s' = dbnum s"
  shows "total_keys s = Suc (total_keys s')"
proof -
  have k: "k \<in> dom (ddict (dbs s j))"
    using assms(3) expires_present [OF assms(1), of j k] by (auto simp: candidates_def split: if_splits)
  have d: "dom (ddict (dbs s' i)) = (if i = j then dom (ddict (dbs s j)) - {k} else dom (ddict (dbs s i)))" for i
  proof -
    have "ddict (dbs s' i) x = None \<longleftrightarrow> (if i = j \<and> x = k then True else ddict (dbs s i) x = None)" for x
      using arg_cong [OF assms(2), of "\<lambda>f. fst (f i x)"] by (auto simp: kv_def split: if_splits)
    then show ?thesis by (auto simp: dom_def)
  qed
  have f: "finite (dom (ddict (dbs s j)))" using assms(1) by (simp add: data_inv_def)
  have "total_keys s = card (dom (ddict (dbs s j))) + (\<Sum>i \<in> {..<dbnum s} - {j}. card (dom (ddict (dbs s i))))"
    unfolding total_keys_def using assms(4) by (simp add: sum.remove)
  moreover have "total_keys s' = card (dom (ddict (dbs s' j))) + (\<Sum>i \<in> {..<dbnum s} - {j}. card (dom (ddict (dbs s' i))))"
    unfolding total_keys_def assms(5) using assms(4) by (simp add: sum.remove)
  moreover have "(\<Sum>i \<in> {..<dbnum s} - {j}. card (dom (ddict (dbs s' i)))) =
      (\<Sum>i \<in> {..<dbnum s} - {j}. card (dom (ddict (dbs s i))))"
    by (rule sum.cong) (auto simp: d)
  moreover have "card (dom (ddict (dbs s j))) = Suc (card (dom (ddict (dbs s' j))))"
    using card_Suc_Diff1 [OF f k] by (simp add: d)
  ultimately show ?thesis by simp
qed

lemma evict_dbs_ok:
  assumes "samples_ok e U" and "all_keys_of s \<subseteq> U" and "data_inv s"
    and "set js \<subseteq> {..<dbnum s}"
  shows "\<exists>s' mf kf. evict_dbs e n js s mf0 kf0 = Some (s', mf, kf) \<and> evicted s s' \<and>
     kf0 \<le> kf \<and> total_keys s = total_keys s' + (kf - kf0)"
  using assms
proof (induction js arbitrary: s mf0 kf0)
  case Nil
  then show ?case by (simp add: evicted_refl)
next
  case (Cons j js)
  show ?case
  proof (cases "candidates j s = {}")
    case True
    then show ?thesis using Cons.IH [of s] Cons.prems by simp
  next
    case False
    obtain r where r: "best_key e n j s = Some r" "\<And>k. r = Some k \<Longrightarrow> k \<in> candidates j s"
      using best_key_ok [OF Cons.prems(3,1) False] keys_gone(2) [OF evicted_refl [OF Cons.prems(3)]] Cons.prems(2)
      by blast
    show ?thesis
    proof (cases r)
      case None
      then show ?thesis using Cons.IH [of s] Cons.prems False r(1) by simp
    next
    case (Some k)
    note k = r(1) [unfolded Some] r(2) [OF Some]
    obtain s1 where s1: "evict_key j k s = Some s1" "evicted s s1" "kv s1 = kv_upd s j k (None, None)"
      using evict_key_ok [OF Cons.prems(3) k(2)] by blast
    have p: "maxmemory_samples s1 = maxmemory_samples s" "dbnum s1 = dbnum s" "data_inv s1"
      using s1(2) st_policy st_inv by (auto simp: evicted_def)
    have t: "total_keys s = Suc (total_keys s1)"
      by (rule total_keys_evict [OF Cons.prems(3) s1(3) k(2)]) (use Cons.prems(4) p in auto)
    have U: "all_keys_of s1 \<subseteq> U" using keys_gone(1) [OF s1(2)] Cons.prems(2) by blast
    obtain s' mf kf where r: "evict_dbs e n js s1 (usize (int mf0 + freed e n j)) (kf0 + 1) = Some (s', mf, kf)"
      "evicted s1 s'" "kf0 + 1 \<le> kf" "total_keys s1 = total_keys s' + (kf - (kf0 + 1))"
      using Cons.IH [of s1 "usize (int mf0 + freed e n j)" "kf0 + 1"] Cons.prems p U by auto
    have "evict_dbs e n (j # js) s mf0 kf0 = Some (s', mf, kf)"
      using False k(1) s1(1) r(1) by simp
    moreover have "total_keys s = total_keys s' + (kf - kf0)" using t r(3,4) by linarith
    ultimately show ?thesis using evicted_trans [OF s1(2) r(2)] r(3) by auto
    qed
  qed
qed

lemma evict_loop_ok:
  assumes "samples_ok e U" and "all_keys_of s \<subseteq> U" and "data_inv s"
    and "total_keys s < fuel"
  shows "\<exists>s' ok. evict_loop fuel e n s f mf = Some (s', ok) \<and> evicted s s'"
  using assms
proof (induction fuel arbitrary: s n mf)
  case (Suc fuel)
  obtain s1 mf1 kf where r: "evict_dbs e n [0..<dbnum s] s mf 0 = Some (s1, mf1, kf)" "evicted s s1"
    "total_keys s = total_keys s1 + kf"
    using evict_dbs_ok [OF Suc.prems(1-3), of "[0..<dbnum s]" n mf 0] by (auto simp: atLeast0LessThan)
  have p: "maxmemory_samples s1 = maxmemory_samples s" "data_inv s1"
    using r(2) st_policy st_inv by (auto simp: evicted_def)
  show ?case
  proof (cases "kf = 0 \<or> \<not> mf < f")
    case True
    then show ?thesis using r evicted_refl [OF Suc.prems(3)] by auto
  next
    case False
    then have "total_keys s1 < fuel" using r(3) Suc.prems(4) by simp
    then obtain s2 ok where "evict_loop fuel e (n + 1) s1 f mf1 = Some (s2, ok)" "evicted s1 s2"
      using Suc.IH [of s1 "n + 1" mf1] Suc.prems(1,2) p subset_trans [OF keys_gone(1) [OF r(2)]] by auto
    then show ?thesis using r False evicted_trans [OF r(2)] by auto
  qed
qed simp

lemma freeMemory_evicted:
  assumes "data_inv s" and "samples_ok e (all_keys_of s)"
  shows "\<exists>s' ok. freeMemoryIfNeeded e s = Some (s', ok) \<and> evicted s s'"
  using evict_loop_ok [OF assms(2) order_refl assms(1)] evicted_refl [OF assms(1)]
  unfolding freeMemoryIfNeeded_def by (smt (verit, best) less_add_one)

text \<open>C17: freeing memory ends after at most as many rounds as there are keys, whatever the readings of the
  allocator; it never fails, removes keys and changes nothing else about them, spares the keys without
  an expire time under the volatile policies, and marks no transaction of a client that watches a
  removed key.\<close>

theorem freeMemoryIfNeeded_ok:
  assumes "data_inv s" and "samples_ok e (all_keys_of s)"
  shows "\<exists>s' ok. freeMemoryIfNeeded e s = Some (s', ok) \<and> data_inv s' \<and>
     (\<forall>j k. kv s' j k = kv s j k \<or> kv s' j k = (None, None)) \<and>
     (\<not> allkeys (maxmemory_policy s) \<longrightarrow> (\<forall>j k. snd (kv s j k) = None \<longrightarrow> kv s' j k = kv s j k)) \<and>
     (\<forall>c. REDIS_DIRTY_CAS \<in> cflags (clients s' c) \<longleftrightarrow> REDIS_DIRTY_CAS \<in> cflags (clients s c))"
proof -
  obtain s' ok where "freeMemoryIfNeeded e s = Some (s', ok)" "evicted s s'"
    using freeMemory_evicted [OF assms] by blast
  then show ?thesis using st_inv [of s s'] by (auto simp: evicted_def)
qed

end
