(* ===== verification/Conn_Cmd.thy ===== *)
theory Conn_Cmd
  imports Reply_Rules
begin

text \<open>
  The commands on the connection itself (\<open>redis.c\<close>): \<open>AUTH\<close> with its comparison in constant time, \<open>PING\<close>,
  \<open>ECHO\<close>.
\<close>

unbundle bit_operations_syntax

definition REDIS_AUTHPASS_MAX_LEN :: nat where "REDIS_AUTHPASS_MAX_LEN = 512"

text \<open>A copy of a C string in a cleared buffer, and the loop over both buffers; characters are promoted
  to \<open>int\<close>.\<close>

definition auth_buf :: "bytes \<Rightarrow> bytes" where
  "auth_buf a = a @ replicate (REDIS_AUTHPASS_MAX_LEN - length a) 0"

fun diff_loop :: "bytes \<Rightarrow> bytes \<Rightarrow> 32 word \<Rightarrow> 32 word" where
  "diff_loop (x # xs) (y # ys) diff = diff_loop xs ys (diff OR (scast x XOR scast y))"
| "diff_loop _ _ diff = diff"

definition time_independent_strcmp :: "bytes \<Rightarrow> bytes \<Rightarrow> 32 word" where
  "time_independent_strcmp a b =
     (if length a > REDIS_AUTHPASS_MAX_LEN \<or> length b > REDIS_AUTHPASS_MAX_LEN then 1
      else diff_loop (auth_buf a) (auth_buf b) 0 OR (of_nat (length a) XOR of_nat (length b)))"

definition authCommand :: "nat \<Rightarrow> 'o server \<Rightarrow> 'o server option" where
  "authCommand c s =
     (case requirepass s of
        None \<Rightarrow> Some (addReplyError c ''Client sent AUTH, but no password is set'' s)
      | Some pass \<Rightarrow> do {
          a \<leftarrow> arg s c 1;
          Some (if time_independent_strcmp (c_string a) pass = 0 then
              addReply c (Raw shared_ok) (upd_client c (\<lambda>cl. cl\<lparr>authenticated := True\<rparr>) s)
            else
              addReplyError c ''invalid password''
                (upd_client c (\<lambda>cl. cl\<lparr>authenticated := False\<rparr>) s)) })"

definition pingCommand :: "nat \<Rightarrow> 'o server \<Rightarrow> 'o server option" where
  "pingCommand c s = Some (addReply c (Raw shared_pong) s)"

definition echoCommand :: "nat \<Rightarrow> 'o server \<Rightarrow> 'o server option" where
  "echoCommand c s = do { a \<leftarrow> arg s c 1; Some (addReplyBulk c (Raw a) s) }"

lemma reply_other:
  "x \<noteq> c \<Longrightarrow> clients (addReply c obj s) x = clients s x"
  "x \<noteq> c \<Longrightarrow> clients (addReplyError c e s) x = clients s x"
  by (simp_all add: addReply_def addReplyError_def addReplyErrorLength_def addReplyStr_def put_out_def)

section \<open>The comparison in constant time\<close>

lemma or_zero_iff: "x OR y = 0 \<longleftrightarrow> x = 0 \<and> y = (0 :: 32 word)"
  by (simp add: bit_eq_iff bit_or_iff) blast

lemma xor_zero_iff: "x XOR y = 0 \<longleftrightarrow> x = (y :: 32 word)"
  by (simp add: bit_eq_iff bit_xor_iff)

lemma scast_byte_eq: "(scast x :: 32 word) = scast y \<longleftrightarrow> x = (y :: byte)"
proof
  assume e: "(scast x :: 32 word) = scast y"
  show "x = y"
  proof (rule bit_eqI)
    fix n assume "possible_bit TYPE(byte) n"
    then have "n < 8" by simp
    then show "bit x n = bit y n"
      using arg_cong [OF e, of "\<lambda>w. bit w n"] by (cases "n = 7") (simp_all add: bit_signed_iff min_def)
  qed
qed simp

lemma diff_loop_zero:
  "length a = length b \<Longrightarrow> diff_loop a b d = 0 \<longleftrightarrow> d = 0 \<and> a = b"
proof (induction a b d rule: diff_loop.induct)
  case (1 x xs y ys d)
  then show ?case by (auto simp: or_zero_iff xor_zero_iff scast_byte_eq)
qed auto

lemma strcmp_zero:
  assumes "length b \<le> REDIS_AUTHPASS_MAX_LEN"
  shows "time_independent_strcmp a b = 0 \<longleftrightarrow> a = b"
proof (cases "length a \<le> REDIS_AUTHPASS_MAX_LEN")
  case True
  have n: "(of_nat (length a) :: 32 word) = of_nat (length b) \<longleftrightarrow> length a = length b"
    using True assms by (simp add: word_of_nat_eq_iff REDIS_AUTHPASS_MAX_LEN_def take_bit_nat_eq_self)
  have "auth_buf a = auth_buf b \<and> length a = length b \<longleftrightarrow> a = b"
    by (auto simp: auth_buf_def)
  then show ?thesis
    using True assms
    by (simp add: time_independent_strcmp_def or_zero_iff xor_zero_iff n diff_loop_zero auth_buf_def)
next
  case False
  then show ?thesis using assms by (auto simp: time_independent_strcmp_def)
qed



end
