(* ===== verification/Sys_Inv.thy ===== *)
theory Sys_Inv
  imports Multi Evict Conn_Cmd
begin

text \<open>
  The invariant of the server between commands and what every command does to it: \<open>kept c s s'\<close> says that a
  command of client \<open>c\<close> led from \<open>s\<close> to a state \<open>s'\<close> in which the invariant holds, left the other
  clients alone except for replies and signals, and left the queue of \<open>c\<close> alone or emptied it. The
  contract of a command is the locale \<open>command\<close>; the commands of the theories String_Cmd, Db_Cmd, Pubsub,
  Multi and Conn_Cmd meet it.
\<close>

section \<open>The invariant\<close>

text \<open>The order of an iterator lists every key once.\<close>

definition order_ok :: "'o server \<Rightarrow> bool" where
  "order_ok s \<longleftrightarrow> (\<forall>A. finite A \<longrightarrow> distinct (dict_order s A) \<and> set (dict_order s A) = A)"

text \<open>The table of commands is the built-in one, and scheduled propagations can be fed.\<close>

definition feedable :: "redisCommand \<Rightarrow> bytes list \<Rightarrow> bool" where
  "feedable cm av \<longleftrightarrow> (expire_proc cm \<longrightarrow> 3 \<le> length av) \<and> (setex_proc cm \<longrightarrow> 4 \<le> length av)"

definition tables_ok :: "'o server \<Rightarrow> bool" where
  "tables_ok s \<longleftrightarrow> populateCommandTable = Some (commands s) \<and> orig_commands s = commands s \<and>
     (\<forall>(cm, (j, av), aof, repl) \<in> set (also_propagate s). feedable cm av)"

definition core_inv :: "'o server \<Rightarrow> bool" where
  "core_inv s \<longleftrightarrow> data_inv s \<and> watch_inv s \<and> pubsub_inv s \<and> order_ok s \<and> tables_ok s \<and>
     lua_caller s = None \<and> (\<forall>c \<in> set (client_list s). cdb (clients s c) < dbnum s)"

definition known_cmd :: "redisCommand \<Rightarrow> bool" where
  "known_cmd cm \<longleftrightarrow> cm \<in> command_row ` set redisCommandTable"

definition args_len :: "bytes list \<Rightarrow> bool" where
  "args_len av \<longleftrightarrow> (\<forall>a \<in> set av. length a \<le> PROTO_MAX)"

definition cmd_ok :: "client \<Rightarrow> bool" where
  "cmd_ok cl \<longleftrightarrow> args_len (argv cl) \<and>
     (\<exists>cm. cmd cl = Some cm \<and> known_cmd cm \<and> arity_ok cm (length (argv cl)))"

definition kept :: "nat \<Rightarrow> 'o server \<Rightarrow> 'o server \<Rightarrow> bool" where
  "kept c s s' \<longleftrightarrow> core_inv s' \<and> client_list s' = client_list s \<and> dbnum s' = dbnum s \<and>
     (\<forall>x. x \<noteq> c \<longrightarrow> client_frame (clients s x) (clients s' x)) \<and>
     (mstate (clients s' c) = mstate (clients s c) \<and>
        (REDIS_MULTI \<in> cflags (clients s c) \<longrightarrow> REDIS_MULTI \<in> cflags (clients s' c)) \<or>
      mstate (clients s' c) = []) \<and>
     querybuf (clients s' c) = querybuf (clients s c) \<and>
     (cmd_ok (clients s c) \<longrightarrow> cmd_ok (clients s' c))"

lemma kept_refl: "core_inv s \<Longrightarrow> kept c s s"
  by (simp add: kept_def)

lemma kept_inv: "kept c s s' \<Longrightarrow> core_inv s'"
  by (simp add: kept_def)

lemma kept_trans: "kept c s s1 \<Longrightarrow> kept c s1 s2 \<Longrightarrow> kept c s s2"
  unfolding kept_def by (auto intro: client_frame_trans)

text \<open>The invariant depends only on what the frames preserve, and on the data.\<close>

lemma core_inv_frm:
  assumes "core_inv s" and "frm s s'" and "data_inv s'"
  shows "core_inv s'"
  using assms watch_inv_frm [OF assms(2)] pubsub_inv_frm [OF assms(2)]
  by (auto simp: core_inv_def order_ok_def tables_ok_def frm_def srv_frame_def client_frame_def)

lemma client_frame_cmd_ok: "client_frame a b \<Longrightarrow> cmd_ok b = cmd_ok a"
  by (simp add: client_frame_def cmd_ok_def)

lemma kept_st: "core_inv s \<Longrightarrow> st s s' \<Longrightarrow> kept c s s'"
  using core_inv_frm [of s s'] client_frame_cmd_ok
  by (auto simp: kept_def st_def frm_def srv_frame_def client_frame_def cmd_ok_def)

lemma core_data: "core_inv s \<Longrightarrow> data_inv s"
  by (simp add: core_inv_def)

lemma kept_quiet: "core_inv s \<Longrightarrow> quiet s s' \<Longrightarrow> kept c s s'"
  by (rule kept_st) (auto intro: quiet_st st_refl core_data)

lemma holds_kept_quiet: "core_inv s \<Longrightarrow> quiet s s' \<Longrightarrow> holds (Some s') (kept c s)"
  by (simp add: holds_def kept_quiet)

text \<open>Changes of the fields that are not part of the frames.\<close>

definition same_state :: "'o server \<Rightarrow> 'o server \<Rightarrow> bool" where
  "same_state s s' \<longleftrightarrow> dbs s' = dbs s \<and> clients s' = clients s \<and> client_list s' = client_list s \<and>
     dbnum s' = dbnum s \<and> srv_channels s' = srv_channels s \<and> srv_patterns s' = srv_patterns s \<and>
     commands s' = commands s \<and> orig_commands s' = orig_commands s \<and> dict_order s' = dict_order s \<and>
     lua_caller s' = lua_caller s \<and> also_propagate s' = also_propagate s"

lemma core_inv_same: "same_state s s' \<Longrightarrow> core_inv s' = core_inv s"
  by (simp add: same_state_def core_inv_def data_inv_def watch_inv_def watchers_def pubsub_inv_def
      subscribers_def order_ok_def tables_ok_def)

lemma kept_same: "core_inv s \<Longrightarrow> same_state s s' \<Longrightarrow> kept c s s'"
  using core_inv_same [of s s'] by (auto simp: kept_def same_state_def)

section \<open>The contract of a command\<close>

text \<open>A command may be called when the invariant holds, the client is connected and its argument vector
  fits an entry of the table that has this function; \<open>pre\<close> excludes the inputs for which the code is
  known to fail.\<close>

locale command =
  fixes f :: "nat \<Rightarrow> 'o server \<Rightarrow> 'o server option" and pre :: "'o server \<Rightarrow> nat \<Rightarrow> bool" and n :: nat
  assumes runs: "core_inv s \<Longrightarrow> c \<in> set (client_list s) \<Longrightarrow> args_ok s c n \<Longrightarrow> pre s c \<Longrightarrow> holds (f c s) (kept c s)"

text \<open>Most commands are programs of the theories before, whose steps stay within \<open>st\<close>.\<close>

lemma command_st:
  assumes "\<And>s c. data_inv s \<Longrightarrow> watch_inv s \<Longrightarrow> c \<in> set (client_list s) \<Longrightarrow> cdb (clients s c) < dbnum s \<Longrightarrow>
    args_ok s c n \<Longrightarrow> pre s c \<Longrightarrow> holds (f c s) (st s)"
  shows "command f pre n"
  by unfold_locales (rule holds_mono [OF assms], auto simp: core_inv_def intro: kept_st)

lemma command_good:
  assumes "\<And>s c. data_inv s \<Longrightarrow> args_ok s c n \<Longrightarrow> pre s c \<Longrightarrow> holds (f c s) (good s)"
  shows "command f pre n"
  by (rule command_st, rule holds_mono [OF assms]) (simp_all add: good_def)

lemma command_ro:
  assumes "\<And>s c. data_inv s \<Longrightarrow> args_ok s c n \<Longrightarrow> pre s c \<Longrightarrow> holds (f c s) (ro s)"
  shows "command f pre n"
  by (rule command_st, rule holds_mono [OF assms]) (simp_all add: ro_def)

section \<open>Strings\<close>

definition setrange_safe :: "bytes list \<Rightarrow> bool" where
  "setrange_safe av \<longleftrightarrow>
     (\<forall>n. getLongLongFromObject (Some (Raw (av ! 2))) = Some n \<longrightarrow> n + int (length (av ! 3)) \<le> LLONG_MAX)"

definition getrange_safe :: "bytes list \<Rightarrow> bool" where
  "getrange_safe av \<longleftrightarrow> (\<forall>n. getLongLongFromObject (Some (Raw (av ! 3))) = Some n \<longrightarrow> n < 2 ^ 32)"

lemma string_commands:
  "command setCommand P 3" "command setnxCommand P 3" "command setexCommand P 4" "command psetexCommand P 4"
  "command getsetCommand P 3" "command incrCommand P 2" "command decrCommand P 2" "command incrbyCommand P 3"
  "command decrbyCommand P 3" "command appendCommand P 3" "command msetCommand P 3" "command msetnxCommand P 3"
  by (auto intro!: command_good setCommand_good setnxCommand_good setexCommand_good psetexCommand_good
      getsetCommand_good incr_good incrby_good appendCommand_good mset_good elim: args_ok_mono)

lemma string_reads:
  "command getCommand P 2" "command strlenCommand P 2" "command mgetCommand P 2"
  by (auto intro!: command_ro getCommand_ro strlenCommand_ro mgetCommand_ro)

lemma range_commands:
  "command setrangeCommand (\<lambda>s c. setrange_safe (argv (clients s c))) 4"
  "command getrangeCommand (\<lambda>s c. getrange_safe (argv (clients s c))) 4"
proof -
  show "command setrangeCommand (\<lambda>s c. setrange_safe (argv (clients s c))) 4"
    by (rule command_good, rule setrangeCommand_good)
      (auto simp: setrange_no_wrap_def setrange_safe_def arg_def split: if_splits)
  show "command getrangeCommand (\<lambda>s c. getrange_safe (argv (clients s c))) 4"
    by (rule command_ro, rule getrangeCommand_ro)
      (auto simp: getrange_no_trunc_def getrange_safe_def arg_def split: if_splits)
qed

section \<open>Keys\<close>

lemma key_commands:
  "command delCommand P 2" "command renameCommand P 3" "command renamenxCommand P 3"
  unfolding renameCommand_def renamenxCommand_def
  by (auto intro!: command_good delCommand_good renameGeneric_good)

lemma key_reads:
  "command existsCommand P 2" "command typeCommand P 2" "command ttlCommand P 2" "command pttlCommand P 2"
  "command dbsizeCommand P 1" "command lastsaveCommand P 1"
  unfolding ttlCommand_def pttlCommand_def
  by (auto intro!: command_ro existsCommand_ro typeCommand_ro ttlGeneric_ro size_ro)

lemma keys_command: "command keysCommand (\<lambda>s c. pat_safe (argv (clients s c) ! 1)) 2"
  by (rule command_ro, rule keysCommand_ro) (auto simp: arg_def split: if_splits)

lemma flushdb_command: "command flushdbCommand P 1"
  by (rule command_st, rule holds_mono [OF flushdb_good]) (simp_all add: good_def)

lemma move_command: "command moveCommand P 3"
  by (rule command_st, rule holds_mono [OF moveCommand_st]) auto

text \<open>\<open>PERSIST\<close> does not even look whether the key has expired.\<close>

lemma st_count: "st s0 s \<Longrightarrow> st s0 ((addReply c r s)\<lparr>dirty := dirty s + 1\<rparr>)"
  using st_upd(1) [OF quiet_st [OF _ quiet_addReply], of s0 s c r] by simp

lemma persistCommand_st:
  assumes "data_inv s" and "args_ok s c 2"
  shows "holds (persistCommand c s) (\<lambda>s'. st s s' \<and> touched s' = touched s)"
proof -
  obtain k where k: "arg s c 1 = Some k" using arg_Some [OF assms(2), of 1] by auto
  show ?thesis
    unfolding persistCommand_def Let_def k bind.simps
    by (simp (no_asm) only: option.case prod.case | rule wp conjI | assumption
        | rule st_count sti st_refl assms(1) | (simp; fail) | (split if_split, intro conjI impI))+
qed

lemma persist_command: "command persistCommand P 2"
  by (rule command_st, rule holds_mono [OF persistCommand_st]) auto

section \<open>Changes of the calling client\<close>

lemma core_inv_upd:
  assumes "core_inv s" and "watched_keys (f (clients s c)) = watched_keys (clients s c)"
    and "pubsub_channels (f (clients s c)) = pubsub_channels (clients s c)"
    and "pubsub_patterns (f (clients s c)) = pubsub_patterns (clients s c)"
    and "c \<in> set (client_list s) \<Longrightarrow> cdb (f (clients s c)) < dbnum s"
  shows "core_inv (upd_client c f s)"
proof -
  have e: "watched_keys (clients (upd_client c f s) x) = watched_keys (clients s x)"
    "pubsub_channels (clients (upd_client c f s) x) = pubsub_channels (clients s x)"
    "pubsub_patterns (clients (upd_client c f s) x) = pubsub_patterns (clients s x)" for x
    using assms(2-4) by (simp_all add: upd_client_def)
  have o: "dbs (upd_client c f s) = dbs s" "client_list (upd_client c f s) = client_list s"
    "srv_channels (upd_client c f s) = srv_channels s" "srv_patterns (upd_client c f s) = srv_patterns s"
    by (simp_all add: upd_client_def)
  have "watch_inv (upd_client c f s) = watch_inv s"
    unfolding watch_inv_def watchers_def e o ..
  moreover have "pubsub_inv (upd_client c f s) = pubsub_inv s"
    unfolding pubsub_inv_def subscribers_def e o ..
  ultimately show ?thesis
    using assms(1,5) by (auto simp: core_inv_def data_inv_def order_ok_def tables_ok_def upd_client_def)
qed

lemma kept_upd:
  assumes "core_inv s" and "watched_keys (f (clients s c)) = watched_keys (clients s c)"
    and "pubsub_channels (f (clients s c)) = pubsub_channels (clients s c)"
    and "pubsub_patterns (f (clients s c)) = pubsub_patterns (clients s c)"
    and "c \<in> set (client_list s) \<Longrightarrow> cdb (f (clients s c)) < dbnum s"
    and "mstate (f (clients s c)) = mstate (clients s c) \<and>
        (REDIS_MULTI \<in> cflags (clients s c) \<longrightarrow> REDIS_MULTI \<in> cflags (f (clients s c))) \<or>
      mstate (f (clients s c)) = []"
    and "querybuf (f (clients s c)) = querybuf (clients s c)"
    and "cmd_ok (clients s c) \<Longrightarrow> cmd_ok (f (clients s c))"
  shows "kept c s (upd_client c f s)"
  using core_inv_upd [where f = f, OF assms(1-5)] assms(6-8) by (auto simp: kept_def upd_client_def)

lemma kept_flags:
  assumes "core_inv s" and "REDIS_MULTI \<in> cflags (clients s c) \<Longrightarrow> REDIS_MULTI \<in> F (cflags (clients s c))"
  shows "kept c s (upd_client c (\<lambda>cl. cl\<lparr>cflags := F (cflags cl)\<rparr>) s)"
  using assms by (intro kept_upd) (auto simp: core_inv_def cmd_ok_def)

lemma kept_holds_trans: "kept c s s1 \<Longrightarrow> holds m (kept c s1) \<Longrightarrow> holds m (kept c s)"
  by (auto simp: holds_def intro: kept_trans)

lemma core_db: "core_inv s \<Longrightarrow> c \<in> set (client_list s) \<Longrightarrow> cdb (clients s c) < dbnum s"
  by (simp add: core_inv_def)

text \<open>What is found in the table.\<close>

lemma populated:
  assumes "populateCommandTable = Some d"
  shows "r \<in> set redisCommandTable \<Longrightarrow> d (cstr (cname r)) = Some (command_row r)"
    and "d k = Some cm \<Longrightarrow> known_cmd cm"
proof -
  obtain d' where d': "populate_loop redisCommandTable Map.empty = Some d'"
    "\<forall>c \<in> set redisCommandTable. d' (cstr (cname c)) = Some (command_row c)"
    "\<forall>k. k \<notin> (cstr \<circ> cname) ` set redisCommandTable \<longrightarrow> d' k = Map.empty k"
    using populate_loop_spec [OF table_rows table_names, of Map.empty] by auto
  have e: "d' = d" using d'(1) assms by (simp add: populateCommandTable_def)
  show "r \<in> set redisCommandTable \<Longrightarrow> d (cstr (cname r)) = Some (command_row r)"
    using d'(2) e by simp
  show "known_cmd cm" if "d k = Some cm"
  proof -
    have "k \<in> (cstr \<circ> cname) ` set redisCommandTable"
    proof (rule ccontr)
      assume "k \<notin> (cstr \<circ> cname) ` set redisCommandTable"
      then have "d' k = None" using d'(3) by simp
      then show False using that e by simp
    qed
    then obtain r where r: "r \<in> set redisCommandTable" "k = cstr (cname r)" by (rule imageE) simp
    then have "cm = command_row r" using d'(2) e that by simp
    then show ?thesis using r(1) by (simp add: known_cmd_def)
  qed
qed

lemma del_cmd_row: "tables_ok s \<Longrightarrow> del_cmd s = Some server_delCommand \<and> known_cmd server_delCommand"
proof -
  let ?r = "entry ''del'' ''delCommand'' (- 2) ''w'' NoPreloadGetKeys 1 (- 1) 1"
  assume t: "tables_ok s"
  have r: "?r \<in> set redisCommandTable" by (simp add: redisCommandTable_def)
  have "command_key (cstr ''DEL'') = cstr ''del''" by (simp add: command_key_def tolower_def)
  then have "lookupCommand (commands s) (cstr ''DEL'') = Some (command_row ?r)"
    using populated(1) [OF _ r] t by (simp add: tables_ok_def lookupCommand_def)
  then show ?thesis
    using r by (auto simp: del_cmd_def lookupCommandOrOriginal_def server_delCommand_def known_cmd_def)
qed

lemma kept_with_del:
  assumes "core_inv s" and "a \<in> set (argv (clients s c))"
  shows "kept c s (with_argv c [cstr ''DEL'', a] (del_cmd s) s)"
proof -
  have d: "del_cmd s = Some server_delCommand" "known_cmd server_delCommand"
    using del_cmd_row assms(1) by (auto simp: core_inv_def)
  have "arity_ok server_delCommand (Suc (Suc 0))" by (simp add: arity_ok_def server_delCommand_def command_row_def)
  then have new: "cmd_ok ((clients s c)\<lparr>argv := [cstr ''DEL'', a], cmd := del_cmd s\<rparr>)" if "args_len (argv (clients s c))"
    using that assms(2) d by (simp add: cmd_ok_def args_len_def PROTO_MAX_def)
  show ?thesis
    unfolding with_argv_def
    by (rule kept_upd [OF assms(1)]) (use core_db [OF assms(1)] new in \<open>simp_all add: cmd_ok_def\<close>)
qed

lemma expire_generic:
  fixes b :: "'o server \<Rightarrow> int"
  shows "command (\<lambda>c s. expireGenericCommand c (b s) u s) P 3"
proof
  fix s :: "'o server" and c assume a: "core_inv s" "args_ok s c 3"
  have d: "del_known s" using del_cmd_row a(1) by (auto simp: core_inv_def del_known_def)
  show "holds (expireGenericCommand c (b s) u s) (kept c s)"
  proof (rule holds_mono [OF expireGeneric_good [OF core_data [OF a(1)] a(2) d]])
    fix s' assume "good_argv c s s'"
    then consider "good s s'" | x where "x \<in> set (argv (clients s c))" "good (with_argv c [cstr ''DEL'', x] (del_cmd s) s) s'"
      by (auto simp: good_argv_def)
    then show "kept c s s'"
    proof cases
      case 1
      then show ?thesis using a(1) by (auto simp: good_def intro: kept_st)
    next
      case 2
      note k = kept_with_del [OF a(1) 2(1)]
      show ?thesis using 2(2) by (intro kept_trans [OF k] kept_st [OF kept_inv [OF k]]) (simp add: good_def)
    qed
  qed
qed

lemma expire_commands:
  "command expireCommand P 3" "command expireatCommand P 3" "command pexpireCommand P 3" "command pexpireatCommand P 3"
proof -
  have e: "expireCommand = (\<lambda>c s. expireGenericCommand c (mstime s) UNIT_SECONDS s)"
    "expireatCommand = (\<lambda>c s. expireGenericCommand c 0 UNIT_SECONDS s)"
    "pexpireCommand = (\<lambda>c s. expireGenericCommand c (mstime s) UNIT_MILLISECONDS s)"
    "pexpireatCommand = (\<lambda>c s. expireGenericCommand c 0 UNIT_MILLISECONDS s)"
    by (simp_all add: fun_eq_iff expireCommand_def expireatCommand_def pexpireCommand_def pexpireatCommand_def)
  show "command expireCommand P 3" "command expireatCommand P 3" "command pexpireCommand P 3" "command pexpireatCommand P 3"
    unfolding e by (rule expire_generic)+
qed

section \<open>Database selection and flushing\<close>

lemma kept_then_quiet: "kept c s s1 \<Longrightarrow> quiet s1 s2 \<Longrightarrow> kept c s s2"
  by (rule kept_trans, assumption, rule kept_quiet [OF kept_inv])

lemma select_command: "command selectCommand P 2"
proof
  fix s :: "'o server" and c assume a: "core_inv s" "args_ok s c 2" "c \<in> set (client_list s)"
  obtain t where t: "arg s c 1 = Some t" using arg_Some [OF a(2), of 1] by auto
  obtain s1 r where r: "getLongFromObjectOrReply c (Some (Raw t)) (Some ''invalid DB index'') s = (s1, r)" by force
  have q: "quiet s s1"
    using r getLongLong_quiet(1) [of c "Some (Raw t)" "Some ''invalid DB index''" s]
    by (auto simp: getLongFromObjectOrReply_def split: prod.splits option.splits if_splits
        intro: quiet_trans [OF _ quiet_replies(2)])
  note k1 = kept_quiet [OF a(1) q, of c]
  have "kept c s (fst (selectDb c n s1))" for n
    unfolding selectDb_def
    using k1 kept_inv [OF k1] by (auto intro!: kept_trans [OF k1] kept_upd simp: cmd_ok_def)
  then have k2: "kept c s x" if "selectDb c n s1 = (x, b)" for n x b using that by (metis fst_conv)
  then show "holds (selectCommand c s) (kept c s)"
    using k1 by (cases r) (auto simp: selectCommand_def t [unfolded One_nat_def] r holds_def
        intro: kept_then_quiet [OF k2 quiet_addReply] kept_then_quiet [OF k2 quiet_replies(2)] split: prod.splits)
qed

lemma kept_then_same: "kept c s s1 \<Longrightarrow> same_state s1 s2 \<Longrightarrow> kept c s s2"
  by (rule kept_trans, assumption, rule kept_same [OF kept_inv])

lemma flushall_command: "command (flushallCommand e) P 1"
proof
  fix s :: "'o server" and c assume a: "core_inv s"
  define s1 where "s1 = emptied {..<dbnum s} (signalFlushedDb (- 1) s)"
  have "st s s1"
    unfolding s1_def by (intro st_emptied st_signal_flush st_refl core_data a)
  note k1 = kept_st [OF a this, of c]
  define n where "n = (\<Sum>j<dbnum s. db_size j (signalFlushedDb (- 1) s))"
  define s2 where "s2 = addReply c (Raw shared_ok) (s1\<lparr>dirty := dirty s + n\<rparr>)"
  have "kept c s (s1\<lparr>dirty := dirty s + n\<rparr>)" by (rule kept_then_same [OF k1]) (simp add: same_state_def)
  then have k2: "kept c s s2" unfolding s2_def by (rule kept_then_quiet) (rule quiet_addReply)
  have "kept c s (rdbSave e s2)"
    unfolding rdbSave_def using k2 kept_then_same [OF k2, of "s2\<lparr>dirty := 0, lastsave := mstime s2 div 1000, lastbgsave_ok := True\<rparr>"]
    by (simp add: same_state_def)
  then have "kept c s ((rdbSave e s2)\<lparr>dirty := m\<rparr>)" for m by (rule kept_then_same) (simp add: same_state_def)
  then have k3: "kept c s (if saveparamslen s2 > 0 then (rdbSave e s2)\<lparr>dirty := s32 (dirty s2)\<rparr> else s2)"
    using k2 by simp
  have "kept c s (x\<lparr>dirty := dirty x + 1\<rparr>)" if "kept c s x" for x
    by (rule kept_then_same [OF that]) (simp add: same_state_def)
  note k4 = this [OF k3]
  have "dirty s1 = dirty s" "dbs (signalFlushedDb (- 1) s) = dbs s" by (simp_all add: s1_def flush_signal)
  with k4 show "holds (flushallCommand e c s) (kept c s)"
    by (cases "saveparamslen s2 = 0") (simp_all add: flushallCommand_def Let_def emptyDb_eq flush_signal s1_def [symmetric] n_def [symmetric]
        s2_def [symmetric] holds_def)
qed

section \<open>The connection\<close>

lemma conn_commands: "command pingCommand P 1" "command echoCommand P 2" "command authCommand P 2"
proof -
  show "command pingCommand P 1"
    by unfold_locales (auto simp: pingCommand_def intro: holds_kept_quiet quiet_addReply)
  show "command echoCommand P 2"
    by unfold_locales (auto simp: echoCommand_def dest!: arg_Some [where i = 1]
        intro!: holds_kept_quiet quiet_replies)
  show "command authCommand P 2"
  proof
    fix s :: "'o server" and c assume a: "core_inv s" "args_ok s c 2"
    obtain t where t: "arg s c 1 = Some t" using arg_Some [OF a(2), of 1] by auto
    have k: "kept c s (upd_client c (\<lambda>cl. cl\<lparr>authenticated := b\<rparr>) s)" for b
      using a(1) by (intro kept_upd) (auto simp: cmd_ok_def core_inv_def)
    show "holds (authCommand c s) (kept c s)"
      using a(1) k kept_then_quiet [OF k quiet_addReply] kept_then_quiet [OF k quiet_replies(2)]
        kept_quiet [OF a(1) quiet_replies(2)]
      by (auto simp: authCommand_def t [unfolded One_nat_def] holds_def split: option.splits)
  qed
qed

section \<open>Subscriptions\<close>

text \<open>Only subscriptions of the client change.\<close>

definition only_subs :: "nat \<Rightarrow> 'o server \<Rightarrow> 'o server \<Rightarrow> bool" where
  "only_subs c s s' \<longleftrightarrow> dbs s' = dbs s \<and> client_list s' = client_list s \<and> dbnum s' = dbnum s \<and>
     commands s' = commands s \<and> orig_commands s' = orig_commands s \<and> dict_order s' = dict_order s \<and>
     lua_caller s' = lua_caller s \<and> also_propagate s' = also_propagate s \<and> (\<forall>x. x \<noteq> c \<longrightarrow> clients s' x = clients s x) \<and>
     watched_keys (clients s' c) = watched_keys (clients s c) \<and> cdb (clients s' c) = cdb (clients s c) \<and>
     mstate (clients s' c) = mstate (clients s c) \<and> cflags (clients s' c) = cflags (clients s c) \<and>
     cmd (clients s' c) = cmd (clients s c) \<and> argv (clients s' c) = argv (clients s c) \<and>
     querybuf (clients s' c) = querybuf (clients s c)"

lemma only_subs_changes:
  "only_subs c s (add_chan c x s)" "only_subs c s (del_chan c x s)"
  "only_subs c s (add_pat c x s)" "only_subs c s (del_pat c x s)"
  by (simp_all add: only_subs_def sub_defs upd_client_def)

lemma kept_sub:
  assumes "core_inv s" and "only_subs c s s'" and "pubsub_inv s'" and "data_inv s'"
  shows "kept c s s'"
proof -
  have e: "watched_keys (clients s' x) = watched_keys (clients s x)" "cdb (clients s' x) = cdb (clients s x)" for x
    using assms(2) by (cases "x = c"; simp add: only_subs_def)+
  have o: "dbs s' = dbs s" "client_list s' = client_list s" using assms(2) by (simp_all add: only_subs_def)
  have "watch_inv s' = watch_inv s" unfolding watch_inv_def watchers_def e o ..
  then have "core_inv s'"
    using assms e by (simp add: core_inv_def only_subs_def order_ok_def tables_ok_def)
  then show ?thesis using assms(2) by (simp add: kept_def only_subs_def cmd_ok_def)
qed

lemma kept_sub_changes:
  assumes "core_inv s" and "c \<in> set (client_list s)"
  shows "x \<notin> set (pubsub_channels (clients s c)) \<Longrightarrow> kept c s (add_chan c x s)"
    and "kept c s (del_chan c x s)"
    and "x \<notin> set (pubsub_patterns (clients s c)) \<Longrightarrow> pat_safe x \<Longrightarrow> kept c s (add_pat c x s)"
    and "kept c s (del_pat c x s)"
proof -
  have p: "pubsub_inv s" "data_inv s" using assms(1) by (auto simp: core_inv_def)
  have d: "data_inv (add_chan c x s)" "data_inv (del_chan c x s)" "data_inv (del_pat c x s)"
    "pat_safe x \<Longrightarrow> data_inv (add_pat c x s)"
    using p(2) notin_set_remove1 by (fastforce simp: data_inv_def sub_defs upd_client_def)+
  note k = kept_sub [OF assms(1)]
  show "x \<notin> set (pubsub_channels (clients s c)) \<Longrightarrow> kept c s (add_chan c x s)"
    and "kept c s (del_chan c x s)"
    and "x \<notin> set (pubsub_patterns (clients s c)) \<Longrightarrow> pat_safe x \<Longrightarrow> kept c s (add_pat c x s)"
    and "kept c s (del_pat c x s)"
    by (simp_all add: k only_subs_changes d add_chan_inv del_chan_inv add_pat_inv del_pat_inv p assms)
qed

lemma kept_list: "kept c s s' \<Longrightarrow> client_list s' = client_list s"
  by (simp add: kept_def)

lemma kept_subscribe:
  assumes "core_inv s" and "c \<in> set (client_list s)"
  shows "kept c s (fst (pubsubSubscribeChannel c x s))"
    and "pat_safe x \<Longrightarrow> kept c s (fst (pubsubSubscribePattern c x s))"
  using kept_sub_changes [OF assms] kept_quiet [OF assms(1) quiet_sub_reply]
  by (auto simp: subscribe_eq intro: kept_then_quiet [OF _ quiet_sub_reply])

lemma kept_unsubscribe:
  assumes "core_inv s" and "c \<in> set (client_list s)"
  shows "holds (pubsubUnsubscribeChannel c x notify s) (\<lambda>(s', n). kept c s s')"
    and "holds (pubsubUnsubscribePattern c x notify s) (\<lambda>(s', n). kept c s s')"
  using kept_sub_changes [OF assms] kept_refl [OF assms(1)] kept_quiet [OF assms(1)] assms
  by (auto simp: unsubscribe_eq [OF _ assms(2)] core_inv_def holds_def Let_def
      intro: kept_then_quiet [OF _ quiet_sub_reply])

lemma kept_fold:
  assumes "core_inv s" and "c \<in> set (client_list s)"
    and "\<And>x s. x \<in> set xs \<Longrightarrow> core_inv s \<Longrightarrow> c \<in> set (client_list s) \<Longrightarrow> kept c s (f x s)"
  shows "kept c s (fold f xs s)"
  using assms
proof (induction xs arbitrary: s)
  case (Cons x xs)
  have k: "kept c s (f x s)" using Cons.prems by simp
  show ?case
    using Cons.IH [of "f x s"] k kept_inv [OF k] kept_list [OF k] Cons.prems by (auto intro: kept_trans)
qed (simp add: kept_refl)

lemma kept_unsub_loops:
  assumes "core_inv s" and "c \<in> set (client_list s)"
  shows "holds (unsub_channels c xs notify s n) (\<lambda>(s', m). kept c s s')"
    and "holds (unsub_patterns c xs notify s n) (\<lambda>(s', m). kept c s s')"
proof -
  show "holds (unsub_channels c xs notify s n) (\<lambda>(s', m). kept c s s')"
    using assms
  proof (induction xs arbitrary: s n)
    case (Cons x xs)
    obtain s1 r where s1: "pubsubUnsubscribeChannel c x notify s = Some (s1, r)" "kept c s s1"
      using kept_unsubscribe(1) [OF Cons.prems, of x notify] by (auto simp: holds_def)
    show ?case
      using Cons.IH [OF kept_inv [OF s1(2)], of "n + r"] kept_list [OF s1(2)] Cons.prems(2) s1
      by (auto simp: holds_def intro: kept_trans)
  qed (simp add: holds_def kept_refl)
  show "holds (unsub_patterns c xs notify s n) (\<lambda>(s', m). kept c s s')"
    using assms
  proof (induction xs arbitrary: s n)
    case (Cons x xs)
    obtain s1 r where s1: "pubsubUnsubscribePattern c x notify s = Some (s1, r)" "kept c s s1"
      using kept_unsubscribe(2) [OF Cons.prems, of x notify] by (auto simp: holds_def)
    show ?case
      using Cons.IH [OF kept_inv [OF s1(2)], of "n + r"] kept_list [OF s1(2)] Cons.prems(2) s1
      by (auto simp: holds_def intro: kept_trans)
  qed (simp add: holds_def kept_refl)
qed

lemma kept_unsub_all:
  assumes "core_inv s" and "c \<in> set (client_list s)"
  shows "holds (pubsubUnsubscribeAllChannels c notify s) (\<lambda>(s', m). kept c s s')"
    and "holds (pubsubUnsubscribeAllPatterns c notify s) (\<lambda>(s', m). kept c s s')"
proof -
  have *: "holds (m \<bind> (\<lambda>(s, n). Some (if notify \<and> n = 0 then sub_reply c kind None s else s, n))) (\<lambda>(s', m). kept c s s')"
    if "holds m (\<lambda>(s', m). kept c s s')" for m :: "('a server \<times> nat) option" and kind
    using that by (auto simp: holds_def intro: kept_then_quiet [OF _ quiet_sub_reply])
  show "holds (pubsubUnsubscribeAllChannels c notify s) (\<lambda>(s', m). kept c s s')"
    and "holds (pubsubUnsubscribeAllPatterns c notify s) (\<lambda>(s', m). kept c s s')"
    unfolding pubsubUnsubscribeAllChannels_def pubsubUnsubscribeAllPatterns_def
    by (rule *, rule kept_unsub_loops [OF assms])+
qed

lemma holds_map_fst: "holds m (\<lambda>(s', n). P s') \<Longrightarrow> holds (map_option fst m) P"
  by (auto simp: holds_def)

lemma subscribe_commands:
  "command subscribeCommand P 2" "command unsubscribeCommand P 1" "command punsubscribeCommand P 1"
  "command psubscribeCommand (\<lambda>s c. \<forall>p \<in> set (drop 1 (argv (clients s c))). pat_safe p) 2"
proof -
  show "command subscribeCommand P 2"
    by unfold_locales (auto simp: subscribeCommand_def holds_def intro!: kept_fold kept_subscribe)
  show "command unsubscribeCommand P 1" "command punsubscribeCommand P 1"
    unfolding unsubscribeCommand_def punsubscribeCommand_def
    by (unfold_locales, rule holds_map_fst, simp add: kept_unsub_all kept_unsub_loops)+
  show "command psubscribeCommand (\<lambda>s c. \<forall>p \<in> set (drop 1 (argv (clients s c))). pat_safe p) 2"
    by unfold_locales (auto simp: psubscribeCommand_def holds_def intro!: kept_fold kept_subscribe)
qed

lemma publish_command: "command publishCommand P 3"
proof
  fix s :: "'o server" and c assume a: "core_inv s" "args_ok s c 3"
  obtain x where x: "arg s c 1 = Some x" using arg_Some [OF a(2), of 1] by auto
  obtain y where y: "arg s c 2 = Some y" using arg_Some [OF a(2), of 2] by auto
  obtain s1 n where p: "pubsubPublishMessage x (Raw y) s = Some (s1, n)" "quiet s s1"
    using publish_quiet [OF data_inv_patterns [OF core_data [OF a(1)]]] by blast
  note k1 = kept_quiet [OF a(1) p(2), of c]
  have "kept c s1 (upd_client c (set_flag REDIS_FORCE_REPL) s1)"
    using kept_inv [OF k1] by (intro kept_upd) (auto simp: cmd_ok_def core_inv_def)
  then have "kept c s (addReplyLongLong c (int n) (forceCommandPropagation c True False s1))"
    using kept_then_quiet [OF kept_trans [OF k1], of _ "addReplyLongLong c (int n) _"]
    by (simp add: forceCommandPropagation_def quiet_replies(7))
  then show "holds (publishCommand c s) (kept c s)"
    by (simp add: publishCommand_def x [unfolded One_nat_def] y p holds_def Let_def)
qed

lemma channels_loop_quiet:
  assumes "quiet s0 s" and "\<forall>p. pat = Some p \<longrightarrow> pat_safe p"
  shows "holds (channels_loop c pat chans s n) (\<lambda>(s', m). quiet s0 s')"
  using assms(1)
proof (induction chans arbitrary: s n)
  case (Cons chan chans)
  have m: "holds (case pat of None \<Rightarrow> Some True | Some p \<Rightarrow> sds_match p chan) (\<lambda>_. True)"
    using assms(2) by (auto simp: holds_def pat_safe_def split: option.splits)
  show ?case
    unfolding channels_loop.simps
    by (rule holds_bind, rule holds_mono [OF m])
      (simp add: Cons.IH Cons.prems quiet_trans [OF Cons.prems quiet_replies(10)])
qed (simp add: holds_def)

lemma numsub_loop_quiet: "quiet s0 s \<Longrightarrow> quiet s0 (numsub_loop c chans s)"
proof (induction chans arbitrary: s)
  case (Cons chan chans)
  show ?case
    by (simp add: Let_def, rule Cons.IH)
      (intro quiet_trans [OF _ quiet_replies(12)] quiet_trans [OF _ quiet_replies(10)] Cons.prems)
qed simp

lemma pubsub_command: "command pubsubCommand (\<lambda>s c. \<forall>p \<in> set (drop 2 (argv (clients s c))). pat_safe p) 2"
proof
  fix s :: "'o server" and c
  assume a: "core_inv s" "args_ok s c 2" "\<forall>p \<in> set (drop 2 (argv (clients s c))). pat_safe p"
  obtain x where x: "arg s c 1 = Some x" using arg_Some [OF a(2), of 1] by auto
  have p: "pat_safe p" if "arg s c 2 = Some p" for p
  proof -
    have "2 < length (argv (clients s c))" "p = argv (clients s c) ! 2"
      using that by (auto simp: arg_def split: if_splits)
    then have "p = hd (drop 2 (argv (clients s c)))" "drop 2 (argv (clients s c)) \<noteq> []"
      by (simp_all add: hd_drop_conv_nth)
    then show ?thesis using a(3) hd_in_set by metis
  qed
  obtain s1 node where d: "addDeferred c s = (s1, node)" by force
  have chans: "holds (channels_loop c (arg s c 2) l s1 0 \<bind> (\<lambda>(s, n). Some (setDeferred c node n s))) (kept c s)" for l
    by (rule holds_bind, rule holds_mono [OF channels_loop_quiet [OF quiet_deferred(1) [OF d]]])
      (use p in \<open>auto simp: holds_def intro: kept_quiet [OF a(1)] quiet_trans [OF _ quiet_deferred(2)]\<close>)
  show "holds (pubsubCommand c s) (kept c s)"
    unfolding pubsubCommand_def x bind.simps Let_def d prod.case
    by (rule holds_if, rule chans, (rule holds_if | rule holds_kept_quiet [OF a(1)] numsub_loop_quiet quiet_replies)+)
qed

section \<open>Transactions\<close>

lemma unwatched_kept:
  assumes "core_inv s" and "watch_inv s'" and "unwatched c s s'"
  shows "kept c s s'"
proof -
  obtain w where s': "s' = s\<lparr>dbs := \<lambda>j. (dbs s j)\<lparr>dwatched := w j\<rparr>,
        clients := (clients s)(c := (clients s c)\<lparr>watched_keys := []\<rparr>)\<rparr>"
    using assms(3) by (auto simp: unwatched_def)
  have e: "pubsub_channels (clients s' x) = pubsub_channels (clients s x)"
    "pubsub_patterns (clients s' x) = pubsub_patterns (clients s x)" for x
    by (simp_all add: s')
  have o: "client_list s' = client_list s" "srv_channels s' = srv_channels s" "srv_patterns s' = srv_patterns s"
    by (simp_all add: s')
  have "pubsub_inv s' = pubsub_inv s" unfolding pubsub_inv_def subscribers_def e o ..
  moreover have "data_inv s' = data_inv s" by (simp add: s' data_inv_def)
  ultimately have "core_inv s'"
    using assms(1,2) by (simp add: core_inv_def order_ok_def tables_ok_def s')
  then show ?thesis by (simp add: kept_def s' cmd_ok_def)
qed

lemma unwatchAllKeys_kept:
  assumes "core_inv s" and "c \<in> set (client_list s)"
  shows "holds (unwatchAllKeys c s) (\<lambda>s'. kept c s s' \<and> unwatched c s s')"
proof -
  have "watch_inv s" using assms(1) by (simp add: core_inv_def)
  then obtain s' where "unwatchAllKeys c s = Some s'" "watch_inv s'" "unwatched c s s'"
    using unwatchAllKeys_ok [OF _ assms(2)] by blast
  then show ?thesis using unwatched_kept [OF assms(1)] by (simp add: holds_def)
qed

definition discarded :: "client \<Rightarrow> client" where
  "discarded cl = cl\<lparr>mstate := [], cflags := cflags cl - {REDIS_MULTI, REDIS_DIRTY_CAS, REDIS_DIRTY_EXEC}\<rparr>"

lemma discardTransaction_kept:
  assumes "core_inv s" and "c \<in> set (client_list s)"
  shows "holds (discardTransaction c s) (\<lambda>s'. kept c s s' \<and> unwatched c (upd_client c discarded s) s')"
proof -
  have k: "kept c s (upd_client c discarded s)"
    using assms(1) by (intro kept_upd) (auto simp: discarded_def cmd_ok_def core_inv_def)
  have "discardTransaction c s = unwatchAllKeys c (upd_client c discarded s)"
    by (simp add: discardTransaction_def discarded_def upd_client_def)
  then show ?thesis
    using holds_mono [OF unwatchAllKeys_kept [OF kept_inv [OF k]]] kept_list [OF k] assms(2) kept_trans [OF k]
    by (metis (no_types, lifting))
qed

lemma multi_commands: "command multiCommand P 1" "command discardCommand P 1" "command unwatchCommand P 1" "command watchCommand P 2"
proof -
  have m: "kept c s (upd_client c (set_flag REDIS_MULTI) s)" if "core_inv s" for c and s :: "'a server"
    using that by (intro kept_upd) (auto simp: cmd_ok_def core_inv_def)
  show "command multiCommand P 1"
    by unfold_locales (auto simp: multiCommand_def holds_def
        intro: kept_quiet quiet_replies kept_then_quiet [OF m quiet_addReply])
  show "command discardCommand P 1"
  proof
    fix s :: "'b server" and c assume a: "core_inv s" "c \<in> set (client_list s)"
    show "holds (discardCommand c s) (kept c s)"
      unfolding discardCommand_def
      by (rule holds_if, rule holds_kept_quiet [OF a(1) quiet_replies(2)], rule holds_bind,
          rule holds_mono [OF discardTransaction_kept [OF a]])
        (auto simp: holds_def intro: kept_then_quiet quiet_addReply)
  qed
  show "command unwatchCommand P 1"
  proof
    fix s :: "'c server" and c assume a: "core_inv s" "c \<in> set (client_list s)"
    have "kept c x (upd_client c (clr_flag REDIS_DIRTY_CAS) x)" if "core_inv x" for x :: "'c server"
      using that by (intro kept_upd) (auto simp: cmd_ok_def core_inv_def)
    note u = this [OF kept_inv]
    show "holds (unwatchCommand c s) (kept c s)"
      unfolding unwatchCommand_def
      by (rule holds_bind, rule holds_mono [OF unwatchAllKeys_kept [OF a]])
        (auto simp: holds_def intro: kept_then_quiet [OF kept_trans [OF _ u] quiet_addReply])
  qed
  show "command watchCommand P 2"
  proof
    fix s :: "'d server" and c assume a: "core_inv s" "c \<in> set (client_list s)"
    have "kept c x (watchForKey c k x)" if x: "core_inv x" "c \<in> set (client_list x)" for k and x :: "'d server"
    proof -
      have w: "watch_inv (watchForKey c k x)" using x by (intro watchForKey_inv) (auto simp: core_inv_def)
      have e: "pubsub_channels (clients (watchForKey c k x) y) = pubsub_channels (clients x y)"
        "pubsub_patterns (clients (watchForKey c k x) y) = pubsub_patterns (clients x y)"
        "cdb (clients (watchForKey c k x) y) = cdb (clients x y)" for y
        by (auto simp: watchForKey_def Let_def upd_client_def upd_db_def)
      have o: "client_list (watchForKey c k x) = client_list x" "srv_channels (watchForKey c k x) = srv_channels x"
        "srv_patterns (watchForKey c k x) = srv_patterns x"
        by (auto simp: watchForKey_def Let_def upd_client_def upd_db_def)
      have "pubsub_inv (watchForKey c k x) = pubsub_inv x" unfolding pubsub_inv_def subscribers_def e o ..
      moreover have dd: "ddict (dbs (watchForKey c k x) j) = ddict (dbs x j)"
        "dexpires (dbs (watchForKey c k x) j) = dexpires (dbs x j)" for j
        by (simp_all add: watchForKey_def Let_def upd_client_def upd_db_def)
      have "data_inv (watchForKey c k x) = data_inv x" unfolding data_inv_def dd o ..
      ultimately have "core_inv (watchForKey c k x)"
        using x w e o by (simp add: core_inv_def) (simp add: order_ok_def tables_ok_def watchForKey_def Let_def upd_client_def upd_db_def)
      then show ?thesis
        by (simp add: kept_def) (simp add: watchForKey_def Let_def upd_client_def upd_db_def cmd_ok_def)
    qed
    then have "kept c s (fold (watchForKey c) xs s)" for xs using a by (intro kept_fold)
    then show "holds (watchCommand c s) (kept c s)"
      using kept_quiet [OF a(1) quiet_replies(2)]
      by (auto simp: watchCommand_def holds_def intro: kept_then_quiet quiet_addReply)
  qed
qed

end
