(* ===== verification/Process.thy ===== *)
theory Process
  imports Multi Evict Conn_Cmd
begin

text \<open>
  Executing commands (\<open>redis.c\<close>): propagation, \<open>call\<close>, \<open>processCommand\<close>, and \<open>EXEC\<close> of \<open>multi.c\<close>, which
  calls the queued commands. The C function of a command is given by its name; \<open>base_procs\<close> lists the
  functions that are modelled, all others (lists, sets, sorted sets, hashes, scripts, administration) are
  the parameter \<open>other_cmd\<close>. A state together with a command either yields the next state or \<^const>\<open>None\<close>:
  a failed assertion, an access outside an object, or a loop that goes on for the given input.
\<close>

section \<open>What comes from outside\<close>

record 'o exec_env =
  cenv :: cmd_env
  menv :: mem_env
  picks :: "'o server \<Rightarrow> bytes list"
  other_cmd :: "proc \<Rightarrow> nat \<Rightarrow> 'o server \<Rightarrow> 'o server option"

section \<open>Propagation\<close>

definition propagate ::
  "redisCommand \<Rightarrow> nat \<Rightarrow> bytes list \<Rightarrow> bool \<Rightarrow> bool \<Rightarrow> 'o server \<Rightarrow> 'o server option" where
  "propagate cm j av aof repl s = do {
     s \<leftarrow> (if aof_state s \<noteq> REDIS_AOF_OFF \<and> aof then feedAppendOnlyFile cm j av s else Some s);
     Some (if repl then s\<lparr>repl_log := repl_log s @ [(j, av)]\<rparr> else s) }"

fun propagate_ops :: "(redisCommand \<times> feed \<times> bool \<times> bool) list \<Rightarrow> 'o server \<Rightarrow> 'o server option" where
  "propagate_ops [] s = Some s"
| "propagate_ops ((cm, (j, av), aof, repl) # ops) s = do {
     s \<leftarrow> propagate cm j av aof repl s;
     propagate_ops ops s }"

text \<open>Feeding the clients in MONITOR mode is recorded.\<close>

definition replicationFeedMonitors :: "nat \<Rightarrow> 'o server \<Rightarrow> 'o server" where
  "replicationFeedMonitors c s =
     s\<lparr>monitor_log := monitor_log s @ map (\<lambda>m. (m, (cdb (clients s c), argv (clients s c)))) (monitors s)\<rparr>"

section \<open>Calling a command\<close>

datatype call_flag = REDIS_CALL_SLOWLOG | REDIS_CALL_STATS | REDIS_CALL_PROPAGATE

definition REDIS_CALL_FULL :: "call_flag set" where
  "REDIS_CALL_FULL = {REDIS_CALL_SLOWLOG, REDIS_CALL_STATS, REDIS_CALL_PROPAGATE}"

definition force_flags :: "cflag set" where
  "force_flags = {REDIS_FORCE_AOF, REDIS_FORCE_REPL}"

type_synonym 'o runner = "proc \<Rightarrow> nat \<Rightarrow> 'o server \<Rightarrow> 'o server option"

text \<open>What comes before and after the function of the command. What is offered to the slow log is
  recorded.\<close>

definition call_before :: "nat \<Rightarrow> redisCommand \<Rightarrow> 'o server \<Rightarrow> 'o server" where
  "call_before c cm s =
     (let s = (if monitors s \<noteq> [] \<and> \<not> loading s \<and> REDIS_CMD_SKIP_MONITOR \<notin> flags cm
               then replicationFeedMonitors c s else s);
          s = upd_client c (\<lambda>cl. cl\<lparr>cflags := cflags cl - force_flags\<rparr>) s
      in s\<lparr>also_propagate := []\<rparr>)"

definition call_log :: "nat \<Rightarrow> redisCommand \<Rightarrow> call_flag set \<Rightarrow> 'o server \<Rightarrow> 'o server" where
  "call_log c cm fl s =
     (let fl = (if loading s \<and> REDIS_LUA_CLIENT \<in> cflags (clients s c)
                then fl - {REDIS_CALL_SLOWLOG, REDIS_CALL_STATS} else fl);
          s = (case lua_caller s of
                 None \<Rightarrow> s
               | Some l \<Rightarrow>
                   if REDIS_LUA_CLIENT \<in> cflags (clients s c) then
                     upd_client l (\<lambda>cl. cl\<lparr>cflags := cflags cl \<union> (cflags (clients s c) \<inter> force_flags)\<rparr>) s
                   else s);
          s = (if REDIS_CALL_SLOWLOG \<in> fl \<and> cproc cm \<noteq> ''execCommand''
               then s\<lparr>slow_log := slow_log s @ [argv (clients s c)]\<rparr> else s)
      in (if REDIS_CALL_STATS \<in> fl
          then s\<lparr>cmd_calls := (cmd_calls s)(cname cm := cmd_calls s (cname cm) + 1)\<rparr> else s))"

definition call_propagate :: "nat \<Rightarrow> redisCommand \<Rightarrow> bool \<Rightarrow> 'o server \<Rightarrow> 'o server option" where
  "call_propagate c cm modified s =
     (let repl = (REDIS_FORCE_REPL \<in> cflags (clients s c) \<or> modified);
          aof = (REDIS_FORCE_AOF \<in> cflags (clients s c) \<or> modified)
      in if repl \<or> aof then propagate cm (cdb (clients s c)) (argv (clients s c)) aof repl s else Some s)"

definition call :: "'o runner \<Rightarrow> nat \<Rightarrow> call_flag set \<Rightarrow> 'o server \<Rightarrow> 'o server option" where
  "call run c fl s = do {
     cm \<leftarrow> cmd (clients s c);
     let client_old_flags = cflags (clients s c);
     let s = call_before c cm s;
     let dirty_before = dirty s;
     s \<leftarrow> run (cproc cm) c s;
     let modified = (dirty s - dirty_before \<noteq> 0);
     cm \<leftarrow> cmd (clients s c);
     let s = call_log c cm fl s;
     s \<leftarrow> (if REDIS_CALL_PROPAGATE \<in> fl then call_propagate c cm modified s else Some s);
     let s = upd_client c (\<lambda>cl. cl\<lparr>cflags := (cflags cl - force_flags) \<union> (client_old_flags \<inter> force_flags)\<rparr>) s;
     s \<leftarrow> (if also_propagate s \<noteq> [] then
            map_option (\<lambda>s. s\<lparr>also_propagate := []\<rparr>) (propagate_ops (also_propagate s) s)
          else Some s);
     Some (s\<lparr>stat_numcommands := stat_numcommands s + 1\<rparr>) }"

section \<open>EXEC\<close>

definition execCommandPropagateMulti :: "nat \<Rightarrow> 'o server \<Rightarrow> 'o server option" where
  "execCommandPropagateMulti c s =
     propagate server_multiCommand (cdb (clients s c)) [cstr ''MULTI''] True True s"

text \<open>The commands to execute, the number of those that were executed, and whether \<open>MULTI\<close> was
  propagated. A command may replace its own arguments, which are stored back.\<close>

fun exec_loop :: "'o runner \<Rightarrow> nat \<Rightarrow> (redisCommand \<times> bytes list) list \<Rightarrow> nat \<Rightarrow> bool \<Rightarrow> 'o server \<Rightarrow>
    ('o server \<times> bool) option" where
  "exec_loop run c [] j must_propagate s = Some (s, must_propagate)"
| "exec_loop run c ((cm, av) # qs) j must_propagate s = do {
     let s = upd_client c (\<lambda>cl. cl\<lparr>argv := av, cmd := Some cm\<rparr>) s;
     (s, must_propagate) \<leftarrow>
       (if \<not> must_propagate \<and> REDIS_CMD_READONLY \<notin> flags cm then do {
          s \<leftarrow> execCommandPropagateMulti c s;
          Some (s, True) }
        else Some (s, must_propagate));
     s \<leftarrow> call run c REDIS_CALL_FULL s;
     cm \<leftarrow> cmd (clients s c);
     let s = upd_client c (\<lambda>cl. cl\<lparr>mstate := (mstate cl)[j := (cm, argv cl)]\<rparr>) s;
     exec_loop run c qs (j + 1) must_propagate s }"

definition exec_monitor :: "nat \<Rightarrow> 'o server \<Rightarrow> 'o server" where
  "exec_monitor c s =
     (if monitors s \<noteq> [] \<and> \<not> loading s then replicationFeedMonitors c s else s)"

definition execCommand :: "'o runner \<Rightarrow> nat \<Rightarrow> 'o server \<Rightarrow> 'o server option" where
  "execCommand run c s =
     (let fl = cflags (clients s c) in
      if REDIS_MULTI \<notin> fl then Some (addReplyError c ''EXEC without MULTI'' s)
      else if REDIS_DIRTY_CAS \<in> fl \<or> REDIS_DIRTY_EXEC \<in> fl then do {
        let s = addReply c (Raw (if REDIS_DIRTY_EXEC \<in> fl then shared_execaborterr else shared_nullmultibulk)) s;
        s \<leftarrow> discardTransaction c s;
        Some (exec_monitor c s) }
      else do {
        s \<leftarrow> unwatchAllKeys c s;
        let orig_argv = argv (clients s c);
        let orig_cmd = cmd (clients s c);
        let s = addReplyMultiBulkLen c (int (length (mstate (clients s c)))) s;
        (s, must_propagate) \<leftarrow> exec_loop run c (mstate (clients s c)) 0 False s;
        let s = upd_client c (\<lambda>cl. cl\<lparr>argv := orig_argv, cmd := orig_cmd\<rparr>) s;
        s \<leftarrow> discardTransaction c s;
        let s = (if must_propagate then s\<lparr>dirty := dirty s + 1\<rparr> else s);
        Some (exec_monitor c s) })"

section \<open>The functions of the commands\<close>

definition randomkey_run :: "'o exec_env \<Rightarrow> nat \<Rightarrow> 'o server \<Rightarrow> 'o server option" where
  "randomkey_run e c s =
     (case randomkeyCommand c (picks e s) s of
        Some (Inl s) \<Rightarrow> Some s
      | _ \<Rightarrow> None)"

definition base_procs :: "'o exec_env \<Rightarrow> (proc \<times> (nat \<Rightarrow> 'o server \<Rightarrow> 'o server option)) list" where
  "base_procs e = [
     (''getCommand'', getCommand), (''setCommand'', setCommand), (''setnxCommand'', setnxCommand),
     (''setexCommand'', setexCommand), (''psetexCommand'', psetexCommand),
     (''appendCommand'', appendCommand), (''strlenCommand'', strlenCommand),
     (''delCommand'', delCommand), (''existsCommand'', existsCommand),
     (''setrangeCommand'', setrangeCommand), (''getrangeCommand'', getrangeCommand),
     (''incrCommand'', incrCommand), (''decrCommand'', decrCommand), (''mgetCommand'', mgetCommand),
     (''incrbyCommand'', incrbyCommand), (''decrbyCommand'', decrbyCommand),
     (''getsetCommand'', getsetCommand), (''msetCommand'', msetCommand),
     (''msetnxCommand'', msetnxCommand), (''randomkeyCommand'', randomkey_run e),
     (''selectCommand'', selectCommand), (''moveCommand'', moveCommand),
     (''renameCommand'', renameCommand), (''renamenxCommand'', renamenxCommand),
     (''expireCommand'', expireCommand), (''expireatCommand'', expireatCommand),
     (''pexpireCommand'', pexpireCommand), (''pexpireatCommand'', pexpireatCommand),
     (''keysCommand'', keysCommand), (''dbsizeCommand'', dbsizeCommand),
     (''authCommand'', authCommand), (''pingCommand'', pingCommand), (''echoCommand'', echoCommand),
     (''lastsaveCommand'', lastsaveCommand), (''typeCommand'', typeCommand),
     (''multiCommand'', multiCommand), (''discardCommand'', discardCommand),
     (''flushdbCommand'', flushdbCommand), (''flushallCommand'', flushallCommand (cenv e)),
     (''ttlCommand'', ttlCommand), (''pttlCommand'', pttlCommand),
     (''persistCommand'', persistCommand), (''subscribeCommand'', subscribeCommand),
     (''unsubscribeCommand'', unsubscribeCommand), (''psubscribeCommand'', psubscribeCommand),
     (''punsubscribeCommand'', punsubscribeCommand), (''publishCommand'', publishCommand),
     (''pubsubCommand'', pubsubCommand), (''watchCommand'', watchCommand),
     (''unwatchCommand'', unwatchCommand)]"

text \<open>A queued command is never \<open>EXEC\<close>, so inside a transaction there is nothing to run for it.\<close>

definition run_queued :: "'o exec_env \<Rightarrow> 'o runner" where
  "run_queued e p c s =
     (case map_of (base_procs e) p of
        Some f \<Rightarrow> f c s
      | None \<Rightarrow> if p = ''execCommand'' then None else other_cmd e p c s)"

definition run_proc :: "'o exec_env \<Rightarrow> 'o runner" where
  "run_proc e p c s =
     (if p = ''execCommand'' then execCommand (run_queued e) c s else run_queued e p c s)"

section \<open>Processing a request\<close>

text \<open>An error while a transaction is queued.\<close>

definition reject :: "nat \<Rightarrow> bytes \<Rightarrow> 'o server \<Rightarrow> 'o server" where
  "reject c r s = addReply c (Raw r) (flagTransaction c s)"

definition quoted :: "bytes \<Rightarrow> bytes" where
  "quoted t = cstr [CHR 0x27] @ t @ cstr [CHR 0x27]"

definition write_error :: "redisCommand \<Rightarrow> 'o server \<Rightarrow> bool" where
  "write_error cm s \<longleftrightarrow>
     ((stop_writes_on_bgsave_err s \<and> saveparamslen s > 0 \<and> \<not> lastbgsave_ok s) \<or> \<not> aof_last_write_ok s) \<and>
     \<not> masterhost s \<and> (REDIS_CMD_WRITE \<in> flags cm \<or> cproc cm = ''pingCommand'')"

definition misconf_text :: "'o server \<Rightarrow> bytes" where
  "misconf_text s =
     (if aof_last_write_ok s then shared_bgsaveerr
      else cstr ''-MISCONF Errors writing to the AOF file: '' @ aof_write_error s @ crlf)"

definition few_slaves :: "redisCommand \<Rightarrow> 'o server \<Rightarrow> bool" where
  "few_slaves cm s \<longleftrightarrow>
     repl_min_slaves_to_write s \<noteq> 0 \<and> repl_min_slaves_max_lag s \<noteq> 0 \<and> REDIS_CMD_WRITE \<in> flags cm \<and>
     repl_good_slaves_count s < repl_min_slaves_to_write s"

definition script_allowed :: "nat \<Rightarrow> redisCommand \<Rightarrow> 'o server \<Rightarrow> bool" where
  "script_allowed c cm s \<longleftrightarrow>
     cproc cm = ''authCommand'' \<or> cproc cm = ''replconfCommand'' \<or>
     (cproc cm = ''shutdownCommand'' \<and> argc s c = 2 \<and> tolower (pk (argv (clients s c) ! 1) 0) = ch CHR ''n'') \<or>
     (cproc cm = ''scriptCommand'' \<and> argc s c = 2 \<and> tolower (pk (argv (clients s c) ! 1) 0) = ch CHR ''k'')"

definition subscribed :: "client \<Rightarrow> bool" where
  "subscribed cl \<longleftrightarrow> pubsub_channels cl \<noteq> [] \<or> pubsub_patterns cl \<noteq> []"

text \<open>The tests after the memory limit: the reply that refuses the command, and whether the
  transaction is flagged.\<close>

definition refuse :: "nat \<Rightarrow> redisCommand \<Rightarrow> 'o server \<Rightarrow> 'o server option" where
  "refuse c cm s =
     (let cl = clients s c in
      if write_error cm s then Some (reject c (misconf_text s) s)
      else if few_slaves cm s then Some (reject c shared_noreplicaserr s)
      else if masterhost s \<and> repl_slave_ro s \<and> REDIS_MASTER \<notin> cflags cl \<and> REDIS_CMD_WRITE \<in> flags cm then
        Some (addReply c (Raw shared_roslaveerr) s)
      else if subscribed cl \<and>
        cproc cm \<notin> {''subscribeCommand'', ''unsubscribeCommand'', ''psubscribeCommand'', ''punsubscribeCommand''} then
        Some (addReplyError c ''only (P)SUBSCRIBE / (P)UNSUBSCRIBE / QUIT allowed in this context'' s)
      else if masterhost s \<and> \<not> repl_connected s \<and> \<not> repl_serve_stale_data s \<and> REDIS_CMD_STALE \<notin> flags cm then
        Some (reject c shared_masterdownerr s)
      else if loading s \<and> REDIS_CMD_LOADING \<notin> flags cm then Some (addReply c (Raw shared_loadingerr) s)
      else if lua_timedout s \<and> \<not> script_allowed c cm s then Some (reject c shared_slowscripterr s)
      else None)"

definition queued_in_multi :: "redisCommand \<Rightarrow> client \<Rightarrow> bool" where
  "queued_in_multi cm cl \<longleftrightarrow> REDIS_MULTI \<in> cflags cl \<and>
     cproc cm \<notin> {''execCommand'', ''discardCommand'', ''multiCommand'', ''watchCommand''}"

definition execute :: "'o exec_env \<Rightarrow> nat \<Rightarrow> redisCommand \<Rightarrow> 'o server \<Rightarrow> 'o server option" where
  "execute e c cm s =
     (if queued_in_multi cm (clients s c) then
        map_option (addReply c (Raw shared_queued)) (queueMultiCommand c s)
      else call (run_proc e) c REDIS_CALL_FULL s)"

text \<open>A request whose command was found in the table.\<close>

definition process_found :: "'o exec_env \<Rightarrow> nat \<Rightarrow> redisCommand \<Rightarrow> 'o server \<Rightarrow> 'o server option" where
  "process_found e c cm s =
     (if \<not> arity_ok cm (argc s c) then
        Some (addReplyErrorFormat c
          (cstr ''wrong number of arguments for '' @ quoted (cstr (cname cm)) @ cstr '' command'')
          (flagTransaction c s))
      else if requirepass s \<noteq> None \<and> \<not> authenticated (clients s c) \<and> cproc cm \<noteq> ''authCommand'' then
        Some (reject c shared_noautherr s)
      else do {
        (s, freed_ok) \<leftarrow> (if maxmemory s \<noteq> 0 then freeMemoryIfNeeded (menv e) s else Some (s, True));
        if REDIS_CMD_DENYOOM \<in> flags cm \<and> \<not> freed_ok then Some (reject c shared_oomerr s)
        else case refuse c cm s of
          Some s \<Rightarrow> Some s
        | None \<Rightarrow> execute e c cm s })"

text \<open>The result \<open>REDIS_OK\<close> is \<^const>\<open>True\<close>.\<close>

definition processCommand :: "'o exec_env \<Rightarrow> nat \<Rightarrow> 'o server \<Rightarrow> ('o server \<times> bool) option" where
  "processCommand e c s = do {
     name \<leftarrow> arg s c 0;
     if strcasecmp_eq (c_string name) (cstr ''quit'') then
       Some (upd_client c (set_flag REDIS_CLOSE_AFTER_REPLY) (addReply c (Raw shared_ok) s), False)
     else do {
       let found = lookupCommand (commands s) name;
       let s = upd_client c (\<lambda>cl. cl\<lparr>cmd := found\<rparr>) s;
       s \<leftarrow> (case found of
              None \<Rightarrow>
                Some (addReplyErrorFormat c (cstr ''unknown command '' @ quoted (c_string name))
                  (flagTransaction c s))
            | Some cm \<Rightarrow> process_found e c cm s);
       Some (s, True) } }"

end
