(* ===== verification/Process_Safe.thy ===== *)
theory Process_Safe
  imports Process Sys_Inv
begin

text \<open>
  Processing a command never fails and keeps the invariant of the server. The contract of what runs the
  commands is the locale \<open>runner\<close>; \<open>call\<close> and \<open>EXEC\<close> are verified once for every runner and then
  instantiated with the one for queued commands and the one of \<open>processCommand\<close>, which is built from it.
\<close>

section \<open>The modelled commands meet their contract\<close>

text \<open>The number of arguments that every entry of the table with a given function demands at least.\<close>

definition row_args :: "redisCommand \<Rightarrow> proc \<times> nat" where
  "row_args r = (cproc r, nat \<bar>arity r\<bar>)"

definition min_args :: "(proc \<times> nat) list \<Rightarrow> proc \<Rightarrow> nat" where
  "min_args rows p = foldr (\<lambda>(q, n) m. if q = p then min n m else m) rows 100"

definition nargs :: "proc \<Rightarrow> nat" where
  "nargs = min_args (map row_args redisCommandTable)"

lemma min_args_le: "(p, n) \<in> set rows \<Longrightarrow> min_args rows p \<le> n"
  by (induction rows) (auto simp: min_args_def min_def)

lemma table_arity: "list_all (\<lambda>r. arity r \<noteq> 0) redisCommandTable"
  by (simp add: redisCommandTable_def)

lemma arity_nargs:
  assumes "known_cmd cm" and "arity_ok cm n"
  shows "nargs (cproc cm) \<le> n"
proof -
  obtain r where r: "r \<in> set redisCommandTable" "cm = command_row r" using assms(1) by (auto simp: known_cmd_def)
  have "(cproc r, nat \<bar>arity r\<bar>) \<in> set (map row_args redisCommandTable)"
    using imageI [OF r(1), of row_args] by (simp add: row_args_def)
  then have "nargs (cproc cm) \<le> nat \<bar>arity r\<bar>" "arity cm = arity r"
    using min_args_le r(2) by (simp_all add: nargs_def command_row_def)
  moreover have "arity r \<noteq> 0" using table_arity r(1) by (simp add: list_all_iff)
  moreover have "nat \<bar>arity r\<bar> \<le> n" using assms(2) calculation(2,3) by (auto simp: arity_ok_def)
  ultimately show ?thesis by linarith
qed

lemma table_args: "map row_args redisCommandTable =
   [(''getCommand'', 2), (''setCommand'', 3), (''setnxCommand'', 3), (''setexCommand'', 4),
    (''psetexCommand'', 4), (''appendCommand'', 3), (''strlenCommand'', 2), (''delCommand'', 2),
    (''existsCommand'', 2), (''setbitCommand'', 4), (''getbitCommand'', 3), (''setrangeCommand'', 4),
    (''getrangeCommand'', 4), (''getrangeCommand'', 4), (''incrCommand'', 2), (''decrCommand'', 2),
    (''mgetCommand'', 2), (''rpushCommand'', 3), (''lpushCommand'', 3), (''rpushxCommand'', 3),
    (''lpushxCommand'', 3), (''linsertCommand'', 5), (''rpopCommand'', 2), (''lpopCommand'', 2),
    (''brpopCommand'', 3), (''brpoplpushCommand'', 4), (''blpopCommand'', 3), (''llenCommand'', 2),
    (''lindexCommand'', 3), (''lsetCommand'', 4), (''lrangeCommand'', 4), (''ltrimCommand'', 4),
    (''lremCommand'', 4), (''rpoplpushCommand'', 3), (''saddCommand'', 3), (''sremCommand'', 3),
    (''smoveCommand'', 4), (''sismemberCommand'', 3), (''scardCommand'', 2), (''spopCommand'', 2),
    (''srandmemberCommand'', 2), (''sinterCommand'', 2), (''sinterstoreCommand'', 3), (''sunionCommand'', 2),
    (''sunionstoreCommand'', 3), (''sdiffCommand'', 2), (''sdiffstoreCommand'', 3), (''sinterCommand'', 2),
    (''sscanCommand'', 3), (''zaddCommand'', 4), (''zincrbyCommand'', 4), (''zremCommand'', 3),
    (''zremrangebyscoreCommand'', 4), (''zremrangebyrankCommand'', 4), (''zremrangebylexCommand'', 4),
    (''zunionstoreCommand'', 4), (''zinterstoreCommand'', 4), (''zrangeCommand'', 4),
    (''zrangebyscoreCommand'', 4), (''zrevrangebyscoreCommand'', 4), (''zrangebylexCommand'', 4),
    (''zrevrangebylexCommand'', 4), (''zcountCommand'', 4), (''zlexcountCommand'', 4),
    (''zrevrangeCommand'', 4), (''zcardCommand'', 2), (''zscoreCommand'', 3), (''zrankCommand'', 3),
    (''zrevrankCommand'', 3), (''zscanCommand'', 3), (''hsetCommand'', 4), (''hsetnxCommand'', 4),
    (''hgetCommand'', 3), (''hmsetCommand'', 4), (''hmgetCommand'', 3), (''hincrbyCommand'', 4),
    (''hincrbyfloatCommand'', 4), (''hdelCommand'', 3), (''hlenCommand'', 2), (''hkeysCommand'', 2),
    (''hvalsCommand'', 2), (''hgetallCommand'', 2), (''hexistsCommand'', 3), (''hscanCommand'', 3),
    (''incrbyCommand'', 3), (''decrbyCommand'', 3), (''incrbyfloatCommand'', 3), (''getsetCommand'', 3),
    (''msetCommand'', 3), (''msetnxCommand'', 3), (''randomkeyCommand'', 1), (''selectCommand'', 2),
    (''moveCommand'', 3), (''renameCommand'', 3), (''renamenxCommand'', 3), (''expireCommand'', 3),
    (''expireatCommand'', 3), (''pexpireCommand'', 3), (''pexpireatCommand'', 3), (''keysCommand'', 2),
    (''scanCommand'', 2), (''dbsizeCommand'', 1), (''authCommand'', 2), (''pingCommand'', 1),
    (''echoCommand'', 2), (''saveCommand'', 1), (''bgsaveCommand'', 1), (''bgrewriteaofCommand'', 1),
    (''shutdownCommand'', 1), (''lastsaveCommand'', 1), (''typeCommand'', 2), (''multiCommand'', 1),
    (''execCommand'', 1), (''discardCommand'', 1), (''syncCommand'', 1), (''syncCommand'', 3),
    (''replconfCommand'', 1), (''flushdbCommand'', 1), (''flushallCommand'', 1), (''sortCommand'', 2),
    (''infoCommand'', 1), (''monitorCommand'', 1), (''ttlCommand'', 2), (''pttlCommand'', 2),
    (''persistCommand'', 2), (''slaveofCommand'', 3), (''debugCommand'', 2), (''configCommand'', 2),
    (''subscribeCommand'', 2), (''unsubscribeCommand'', 1), (''psubscribeCommand'', 2),
    (''punsubscribeCommand'', 1), (''publishCommand'', 3), (''pubsubCommand'', 2), (''watchCommand'', 2),
    (''unwatchCommand'', 1), (''restoreCommand'', 4), (''migrateCommand'', 6), (''dumpCommand'', 2),
    (''objectCommand'', 2), (''clientCommand'', 2), (''evalCommand'', 3), (''evalShaCommand'', 3),
    (''slowlogCommand'', 2), (''scriptCommand'', 2), (''timeCommand'', 1), (''bitopCommand'', 4),
    (''bitcountCommand'', 2), (''bitposCommand'', 3), (''pfselftestCommand'', 1), (''pfaddCommand'', 2),
    (''pfcountCommand'', 2), (''pfmergeCommand'', 2), (''pfdebugCommand'', 3)]"
  by (simp add: redisCommandTable_def row_args_def)

lemma nargs_values [simp]:
  "nargs ''getCommand'' = 2" "nargs ''setCommand'' = 3" "nargs ''setnxCommand'' = 3"
  "nargs ''setexCommand'' = 4" "nargs ''psetexCommand'' = 4" "nargs ''appendCommand'' = 3"
  "nargs ''strlenCommand'' = 2" "nargs ''delCommand'' = 2" "nargs ''existsCommand'' = 2"
  "nargs ''setrangeCommand'' = 4" "nargs ''getrangeCommand'' = 4" "nargs ''incrCommand'' = 2"
  "nargs ''decrCommand'' = 2" "nargs ''mgetCommand'' = 2" "nargs ''incrbyCommand'' = 3"
  "nargs ''decrbyCommand'' = 3" "nargs ''getsetCommand'' = 3" "nargs ''msetCommand'' = 3"
  "nargs ''msetnxCommand'' = 3" "nargs ''selectCommand'' = 2" "nargs ''moveCommand'' = 3"
  "nargs ''renameCommand'' = 3" "nargs ''renamenxCommand'' = 3" "nargs ''expireCommand'' = 3"
  "nargs ''expireatCommand'' = 3" "nargs ''pexpireCommand'' = 3" "nargs ''pexpireatCommand'' = 3"
  "nargs ''keysCommand'' = 2" "nargs ''dbsizeCommand'' = 1" "nargs ''authCommand'' = 2"
  "nargs ''pingCommand'' = 1" "nargs ''echoCommand'' = 2" "nargs ''lastsaveCommand'' = 1"
  "nargs ''typeCommand'' = 2" "nargs ''multiCommand'' = 1" "nargs ''discardCommand'' = 1"
  "nargs ''flushdbCommand'' = 1" "nargs ''flushallCommand'' = 1" "nargs ''ttlCommand'' = 2"
  "nargs ''pttlCommand'' = 2" "nargs ''persistCommand'' = 2" "nargs ''subscribeCommand'' = 2"
  "nargs ''unsubscribeCommand'' = 1" "nargs ''psubscribeCommand'' = 2" "nargs ''punsubscribeCommand'' = 1"
  "nargs ''publishCommand'' = 3" "nargs ''pubsubCommand'' = 2" "nargs ''watchCommand'' = 2"
  "nargs ''unwatchCommand'' = 1"
  by (simp_all add: nargs_def table_args min_args_def)

text \<open>The commands that are modelled. Of the inputs, those for which the code is known to fail are excluded:
  the offset of \<open>SETRANGE\<close> near the limit of 64 bits, the index of \<open>GETRANGE\<close> beyond 32 bits, patterns
  that the matcher reads beyond; \<open>RANDOMKEY\<close> may go on for ever.\<close>

definition base_names :: "proc list" where
  "base_names =
    [''getCommand'', ''setCommand'', ''setnxCommand'', ''setexCommand'', ''psetexCommand'',
     ''appendCommand'', ''strlenCommand'', ''delCommand'', ''existsCommand'', ''setrangeCommand'',
     ''getrangeCommand'', ''incrCommand'', ''decrCommand'', ''mgetCommand'', ''incrbyCommand'',
     ''decrbyCommand'', ''getsetCommand'', ''msetCommand'', ''msetnxCommand'', ''randomkeyCommand'',
     ''selectCommand'', ''moveCommand'', ''renameCommand'', ''renamenxCommand'', ''expireCommand'',
     ''expireatCommand'', ''pexpireCommand'', ''pexpireatCommand'', ''keysCommand'', ''dbsizeCommand'',
     ''authCommand'', ''pingCommand'', ''echoCommand'', ''lastsaveCommand'', ''typeCommand'',
     ''multiCommand'', ''discardCommand'', ''flushdbCommand'', ''flushallCommand'', ''ttlCommand'',
     ''pttlCommand'', ''persistCommand'', ''subscribeCommand'', ''unsubscribeCommand'',
     ''psubscribeCommand'', ''punsubscribeCommand'', ''publishCommand'', ''pubsubCommand'',
     ''watchCommand'', ''unwatchCommand'']"

lemma base_names: "map fst (base_procs e) = base_names"
  by (simp add: base_procs_def base_names_def)

definition safe_argv :: "proc \<Rightarrow> bytes list \<Rightarrow> bool" where
  "safe_argv p av \<longleftrightarrow>
     (p = ''execCommand'' \<or> p \<in> set base_names) \<and>
     (p = ''setrangeCommand'' \<longrightarrow> setrange_safe av) \<and> (p = ''getrangeCommand'' \<longrightarrow> getrange_safe av) \<and>
     (p = ''keysCommand'' \<longrightarrow> pat_safe (av ! 1)) \<and>
     (p = ''psubscribeCommand'' \<longrightarrow> (\<forall>q \<in> set (drop 1 av). pat_safe q)) \<and>
     (p = ''pubsubCommand'' \<longrightarrow> (\<forall>q \<in> set (drop 2 av). pat_safe q)) \<and> p \<noteq> ''randomkeyCommand''"

lemma command_weaken:
  "command f P n \<Longrightarrow> (\<And>s c. Q s c \<Longrightarrow> P s c) \<Longrightarrow> n \<le> m \<Longrightarrow> command f Q m"
  unfolding command_def using args_ok_mono by blast

lemma safe_argv_simps [simp]:
  "safe_argv ''setrangeCommand'' av = setrange_safe av" "safe_argv ''getrangeCommand'' av = getrange_safe av"
  "safe_argv ''keysCommand'' av = pat_safe (av ! 1)"
  "safe_argv ''psubscribeCommand'' av = (\<forall>q \<in> set (drop 1 av). pat_safe q)"
  "safe_argv ''pubsubCommand'' av = (\<forall>q \<in> set (drop 2 av). pat_safe q)"
  "safe_argv ''randomkeyCommand'' av = False"
  by (simp_all add: safe_argv_def base_names_def)

lemma randomkey_command: "command (randomkey_run e) (\<lambda>s c. False) n"
  by unfold_locales simp

lemma base_command:
  "list_all (\<lambda>(p, f). command f (\<lambda>s c. safe_argv p (argv (clients s c))) (nargs p)) (base_procs e)"
  unfolding base_procs_def list.pred_inject prod.case nargs_values safe_argv_simps
  by (intro conjI TrueI string_commands string_reads range_commands key_commands key_reads keys_command
      flushdb_command flushall_command move_command persist_command expire_commands select_command conn_commands
      subscribe_commands publish_command pubsub_command multi_commands randomkey_command) simp

text \<open>For the most used ones the contract is named.\<close>

interpretation get: command getCommand "\<lambda>s c. True" 2 by (rule string_reads)
interpretation set_cmd: command setCommand "\<lambda>s c. True" 3 by (rule string_commands)
interpretation incr: command incrCommand "\<lambda>s c. True" 2 by (rule string_commands)
interpretation del: command delCommand "\<lambda>s c. True" 2 by (rule key_commands)

section \<open>Calling commands\<close>

lemma propagate_same:
  assumes "feedable cm av"
  shows "\<exists>s'. propagate cm j av aof repl s = Some s' \<and> same_state s s'"
proof -
  obtain s1 where s1: "feedAppendOnlyFile cm j av s = Some s1"
    using feed_Some [of cm av] assms by (auto simp: feedable_def)
  have "same_state s s1" by (rule feed_fields [OF s1]) (simp add: same_state_def)
  then show ?thesis using s1 by (simp add: propagate_def same_state_def)
qed

lemma propagate_kept:
  assumes "core_inv s" and "feedable cm av"
  shows "holds (propagate cm j av aof repl s) (kept c s)"
  using propagate_same [OF assms(2)] kept_same [OF assms(1)] unfolding holds_def by metis

lemma propagate_ops_kept:
  assumes "core_inv s" and "\<forall>(cm, (j, av), aof, repl) \<in> set ops. feedable cm av"
  shows "holds (propagate_ops ops s) (kept c s)"
  using assms
proof (induction ops arbitrary: s)
  case (Cons x ops)
  obtain cm j av aof repl where x: "x = (cm, (j, av), aof, repl)" by (metis surj_pair)
  have "feedable cm av" using Cons.prems(2) x by simp
  then obtain s1 where s1: "propagate cm j av aof repl s = Some s1" "kept c s s1"
    using propagate_kept [OF Cons.prems(1), of cm av j aof repl c] by (auto simp: holds_def)
  have "holds (propagate_ops ops s1) (kept c s1)"
    using Cons.IH [OF kept_inv [OF s1(2)]] Cons.prems(2) x by auto
  then show ?case using x s1 kept_trans [OF s1(2)] by (auto simp: holds_def)
qed (simp add: holds_def kept_refl)

lemma cmd_ok_feedable: "cmd_ok cl \<Longrightarrow> cmd cl = Some cm \<Longrightarrow> feedable cm (argv cl)"
proof -
  assume "cmd_ok cl" "cmd cl = Some cm"
  then have n: "nargs (cproc cm) \<le> length (argv cl)" by (auto simp: cmd_ok_def intro: arity_nargs)
  show "feedable cm (argv cl)"
    using n by (auto simp: feedable_def expire_proc_def setex_proc_def)
qed

lemma call_before_kept:
  assumes "core_inv s"
  shows "kept c s (call_before c cm s)"
proof -
  define s1 where "s1 = (if monitors s \<noteq> [] \<and> \<not> loading s \<and> REDIS_CMD_SKIP_MONITOR \<notin> flags cm
               then replicationFeedMonitors c s else s)"
  have k1: "kept c s s1"
    by (rule kept_same [OF assms]) (simp add: s1_def same_state_def replicationFeedMonitors_def)
  define s2 where "s2 = upd_client c (\<lambda>cl. cl\<lparr>cflags := cflags cl - force_flags\<rparr>) s1"
  have k2: "kept c s s2"
    unfolding s2_def by (rule kept_trans [OF k1], rule kept_flags [OF kept_inv [OF k1]]) (simp add: force_flags_def)
  have "core_inv (s2\<lparr>also_propagate := []\<rparr>)"
    using kept_inv [OF k2]
    by (simp add: core_inv_def data_inv_def watch_inv_def watchers_def pubsub_inv_def subscribers_def order_ok_def tables_ok_def)
  then have "kept c s2 (s2\<lparr>also_propagate := []\<rparr>)" by (simp add: kept_def)
  then show ?thesis
    using kept_trans [OF k2] by (simp add: call_before_def Let_def s1_def [symmetric] s2_def [symmetric])
qed

lemma call_log_kept: "core_inv s \<Longrightarrow> kept c s (call_log c cm fl s)"
proof -
  assume a: "core_inv s"
  then have "lua_caller s = None" by (simp add: core_inv_def)
  then have "same_state s (call_log c cm fl s)"
    by (auto simp: call_log_def Let_def same_state_def)
  then show ?thesis by (rule kept_same [OF a])
qed

text \<open>What runs a command, given what the client wants to run.\<close>

locale runner =
  fixes run :: "'o runner" and pre :: "client \<Rightarrow> bool"
  assumes run_kept: "core_inv s \<Longrightarrow> c \<in> set (client_list s) \<Longrightarrow> cmd (clients s c) = Some cm \<Longrightarrow>
      cmd_ok (clients s c) \<Longrightarrow> pre (clients s c) \<Longrightarrow> holds (run (cproc cm) c s) (kept c s)"
    and pre_cong: "cmd a = cmd b \<Longrightarrow> argv a = argv b \<Longrightarrow> mstate a = mstate b \<Longrightarrow> pre a = pre b"
begin

lemma call_kept:
  assumes "core_inv s" and "c \<in> set (client_list s)" and "cmd_ok (clients s c)" and "pre (clients s c)"
  shows "holds (call run c fl s) (kept c s)"
proof -
  obtain cm where cm: "cmd (clients s c) = Some cm" using assms(3) by (auto simp: cmd_ok_def)
  define s1 where "s1 = call_before c cm s"
  have k1: "kept c s s1" unfolding s1_def by (rule call_before_kept [OF assms(1)])
  have cl: "cmd (clients s1 c) = cmd (clients s c)" "argv (clients s1 c) = argv (clients s c)"
    "mstate (clients s1 c) = mstate (clients s c)"
    by (simp_all add: s1_def call_before_def Let_def upd_client_def replicationFeedMonitors_def)
  have "holds (run (cproc cm) c s1) (kept c s1)"
    using run_kept [OF kept_inv [OF k1], of c cm] assms cl cm pre_cong [OF cl] kept_list [OF k1]
    by (simp add: cmd_ok_def)
  then obtain s2 where s2: "run (cproc cm) c s1 = Some s2" "kept c s1 s2" by (auto simp: holds_def)
  have k2: "kept c s s2" by (rule kept_trans [OF k1 s2(2)])
  have ok2: "cmd_ok (clients s2 c)" using k2 assms(3) by (simp add: kept_def)
  then obtain cm2 where cm2: "cmd (clients s2 c) = Some cm2" by (auto simp: cmd_ok_def)
  define s3 where "s3 = call_log c cm2 fl s2"
  have k3: "kept c s s3" unfolding s3_def by (rule kept_trans [OF k2 call_log_kept [OF kept_inv [OF k2]]])
  have l2: "lua_caller s2 = None" using kept_inv [OF k2] by (simp add: core_inv_def)
  have cl3: "clients s3 c = clients s2 c" by (simp add: s3_def call_log_def Let_def l2)
  define md where "md = (dirty s2 - dirty s1 \<noteq> 0)"
  have "holds (if REDIS_CALL_PROPAGATE \<in> fl then call_propagate c cm2 md s3 else Some s3) (kept c s3)"
    using propagate_kept [OF kept_inv [OF k3] cmd_ok_feedable [OF ok2 cm2]] kept_refl [OF kept_inv [OF k3]] cl3
    by (simp add: call_propagate_def Let_def holds_def)
  then obtain s4 where s4: "(if REDIS_CALL_PROPAGATE \<in> fl then call_propagate c cm2 md s3 else Some s3) = Some s4"
    "kept c s3 s4" by (auto simp: holds_def)
  define s5 where "s5 = upd_client c (\<lambda>cl. cl\<lparr>cflags := (cflags cl - force_flags) \<union> (cflags (clients s c) \<inter> force_flags)\<rparr>) s4"
  have k4: "kept c s s4" by (rule kept_trans [OF k3 s4(2)])
  have k5: "kept c s s5"
    unfolding s5_def by (rule kept_trans [OF k4], rule kept_flags [OF kept_inv [OF k4]]) (simp add: force_flags_def)
  have ops: "\<forall>(cm, (j, av), aof, repl) \<in> set (also_propagate s5). feedable cm av"
    using kept_inv [OF k5] by (simp add: core_inv_def tables_ok_def)
  obtain s6 where s6: "propagate_ops (also_propagate s5) s5 = Some s6" "kept c s5 s6"
    using propagate_ops_kept [OF kept_inv [OF k5] ops, of c] by (auto simp: holds_def)
  have k6: "kept c s (s6\<lparr>also_propagate := []\<rparr>)"
  proof (rule kept_trans [OF kept_trans [OF k5 s6(2)]])
    show "kept c s6 (s6\<lparr>also_propagate := []\<rparr>)"
      using kept_inv [OF s6(2)]
      by (simp add: kept_def core_inv_def data_inv_def watch_inv_def watchers_def pubsub_inv_def subscribers_def
          order_ok_def tables_ok_def)
  qed
  define s7 where "s7 = (if also_propagate s5 \<noteq> [] then s6\<lparr>also_propagate := []\<rparr> else s5)"
  have "kept c s s7" using k5 k6 by (simp add: s7_def)
  then have "kept c s (s7\<lparr>stat_numcommands := stat_numcommands s7 + 1\<rparr>)"
    by (rule kept_then_same) (simp add: same_state_def)
  moreover have "call run c fl s = Some (s7\<lparr>stat_numcommands := stat_numcommands s7 + 1\<rparr>)"
    unfolding call_def cm bind.simps Let_def s1_def [symmetric] s2(1) cm2 s3_def [symmetric] md_def [symmetric] s4(1)
      s5_def [symmetric] using s6(1) by (simp add: s7_def)
  ultimately show ?thesis by (simp add: holds_def)
qed

end

section \<open>Transactions\<close>

text \<open>What a transaction keeps while it runs: not the queue, where arguments are stored back.\<close>

definition kept0 :: "nat \<Rightarrow> 'o server \<Rightarrow> 'o server \<Rightarrow> bool" where
  "kept0 c s s' \<longleftrightarrow> core_inv s' \<and> client_list s' = client_list s \<and> dbnum s' = dbnum s \<and>
     querybuf (clients s' c) = querybuf (clients s c) \<and>
     (\<forall>x. x \<noteq> c \<longrightarrow> client_frame (clients s x) (clients s' x))"

lemma kept_kept0: "kept c s s' \<Longrightarrow> kept0 c s s'"
  by (simp add: kept_def kept0_def)

lemma kept0_trans: "kept0 c s s1 \<Longrightarrow> kept0 c s1 s2 \<Longrightarrow> kept0 c s s2"
  unfolding kept0_def by (auto intro: client_frame_trans)

lemma kept0_inv: "kept0 c s s' \<Longrightarrow> core_inv s'"
  by (simp add: kept0_def)

lemma kept0_upd:
  assumes "core_inv s"
  shows "kept0 c s (upd_client c (\<lambda>cl. cl\<lparr>argv := av, cmd := cm\<rparr>) s)" "kept0 c s (upd_client c (\<lambda>cl. cl\<lparr>mstate := f cl\<rparr>) s)"
  using core_inv_upd [where f = "\<lambda>cl. cl\<lparr>argv := av, cmd := cm\<rparr>", OF assms]
    core_inv_upd [where f = "\<lambda>cl. cl\<lparr>mstate := f cl\<rparr>", OF assms] core_db [OF assms]
  by (auto simp: kept0_def upd_client_def)

lemma multi_feedable: "feedable server_multiCommand av"
  by (simp add: feedable_def expire_proc_def setex_proc_def server_multiCommand_def command_row_def)

text \<open>A queued command: an entry of the table with a vector of the right length.\<close>

definition queued_ok :: "redisCommand \<times> bytes list \<Rightarrow> bool" where
  "queued_ok q \<longleftrightarrow> known_cmd (fst q) \<and> arity_ok (fst q) (length (snd q)) \<and> args_len (snd q)"

lemma monitor_kept: "kept c s x \<Longrightarrow> kept c s (exec_monitor c x)"
  by (erule kept_then_same) (simp add: exec_monitor_def same_state_def replicationFeedMonitors_def)

lemma abort_kept:
  assumes "core_inv s" and "c \<in> set (client_list s)"
  shows "holds (discardTransaction c (addReply c r s) \<bind> (\<lambda>s. Some (exec_monitor c s))) (kept c s)"
proof -
  note q = kept_quiet [OF assms(1) quiet_addReply, of c c r]
  show ?thesis
    by (rule holds_bind, rule holds_mono [OF discardTransaction_kept [OF kept_inv [OF q]]])
      (use kept_list [OF q] assms(2) in \<open>auto simp: holds_def intro!: monitor_kept intro: kept_trans [OF q]\<close>)
qed

context runner
begin

lemma exec_loop_kept:
  assumes "core_inv s" and "c \<in> set (client_list s)"
    and "\<forall>(cm, av) \<in> set qs. queued_ok (cm, av) \<and> (\<forall>cl. cmd cl = Some cm \<longrightarrow> argv cl = av \<longrightarrow> pre cl)"
  shows "holds (exec_loop run c qs j mp s) (\<lambda>(s', m). kept0 c s s')"
  using assms
proof (induction qs arbitrary: j mp s)
  case Nil
  then show ?case by (simp add: holds_def kept0_def)
next
  case (Cons q qs)
  obtain cm av where q: "q = (cm, av)" by force
  define s1 where "s1 = upd_client c (\<lambda>cl. cl\<lparr>argv := av, cmd := Some cm\<rparr>) s"
  have k1: "kept0 c s s1" unfolding s1_def by (rule kept0_upd [OF Cons.prems(1)])
  have c1: "cmd (clients s1 c) = Some cm" "argv (clients s1 c) = av" by (simp_all add: s1_def upd_client_def)
  obtain s2 mp2 where s2: "(if \<not> mp \<and> REDIS_CMD_READONLY \<notin> flags cm then do {
          s \<leftarrow> execCommandPropagateMulti c s1; Some (s, True) } else Some (s1, mp)) = Some (s2, mp2)" "same_state s1 s2"
  proof -
    obtain s' where s': "execCommandPropagateMulti c s1 = Some s'" "same_state s1 s'"
      using propagate_same [OF multi_feedable, of "cdb (clients s1 c)" "[cstr ''MULTI'']" True True s1]
      by (auto simp: execCommandPropagateMulti_def)
    have "same_state s1 s1" by (simp add: same_state_def)
    then show ?thesis using that [of s' True] that [of s1 mp] s' by (cases "\<not> mp \<and> REDIS_CMD_READONLY \<notin> flags cm") auto
  qed
  have k2: "kept0 c s s2" by (rule kept0_trans [OF k1 kept_kept0 [OF kept_same [OF kept0_inv [OF k1] s2(2)]]])
  have c2: "cmd (clients s2 c) = Some cm" "argv (clients s2 c) = av" "c \<in> set (client_list s2)"
    using s2(2) c1 k2 Cons.prems(2) by (simp_all add: same_state_def kept0_def)
  have "cmd_ok (clients s2 c)" "pre (clients s2 c)"
    using c2 Cons.prems(3) q by (auto simp: cmd_ok_def queued_ok_def)
  then obtain s3 where s3: "call run c REDIS_CALL_FULL s2 = Some s3" "kept c s2 s3"
    using call_kept [OF kept0_inv [OF k2] c2(3)] by (auto simp: holds_def)
  have k3: "kept0 c s s3" by (rule kept0_trans [OF k2 kept_kept0 [OF s3(2)]])
  have "cmd_ok (clients s3 c)" using s3(2) \<open>cmd_ok (clients s2 c)\<close> by (simp add: kept_def)
  then obtain cm3 where cm3: "cmd (clients s3 c) = Some cm3" by (auto simp: cmd_ok_def)
  define s4 where "s4 = upd_client c (\<lambda>cl. cl\<lparr>mstate := (mstate cl)[j := (cm3, argv cl)]\<rparr>) s3"
  have k4: "kept0 c s s4" unfolding s4_def by (rule kept0_trans [OF k3 kept0_upd(2) [OF kept0_inv [OF k3]]])
  have "holds (exec_loop run c qs (j + 1) mp2 s4) (\<lambda>(s', m). kept0 c s4 s')"
    by (rule Cons.IH [OF kept0_inv [OF k4]]) (use k4 Cons.prems in \<open>auto simp: kept0_def\<close>)
  moreover have "exec_loop run c (q # qs) j mp s = exec_loop run c qs (j + 1) mp2 s4"
    unfolding q exec_loop.simps Let_def s1_def [symmetric] s2(1) bind.simps prod.case s3(1) cm3 s4_def [symmetric] ..
  ultimately show ?case by (auto simp: holds_def intro: kept0_trans [OF k4])
qed

lemma exec_kept:
  assumes "core_inv s" and "c \<in> set (client_list s)"
    and "\<forall>(cm, av) \<in> set (mstate (clients s c)). queued_ok (cm, av) \<and>
      (\<forall>cl. cmd cl = Some cm \<longrightarrow> argv cl = av \<longrightarrow> pre cl)"
  shows "holds (execCommand run c s) (kept c s)"
proof -
  note mon = monitor_kept [where c = c and s = s] and abort = abort_kept [OF assms(1,2)]
  obtain s1 where s1: "unwatchAllKeys c s = Some s1" "kept c s s1" "unwatched c s s1"
    using unwatchAllKeys_kept [OF assms(1,2)] by (auto simp: holds_def)
  have c1: "mstate (clients s1 c) = mstate (clients s c)" "argv (clients s1 c) = argv (clients s c)"
    "cmd (clients s1 c) = cmd (clients s c)"
    using s1(3) by (auto simp: unwatched_def)
  define s2 where "s2 = addReplyMultiBulkLen c (int (length (mstate (clients s1 c)))) s1"
  have q2: "quiet s1 s2" unfolding s2_def by (rule quiet_replies)
  have k2: "kept c s s2" by (rule kept_then_quiet [OF s1(2) q2])
  have m2: "mstate (clients s2 c) = mstate (clients s c)" using q2 c1 by (simp add: quiet_def frm_def client_frame_def)
  obtain s3 mp where s3: "exec_loop run c (mstate (clients s2 c)) 0 False s2 = Some (s3, mp)" "kept0 c s2 s3"
    using exec_loop_kept [OF kept_inv [OF k2], of c "mstate (clients s2 c)" 0 False] kept_list [OF k2] assms(2,3) m2
    by (auto simp: holds_def)
  define s4 where "s4 = upd_client c (\<lambda>cl. cl\<lparr>argv := argv (clients s c), cmd := cmd (clients s c)\<rparr>) s3"
  have k4: "kept0 c s s4"
    unfolding s4_def by (rule kept0_trans [OF kept0_trans [OF kept_kept0 [OF k2] s3(2)] kept0_upd(1) [OF kept0_inv [OF s3(2)]]])
  obtain s5 where s5: "discardTransaction c s4 = Some s5" "kept c s4 s5" "unwatched c (upd_client c discarded s4) s5"
    using discardTransaction_kept [OF kept0_inv [OF k4], of c] k4 assms(2) by (auto simp: holds_def kept0_def)
  have c5: "mstate (clients s5 c) = []" "argv (clients s5 c) = argv (clients s c)" "cmd (clients s5 c) = cmd (clients s c)"
    using s5(3) by (auto simp: unwatched_def upd_client_def discarded_def s4_def)
  have k5: "kept c s s5"
    using kept0_trans [OF k4 kept_kept0 [OF s5(2)]] c5 by (simp add: kept0_def kept_def cmd_ok_def)
  have "kept c s (if mp then s5\<lparr>dirty := dirty s5 + 1\<rparr> else s5)"
    using k5 kept_then_same [OF k5, of "s5\<lparr>dirty := dirty s5 + 1\<rparr>"] by (simp add: same_state_def)
  note last = mon [OF this]
  have m21: "mstate (clients s1 c) = mstate (clients s2 c)" using c1 m2 by simp
  have run: "do { s \<leftarrow> unwatchAllKeys c s;
        let orig_argv = argv (clients s c);
        let orig_cmd = cmd (clients s c);
        let s = addReplyMultiBulkLen c (int (length (mstate (clients s c)))) s;
        (s, must_propagate) \<leftarrow> exec_loop run c (mstate (clients s c)) 0 False s;
        let s = upd_client c (\<lambda>cl. cl\<lparr>argv := orig_argv, cmd := orig_cmd\<rparr>) s;
        s \<leftarrow> discardTransaction c s;
        let s = (if must_propagate then s\<lparr>dirty := dirty s + 1\<rparr> else s);
        Some (exec_monitor c s) } = Some (exec_monitor c (if mp then s5\<lparr>dirty := dirty s5 + 1\<rparr> else s5))"
    unfolding s1(1) bind.simps Let_def c1(2,3) s2_def [symmetric] s3(1) prod.case s4_def [symmetric] s5(1) ..
  show ?thesis
    unfolding execCommand_def Let_def [of "cflags (clients s c)"]
    by (rule holds_if, rule holds_kept_quiet [OF assms(1) quiet_replies(2)], rule holds_if)
      (simp only: Let_def abort, simp only: run, simp only: holds_def option.inject ex_simps simp_thms last)
qed

end

section \<open>The two runners\<close>

text \<open>The random samples are keys of the dictionary.\<close>

definition env_ok :: "'o exec_env \<Rightarrow> bool" where
  "env_ok e \<longleftrightarrow> (\<forall>U. samples_ok (menv e) U)"

definition queued_pre :: "'o exec_env \<Rightarrow> client \<Rightarrow> bool" where
  "queued_pre e cl \<longleftrightarrow> env_ok e \<and>
     (\<forall>cm. cmd cl = Some cm \<longrightarrow> safe_argv (cproc cm) (argv cl) \<and> cproc cm \<noteq> ''execCommand'')"

text \<open>Everything a client has queued can be executed.\<close>

definition queue_ok :: "client \<Rightarrow> bool" where
  "queue_ok cl \<longleftrightarrow> (\<forall>(cm, av) \<in> set (mstate cl).
     queued_ok (cm, av) \<and> safe_argv (cproc cm) av \<and> cproc cm \<noteq> ''execCommand'')"

definition top_pre :: "'o exec_env \<Rightarrow> client \<Rightarrow> bool" where
  "top_pre e cl \<longleftrightarrow> env_ok e \<and> queue_ok cl \<and> (\<forall>cm. cmd cl = Some cm \<longrightarrow> safe_argv (cproc cm) (argv cl))"

lemma run_queued_kept:
  assumes "core_inv s" and "c \<in> set (client_list s)" and "cmd (clients s c) = Some cm"
    and "cmd_ok (clients s c)" and "queued_pre e (clients s c)"
  shows "holds (run_queued e (cproc cm) c s) (kept c s)"
proof (cases "map_of (base_procs e) (cproc cm)")
  case None
  then have "cproc cm \<notin> set base_names" using base_names [of e] by (simp add: map_of_eq_None_iff flip: set_map)
  then show ?thesis
    using assms(3,5) by (auto simp: queued_pre_def safe_argv_def)
next
  case (Some f)
  have "command f (\<lambda>s c. safe_argv (cproc cm) (argv (clients s c))) (nargs (cproc cm))"
    using base_command [of e] map_of_SomeD [OF Some] by (auto simp: list_all_iff)
  moreover have "args_ok s c (nargs (cproc cm))"
    using assms(3,4) arity_nargs by (auto simp: cmd_ok_def args_ok_def args_len_def argc_def)
  moreover have "safe_argv (cproc cm) (argv (clients s c))" using assms(3,5) by (simp add: queued_pre_def)
  ultimately have "holds (f c s) (kept c s)" using assms(1,2) command.runs by blast
  then show ?thesis using Some by (simp add: run_queued_def)
qed

interpretation queued: runner "run_queued e" "queued_pre e" for e
  by unfold_locales (auto simp: run_queued_kept queued_pre_def)

lemma run_proc_kept:
  assumes "core_inv s" and "c \<in> set (client_list s)" and "cmd (clients s c) = Some cm"
    and "cmd_ok (clients s c)" and "top_pre e (clients s c)"
  shows "holds (run_proc e (cproc cm) c s) (kept c s)"
proof (cases "cproc cm = ''execCommand''")
  case True
  have "holds (execCommand (run_queued e) c s) (kept c s)"
    by (rule queued.exec_kept [OF assms(1,2)])
      (use assms(5) in \<open>fastforce simp: top_pre_def queue_ok_def queued_pre_def\<close>)
  then show ?thesis using True by (simp add: run_proc_def)
next
  case False
  then show ?thesis
    using run_queued_kept [OF assms(1-4)] assms(3,5) by (simp add: run_proc_def queued_pre_def top_pre_def)
qed

interpretation top: runner "run_proc e" "top_pre e" for e
  by unfold_locales (auto simp: run_proc_kept top_pre_def queue_ok_def)

section \<open>Processing a command\<close>

definition client_inv :: "client \<Rightarrow> bool" where
  "client_inv cl \<longleftrightarrow> queue_ok cl \<and> (REDIS_MULTI \<notin> cflags cl \<longrightarrow> mstate cl = [])"

definition sys_inv :: "'o server \<Rightarrow> bool" where
  "sys_inv s \<longleftrightarrow> core_inv s \<and> (\<forall>c \<in> set (client_list s). client_inv (clients s c))"

lemma client_inv_frame: "client_frame a b \<Longrightarrow> client_inv b = client_inv a"
  by (simp add: client_frame_def client_inv_def queue_ok_def)

lemma sys_inv_kept:
  assumes "sys_inv s" and "kept c s s'"
  shows "sys_inv s'"
proof -
  have "client_inv (clients s' x)" if "x \<in> set (client_list s)" for x
  proof (cases "x = c")
    case True
    have "client_inv (clients s c)" using assms(1) that True by (simp add: sys_inv_def)
    moreover have "mstate (clients s' c) = mstate (clients s c) \<and>
        (REDIS_MULTI \<in> cflags (clients s c) \<longrightarrow> REDIS_MULTI \<in> cflags (clients s' c)) \<or>
      mstate (clients s' c) = []" using assms(2) by (simp add: kept_def)
    ultimately show ?thesis unfolding True client_inv_def queue_ok_def by (elim disjE) auto
  next
    case False
    then have "client_frame (clients s x) (clients s' x)" using assms(2) by (simp add: kept_def)
    then show ?thesis using assms(1) that client_inv_frame by (simp add: sys_inv_def)
  qed
  then show ?thesis using assms by (simp add: sys_inv_def kept_def)
qed

lemma reject_kept: "core_inv s \<Longrightarrow> kept c s (reject c r s)"
proof -
  assume a: "core_inv s"
  have "kept c s (flagTransaction c s)"
    using a by (auto simp: flagTransaction_def kept_refl core_inv_def cmd_ok_def intro!: kept_upd)
  then show ?thesis unfolding reject_def by (rule kept_then_quiet) (rule quiet_addReply)
qed

lemma refuse_kept: "core_inv s \<Longrightarrow> refuse c cm s = Some s' \<Longrightarrow> kept c s s'"
  unfolding refuse_def Let_def
  by (auto simp: reject_kept kept_quiet quiet_addReply quiet_replies split: if_splits)

text \<open>The arguments of a request are within the limits of the protocol; a command that is found in the table
  is a modelled one and not called with the inputs for which the code is known to fail.\<close>

definition request_ok :: "'o server \<Rightarrow> nat \<Rightarrow> bool" where
  "request_ok s c \<longleftrightarrow> argv (clients s c) \<noteq> [] \<and> args_len (argv (clients s c)) \<and>
     (\<forall>cm. lookupCommand (commands s) (hd (argv (clients s c))) = Some cm \<longrightarrow>
        safe_argv (cproc cm) (argv (clients s c)))"

definition after :: "nat \<Rightarrow> 'o server \<Rightarrow> 'o server \<Rightarrow> bool" where
  "after c s s' \<longleftrightarrow> sys_inv s' \<and> client_list s' = client_list s \<and> dbnum s' = dbnum s \<and>
     querybuf (clients s' c) = querybuf (clients s c) \<and>
     (\<forall>x. x \<noteq> c \<longrightarrow> client_frame (clients s x) (clients s' x))"

definition steps_ok :: "nat \<Rightarrow> 'o server \<Rightarrow> 'o server option \<Rightarrow> bool" where
  "steps_ok c s r \<longleftrightarrow> (\<exists>s'. r = Some s' \<and> after c s s')"

lemma after_kept: "sys_inv s \<Longrightarrow> kept c s s' \<Longrightarrow> after c s s'"
  using sys_inv_kept by (auto simp: after_def kept_def)

lemma after_trans: "after c s s1 \<Longrightarrow> after c s1 s2 \<Longrightarrow> after c s s2"
  unfolding after_def by (auto intro: client_frame_trans)

lemma steps_ok_trans: "after c s s1 \<Longrightarrow> steps_ok c s1 r \<Longrightarrow> steps_ok c s r"
  using after_trans by (auto simp: steps_ok_def)

lemma steps_okI: "sys_inv s \<Longrightarrow> kept c s s' \<Longrightarrow> steps_ok c s (Some s')"
  using after_kept by (auto simp: steps_ok_def)

lemma queue_kept:
  assumes "sys_inv s" and "c \<in> set (client_list s)" and "cmd_ok (clients s c)" and "cmd (clients s c) = Some cm"
    and "safe_argv (cproc cm) (argv (clients s c))" and "queued_in_multi cm (clients s c)"
  shows "steps_ok c s (queueMultiCommand c s)"
proof -
  define s' where "s' = upd_client c (\<lambda>cl. cl\<lparr>mstate := mstate cl @ [(cm, argv cl)]\<rparr>) s"
  have "core_inv s'"
    unfolding s'_def using assms(1) by (intro core_inv_upd) (auto simp: sys_inv_def core_inv_def)
  moreover have "client_inv (clients s' c)"
    using assms by (auto simp: s'_def upd_client_def sys_inv_def client_inv_def queue_ok_def queued_ok_def
        cmd_ok_def queued_in_multi_def)
  ultimately have "sys_inv s'"
    using assms(1) by (auto simp: sys_inv_def) (auto simp: s'_def upd_client_def)
  then have "after c s s'" by (simp add: after_def s'_def) (simp add: upd_client_def)
  then show ?thesis using assms(4) by (simp add: queueMultiCommand_def s'_def steps_ok_def)
qed

lemma freeMemory_kept:
  assumes "core_inv s" and "env_ok e"
  shows "holds (if maxmemory s \<noteq> 0 then freeMemoryIfNeeded (menv e) s else Some (s, True)) (\<lambda>(s', ok). kept c s s' \<and>
     client_frame (clients s c) (clients s' c))"
proof -
  have d: "data_inv s" by (rule core_data [OF assms(1)])
  obtain s' ok where "freeMemoryIfNeeded (menv e) s = Some (s', ok)" "evicted s s'"
    using freeMemory_evicted [OF d, of "menv e"] assms(2) by (auto simp: env_ok_def)
  then show ?thesis
    using kept_st [OF assms(1)] kept_refl [OF assms(1)] by (auto simp: holds_def evicted_def st_def frm_def)
qed

lemma execute_ok:
  assumes "sys_inv s" and "env_ok e" and "c \<in> set (client_list s)" and "cmd_ok (clients s c)"
    and "cmd (clients s c) = Some cm" and "safe_argv (cproc cm) (argv (clients s c))"
  shows "steps_ok c s (execute e c cm s)"
proof (cases "queued_in_multi cm (clients s c)")
  case True
  obtain s1 where s1: "queueMultiCommand c s = Some s1" "after c s s1" "sys_inv s1"
    using queue_kept [OF assms(1,3-6) True] by (auto simp: steps_ok_def after_def)
  have "kept c s1 (addReply c (Raw shared_queued) s1)"
    using s1(3) by (intro kept_quiet quiet_addReply) (simp add: sys_inv_def)
  from steps_ok_trans [OF s1(2) steps_okI [OF s1(3) this]] show ?thesis
    using True s1(1) by (simp add: execute_def)
next
  case False
  have "top_pre e (clients s c)"
    using assms by (auto simp: top_pre_def sys_inv_def client_inv_def)
  then have "holds (call (run_proc e) c REDIS_CALL_FULL s) (kept c s)"
    using top.call_kept assms(1,3,4) by (auto simp: sys_inv_def)
  then show ?thesis
    using False steps_okI [OF assms(1)] by (auto simp: execute_def holds_def)
qed

lemma flag_kept: "core_inv s \<Longrightarrow> kept c s (flagTransaction c s)"
  by (auto simp: flagTransaction_def kept_refl core_inv_def cmd_ok_def intro!: kept_upd)

lemma format_ok: "sys_inv s \<Longrightarrow> steps_ok c s (Some (addReplyErrorFormat c t (flagTransaction c s)))"
  by (rule steps_okI, assumption, rule kept_then_quiet [OF flag_kept quiet_replies(3)]) (simp add: sys_inv_def)

lemma reject_ok: "sys_inv s \<Longrightarrow> steps_ok c s (Some (reject c r s))"
  by (rule steps_okI, assumption, rule reject_kept) (simp add: sys_inv_def)

lemma process_found_ok:
  assumes "sys_inv s" and "env_ok e" and "c \<in> set (client_list s)" and "cmd (clients s c) = Some cm"
    and "known_cmd cm" and "args_len (argv (clients s c))" and "safe_argv (cproc cm) (argv (clients s c))"
  shows "steps_ok c s (process_found e c cm s)"
proof (cases "arity_ok cm (argc s c)")
  case True
  have core: "core_inv s" using assms(1) by (simp add: sys_inv_def)
  obtain s2 ok where s2: "(if maxmemory s \<noteq> 0 then freeMemoryIfNeeded (menv e) s else Some (s, True)) = Some (s2, ok)"
    "kept c s s2" "client_frame (clients s c) (clients s2 c)"
    using freeMemory_kept [OF core assms(2), of c] by (auto simp: holds_def)
  have i2: "sys_inv s2" "client_list s2 = client_list s"
    using sys_inv_kept [OF assms(1) s2(2)] kept_list [OF s2(2)] by auto
  have "cmd_ok (clients s c)" using True assms(4-6) by (simp add: cmd_ok_def argc_def)
  then have c2: "cmd (clients s2 c) = Some cm" "argv (clients s2 c) = argv (clients s c)" "cmd_ok (clients s2 c)"
    using s2(2,3) assms(4) by (auto simp: client_frame_def kept_def)
  have "steps_ok c s2 (execute e c cm s2)"
    using execute_ok [OF i2(1) assms(2)] c2 i2 assms(3,7) by simp
  moreover have "steps_ok c s2 (Some x)" if "refuse c cm s2 = Some x" for x
    using i2(1) refuse_kept [OF _ that] by (intro steps_okI) (auto simp: sys_inv_def)
  ultimately have "steps_ok c s2 (if REDIS_CMD_DENYOOM \<in> flags cm \<and> \<not> ok then Some (reject c shared_oomerr s2)
      else case refuse c cm s2 of Some s \<Rightarrow> Some s | None \<Rightarrow> execute e c cm s2)"
    using reject_ok [OF i2(1)] by (auto split: option.splits)
  from steps_ok_trans [OF after_kept [OF assms(1) s2(2)] this] show ?thesis
    using True reject_ok [OF assms(1)] s2(1) by (auto simp: process_found_def)
qed (simp add: process_found_def format_ok assms(1))

lemma quit_ok:
  "sys_inv s \<Longrightarrow> steps_ok c s (Some (upd_client c (set_flag REDIS_CLOSE_AFTER_REPLY) (addReply c (Raw shared_ok) s)))"
proof (rule steps_okI, assumption)
  assume "sys_inv s"
  then have core: "core_inv s" by (simp add: sys_inv_def)
  note q = kept_quiet [OF core quiet_addReply, of c c "Raw shared_ok"]
  show "kept c s (upd_client c (set_flag REDIS_CLOSE_AFTER_REPLY) (addReply c (Raw shared_ok) s))"
    using kept_inv [OF q] by (intro kept_trans [OF q] kept_upd) (auto simp: cmd_ok_def core_inv_def)
qed

lemma set_cmd_after:
  assumes "sys_inv s"
  shows "after c s (upd_client c (\<lambda>cl. cl\<lparr>cmd := x\<rparr>) s)"
proof -
  have "core_inv (upd_client c (\<lambda>cl. cl\<lparr>cmd := x\<rparr>) s)"
    using assms by (intro core_inv_upd) (auto simp: sys_inv_def core_inv_def)
  then show ?thesis
    using assms by (auto simp: after_def sys_inv_def upd_client_def client_inv_def queue_ok_def client_frame_def)
qed

text \<open>The result also tells that a client whose request was not executed is to be closed.\<close>

lemma process_ok:
  assumes "sys_inv s" and "env_ok e" and "c \<in> set (client_list s)" and "request_ok s c"
  shows "\<exists>s' ok. processCommand e c s = Some (s', ok) \<and> after c s s' \<and>
     (\<not> ok \<longrightarrow> REDIS_CLOSE_AFTER_REPLY \<in> cflags (clients s' c))"
proof -
  obtain name rest where av: "argv (clients s c) = name # rest"
    using assms(4) by (cases "argv (clients s c)") (auto simp: request_ok_def)
  define found where "found = lookupCommand (commands s) name"
  define s1 where "s1 = upd_client c (\<lambda>cl. cl\<lparr>cmd := found\<rparr>) s"
  have a1: "after c s s1" unfolding s1_def by (rule set_cmd_after [OF assms(1)])
  then have i1: "sys_inv s1" by (simp add: after_def)
  have c1: "argv (clients s1 c) = name # rest" "cmd (clients s1 c) = found" "client_list s1 = client_list s"
    using av by (simp_all add: s1_def upd_client_def)
  have run: "steps_ok c s1 (process_found e c cm s1)" if "found = Some cm" for cm
  proof (rule process_found_ok [OF i1 assms(2)])
    show "known_cmd cm"
      using populated(2) that assms(1) by (auto simp: found_def lookupCommand_def sys_inv_def core_inv_def tables_ok_def)
  qed (use that c1 assms(3,4) av in \<open>auto simp: request_ok_def found_def\<close>)
  define r where "r = (case found of
      None \<Rightarrow> Some (addReplyErrorFormat c (cstr ''unknown command '' @ quoted (c_string name)) (flagTransaction c s1))
    | Some cm \<Rightarrow> process_found e c cm s1)"
  have "steps_ok c s1 r"
    using run format_ok [OF i1] by (auto simp: r_def split: option.splits)
  then obtain s2 where s2: "r = Some s2" "after c s s2"
    using steps_ok_trans [OF a1] by (auto simp: steps_ok_def)
  obtain q where q: "q = upd_client c (set_flag REDIS_CLOSE_AFTER_REPLY) (addReply c (Raw shared_ok) s)" "after c s q"
    using quit_ok [OF assms(1), of c] by (auto simp: steps_ok_def)
  have "REDIS_CLOSE_AFTER_REPLY \<in> cflags (clients q c)" by (simp add: q(1) upd_client_def)
  moreover have "processCommand e c s =
      (if strcasecmp_eq (c_string name) (cstr ''quit'') then Some (q, False) else Some (s2, True))"
    using s2(1) unfolding processCommand_def r_def s1_def found_def q(1) by (simp add: arg_def av Let_def)
  ultimately show ?thesis
    using s2 q(2) by (cases "strcasecmp_eq (c_string name) (cstr ''quit'')") (simp_all, blast+)
qed


end
