(* ===== verification/Protocol.thy ===== *)
theory Protocol
  imports Process
begin

text \<open>
  Reading requests (\<open>networking.c\<close>): the query buffer of a client is parsed into argument vectors, in the
  inline format or as multi bulk requests, and every complete request is processed. The fields that the
  parsers work on are collected in a record \<open>input\<close>; \<open>ref_parse\<close> is the grammar of multi bulk requests,
  without positions and without the treatment of large arguments. A request is read back whole however it
  is cut into pieces (theory Protocol_Props). \<^const>\<open>None\<close> is a failed assertion.
\<close>

section \<open>The input of a client\<close>

record input =
  in_buf :: bytes
  in_mbulk :: int
  in_bulk :: int
  in_args :: "bytes list"

definition input_of :: "client \<Rightarrow> input" where
  "input_of cl = \<lparr>in_buf = querybuf cl, in_mbulk = multibulklen cl, in_bulk = bulklen cl, in_args = argv cl\<rparr>"

definition set_input :: "input \<Rightarrow> client \<Rightarrow> client" where
  "set_input i cl = cl\<lparr>querybuf := in_buf i, multibulklen := in_mbulk i, bulklen := in_bulk i, argv := in_args i\<rparr>"

definition REDIS_INLINE_MAX_SIZE :: nat where "REDIS_INLINE_MAX_SIZE = 1024 * 64"

definition REDIS_MBULK_BIG_ARG :: int where "REDIS_MBULK_BIG_ARG = 1024 * 32"

text \<open>How a parser ends: a request is complete, more data is needed, or an error with its text.\<close>

datatype outcome = O_READY | O_WAIT | O_ERROR bytes

text \<open>\<open>strchr\<close>: a nul byte ends the search.\<close>

fun strchr_pos :: "byte \<Rightarrow> bytes \<Rightarrow> nat option" where
  "strchr_pos c [] = None"
| "strchr_pos c (x # xs) =
     (if x = c then Some 0 else if x = 0 then None else map_option Suc (strchr_pos c xs))"

definition find_cr :: "bytes \<Rightarrow> nat \<Rightarrow> nat option" where
  "find_cr b pos = map_option ((+) pos) (strchr_pos 13 (drop pos b))"

definition too_big :: "string \<Rightarrow> bytes \<Rightarrow> outcome" where
  "too_big msg b = (if length b > REDIS_INLINE_MAX_SIZE then O_ERROR (cstr msg) else O_WAIT)"

section \<open>Multi bulk requests\<close>

text \<open>The number of arguments. The result is a position with the outcome or the input to go on with.\<close>

definition read_count :: "input \<Rightarrow> (nat \<times> (outcome + input)) option" where
  "read_count i =
     (if in_args i \<noteq> [] then None
      else
        let b = in_buf i in
        case find_cr b 0 of
          None \<Rightarrow> Some (0, Inl (too_big ''Protocol error: too big mbulk count string'' b))
        | Some newline \<Rightarrow>
            if int newline > int (length b) - 2 then Some (0, Inl O_WAIT)
            else if b ! 0 \<noteq> ch CHR ''*'' then None
            else
              case string2ll (take (newline - 1) (drop 1 b)) of
                None \<Rightarrow> Some (0, Inl (O_ERROR (cstr ''Protocol error: invalid multibulk length'')))
              | Some ll \<Rightarrow>
                  if ll > 1024 * 1024 then
                    Some (0, Inl (O_ERROR (cstr ''Protocol error: invalid multibulk length'')))
                  else if ll \<le> 0 then Some (newline + 2, Inl O_READY)
                  else Some (newline + 2, Inr (i\<lparr>in_mbulk := ll, in_args := []\<rparr>)))"

text \<open>The length of an argument, if it is not known. A large argument is moved to the front of the
  buffer.\<close>

definition read_length :: "nat \<Rightarrow> input \<Rightarrow> nat \<times> (outcome + input)" where
  "read_length pos i =
     (if in_bulk i \<noteq> - 1 then (pos, Inr i)
      else
        let b = in_buf i in
        case find_cr b pos of
          None \<Rightarrow> (pos, Inl (too_big ''Protocol error: too big bulk count string'' b))
        | Some newline \<Rightarrow>
            if int newline > int (length b) - 2 then (pos, Inl O_WAIT)
            else if b ! pos \<noteq> ch CHR ''$'' then
              (pos, Inl (O_ERROR (cstr ''Protocol error: expected '' @ cstr [CHR 0x27] @ cstr ''$'' @ cstr [CHR 0x27] @
                 cstr '', got '' @ cstr [CHR 0x27] @ [b ! pos] @ cstr [CHR 0x27])))
            else
              case string2ll (take (newline - (pos + 1)) (drop (pos + 1) b)) of
                None \<Rightarrow> (pos, Inl (O_ERROR (cstr ''Protocol error: invalid bulk length'')))
              | Some ll \<Rightarrow>
                  if ll < 0 \<or> ll > 512 * 1024 * 1024 then
                    (pos, Inl (O_ERROR (cstr ''Protocol error: invalid bulk length'')))
                  else
                    let pos = newline + 2 in
                    if ll \<ge> REDIS_MBULK_BIG_ARG then (0, Inr (i\<lparr>in_buf := drop pos b, in_bulk := ll\<rparr>))
                    else (pos, Inr (i\<lparr>in_bulk := ll\<rparr>)))"

text \<open>One argument. When the buffer holds nothing else, it becomes the argument.\<close>

definition read_arg :: "nat \<Rightarrow> input \<Rightarrow> nat \<times> input" where
  "read_arg pos i =
     (let b = in_buf i; n = nat (in_bulk i) in
      if pos = 0 \<and> in_bulk i \<ge> REDIS_MBULK_BIG_ARG \<and> int (length b) = in_bulk i + 2 then
        (0, i\<lparr>in_args := in_args i @ [take n b], in_buf := []\<rparr>)
      else (pos + n + 2, i\<lparr>in_args := in_args i @ [take n (drop pos b)]\<rparr>))"

function mbulk_loop :: "nat \<Rightarrow> input \<Rightarrow> nat \<times> input \<times> outcome" where
  "mbulk_loop pos i =
     (if in_mbulk i \<le> 0 then (pos, i, O_READY)
      else
        case read_length pos i of
          (pos, Inl oc) \<Rightarrow> (pos, i, oc)
        | (pos, Inr i') \<Rightarrow>
            if int (length (in_buf i') - pos) < in_bulk i' + 2 then (pos, i', O_WAIT)
            else
              let (pos, i'') = read_arg pos i'
              in mbulk_loop pos (i''\<lparr>in_bulk := - 1, in_mbulk := in_mbulk i - 1\<rparr>))"
  by auto
termination
  by (relation "measure (\<lambda>(pos, i). nat (in_mbulk i))") simp_all

text \<open>Whatever the outcome, the buffer is trimmed to the position at the end.\<close>

definition parse_multibulk :: "input \<Rightarrow> (input \<times> outcome) option" where
  "parse_multibulk i = do {
     (pos, r) \<leftarrow> (if in_mbulk i = 0 then read_count i else Some (0, Inr i));
     case r of
       Inl oc \<Rightarrow> Some (i\<lparr>in_buf := drop pos (in_buf i)\<rparr>, oc)
     | Inr i \<Rightarrow>
         if in_mbulk i \<le> 0 then None
         else let (pos, i, oc) = mbulk_loop pos i in Some (i\<lparr>in_buf := drop pos (in_buf i)\<rparr>, oc) }"

section \<open>Inline requests\<close>

text \<open>The length of the line, without the characters that end it.\<close>

definition line_length :: "bytes \<Rightarrow> nat option" where
  "line_length b =
     map_option (\<lambda>newline. if newline \<noteq> 0 \<and> b ! (newline - 1) = 13 then newline - 1 else newline)
       (strchr_pos 10 b)"

definition parse_inline :: "input \<Rightarrow> input \<times> outcome" where
  "parse_inline i =
     (let b = in_buf i in
      case line_length b of
        None \<Rightarrow> (i, too_big ''Protocol error: too big inline request'' b)
      | Some querylen \<Rightarrow>
          case sdssplitargs (take querylen b) of
            None \<Rightarrow> (i, O_ERROR (cstr ''Protocol error: unbalanced quotes in request''))
          | Some av \<Rightarrow>
              (i\<lparr>in_buf := drop (querylen + 2) b, in_args := filter (\<lambda>a. a \<noteq> []) av\<rparr>, O_READY))"

section \<open>Requests of a client\<close>

definition setProtocolError :: "client \<Rightarrow> client" where
  "setProtocolError = set_flag REDIS_CLOSE_AFTER_REPLY"

text \<open>The parsed input is stored; an error is sent to the client, which then is to be closed. The result
  tells whether a request is complete.\<close>

definition store_parsed :: "nat \<Rightarrow> input \<times> outcome \<Rightarrow> 'o server \<Rightarrow> 'o server \<times> bool" where
  "store_parsed c r s =
     (let s = upd_client c (set_input (fst r)) s in
      case snd r of
        O_READY \<Rightarrow> (s, True)
      | O_WAIT \<Rightarrow> (s, False)
      | O_ERROR msg \<Rightarrow> (upd_client c setProtocolError (addReplyErrorFormat c msg s), False))"

definition processMultibulkBuffer :: "nat \<Rightarrow> 'o server \<Rightarrow> ('o server \<times> bool) option" where
  "processMultibulkBuffer c s =
     map_option (\<lambda>r. store_parsed c r s) (parse_multibulk (input_of (clients s c)))"

text \<open>An empty line from a replica counts as a sign of life.\<close>

definition processInlineBuffer :: "nat \<Rightarrow> 'o server \<Rightarrow> 'o server \<times> bool" where
  "processInlineBuffer c s =
     (let cl = clients s c;
          r = parse_inline (input_of cl);
          s = (if snd r = O_READY \<and> line_length (querybuf cl) = Some 0 \<and> REDIS_SLAVE \<in> cflags cl
               then upd_client c (\<lambda>cl. cl\<lparr>repl_ack_time := unixtime (oenv s)\<rparr>) s else s)
      in store_parsed c r s)"

definition resetClient :: "client \<Rightarrow> client" where
  "resetClient cl =
     (let cl = cl\<lparr>argv := [], cmd := None, reqtype := REQ_NONE, multibulklen := 0, bulklen := - 1\<rparr>
      in if REDIS_MULTI \<in> cflags cl then cl else clr_flag REDIS_ASKING cl)"

definition request_type :: "client \<Rightarrow> client" where
  "request_type cl =
     (if reqtype cl = REQ_NONE then
        cl\<lparr>reqtype := (if querybuf cl ! 0 = ch CHR ''*'' then REDIS_REQ_MULTIBULK else REDIS_REQ_INLINE)\<rparr>
      else cl)"

definition stopped :: "client \<Rightarrow> bool" where
  "stopped cl \<longleftrightarrow> REDIS_BLOCKED \<in> cflags cl \<or> REDIS_CLOSE_AFTER_REPLY \<in> cflags cl"

text \<open>Every round but the last takes something from the buffer, so the length of the buffer and one more
  are enough rounds.\<close>

fun input_loop :: "nat \<Rightarrow> 'o exec_env \<Rightarrow> nat \<Rightarrow> 'o server \<Rightarrow> 'o server option" where
  "input_loop 0 e c s = None"
| "input_loop (Suc n) e c s =
     (if querybuf (clients s c) = [] \<or> stopped (clients s c) then Some s
      else do {
        let s = upd_client c request_type s;
        (s, ok) \<leftarrow> (if reqtype (clients s c) = REDIS_REQ_INLINE then Some (processInlineBuffer c s)
                   else processMultibulkBuffer c s);
        if \<not> ok then Some s
        else if argv (clients s c) = [] then input_loop n e c (upd_client c resetClient s)
        else do {
          (s, executed) \<leftarrow> processCommand e c s;
          input_loop n e c (if executed then upd_client c resetClient s else s) } })"

definition processInputBuffer :: "'o exec_env \<Rightarrow> nat \<Rightarrow> 'o server \<Rightarrow> 'o server option" where
  "processInputBuffer e c s = input_loop (length (querybuf (clients s c)) + 1) e c s"

end
