(* ===== verification/Protocol_Props.thy ===== *)
theory Protocol_Props
  imports Protocol
begin

text \<open>
  The parser of multi bulk requests: \<open>mbulk_loop\<close> with its positions and its treatment of large arguments
  computes the same as the grammar \<open>ref_loop\<close>; the text that \<open>catAppendOnlyGenericCommand\<close> produces for a
  command is read back as that command; and a request may arrive in any pieces.
\<close>

section \<open>The grammar\<close>

function ref_loop :: "input \<Rightarrow> input \<times> outcome" where
  "ref_loop i =
     (let b = in_buf i in
      if in_mbulk i \<le> 0 then (i, O_READY)
      else if in_bulk i = - 1 then
        (case strchr_pos 13 b of
           None \<Rightarrow> (i, O_WAIT)
         | Some n \<Rightarrow>
             if length b < n + 2 then (i, O_WAIT)
             else if b ! 0 \<noteq> ch CHR ''$'' then
               (i, O_ERROR (cstr ''Protocol error: expected '' @ cstr [CHR 0x27] @ cstr ''$'' @ cstr [CHR 0x27] @
                 cstr '', got '' @ cstr [CHR 0x27] @ [b ! 0] @ cstr [CHR 0x27]))
             else
               case string2ll (take (n - 1) (drop 1 b)) of
                 None \<Rightarrow> (i, O_ERROR (cstr ''Protocol error: invalid bulk length''))
               | Some ll \<Rightarrow>
                   if ll < 0 \<or> ll > 512 * 1024 * 1024 then
                     (i, O_ERROR (cstr ''Protocol error: invalid bulk length''))
                   else ref_loop (i\<lparr>in_buf := drop (n + 2) b, in_bulk := ll\<rparr>))
      else if int (length b) < in_bulk i + 2 then (i, O_WAIT)
      else
        let n = nat (in_bulk i)
        in ref_loop (i\<lparr>in_args := in_args i @ [take n b], in_buf := drop (n + 2) b, in_bulk := - 1,
             in_mbulk := in_mbulk i - 1\<rparr>))"
  by auto
termination
  by (relation "measures [\<lambda>i. nat (in_mbulk i), \<lambda>i. if in_bulk i = - 1 then 1 else 0]") auto

declare ref_loop.simps [simp del] mbulk_loop.simps [simp del]

definition trimmed_at :: "nat \<times> input \<times> outcome \<Rightarrow> input \<times> outcome" where
  "trimmed_at r = (case r of (pos, i, oc) \<Rightarrow> (i\<lparr>in_buf := drop pos (in_buf i)\<rparr>, oc))"

lemma strchr_pos_less: "strchr_pos c b = Some n \<Longrightarrow> n < length b \<and> b ! n = c"
  by (induction b arbitrary: n) (auto split: if_splits)

lemma strchr_pos_append: "strchr_pos c a = Some n \<Longrightarrow> strchr_pos c (a @ b) = Some n"
  by (induction a arbitrary: n) (auto split: if_splits)

lemma strchr_pos_skip: "c \<notin> set a \<Longrightarrow> 0 \<notin> set a \<Longrightarrow> strchr_pos c (a @ b) = map_option ((+) (length a)) (strchr_pos c b)"
  by (induction a; cases "strchr_pos c b") auto

text \<open>The buffer from a position on.\<close>

abbreviation from_pos :: "nat \<Rightarrow> input \<Rightarrow> input" where
  "from_pos pos i \<equiv> i\<lparr>in_buf := drop pos (in_buf i)\<rparr>"

text \<open>Within the limit on the size of the buffer, or when no more data is needed, both agree, step by step.\<close>

lemma read_length_ref:
  assumes "in_bulk i \<ge> - 1" and "pos \<le> length (in_buf i)" and "in_mbulk i > 0"
    and "length (in_buf i) \<le> REDIS_INLINE_MAX_SIZE \<or> snd (ref_loop (from_pos pos i)) \<noteq> O_WAIT"
  shows "case read_length pos i of
      (p, Inl oc) \<Rightarrow> p = pos \<and> ref_loop (from_pos pos i) = (from_pos pos i, oc)
    | (p, Inr i') \<Rightarrow> ref_loop (from_pos p i') = ref_loop (from_pos pos i) \<and> p \<le> length (in_buf i') \<and>
        in_bulk i' \<ge> 0 \<and> in_mbulk i' = in_mbulk i \<and> length (in_buf i') \<le> length (in_buf i)"
proof (cases "in_bulk i = - 1")
  case False
  then show ?thesis using assms by (simp add: read_length_def)
next
  case True
  define b where "b = drop pos (in_buf i)"
  note ref = ref_loop.simps [of "from_pos pos i"]
  show ?thesis
  proof (cases "strchr_pos 13 b")
    case None
    have "ref_loop (from_pos pos i) = (from_pos pos i, O_WAIT)"
      using True None assms(3) by (simp add: ref b_def)
    then show ?thesis
      using True None assms(4) by (simp add: read_length_def find_cr_def b_def too_big_def)
  next
    case (Some n)
    then have n: "n < length b" using strchr_pos_less by blast
    have f: "find_cr (in_buf i) pos = Some (pos + n)" using Some by (simp add: find_cr_def b_def)
    have w: "int (pos + n) > int (length (in_buf i)) - 2 \<longleftrightarrow> length b < n + 2"
      using n by (auto simp: b_def)
    have x: "in_buf i ! pos = b ! 0" using n by (simp add: b_def)
    have d: "take (pos + n - (pos + 1)) (drop (pos + 1) (in_buf i)) = take (n - 1) (drop 1 b)"
      by (simp add: b_def add.commute)
    define oc where "oc = O_ERROR (cstr ''Protocol error: expected '' @ cstr [CHR 0x27] @ cstr ''$'' @ cstr [CHR 0x27] @
      cstr '', got '' @ cstr [CHR 0x27] @ [b ! 0] @ cstr [CHR 0x27])"
    define bad where "bad = O_ERROR (cstr ''Protocol error: invalid bulk length'')"
    define num where "num = string2ll (take (n - 1) (drop 1 b))"
    have r: "ref_loop (from_pos pos i) =
       (if length b < n + 2 then (from_pos pos i, O_WAIT)
        else if b ! 0 \<noteq> ch CHR ''$'' then (from_pos pos i, oc)
        else case num of
          None \<Rightarrow> (from_pos pos i, bad)
        | Some ll \<Rightarrow> if ll < 0 \<or> ll > 512 * 1024 * 1024 then (from_pos pos i, bad)
            else ref_loop (i\<lparr>in_buf := drop (n + 2) b, in_bulk := ll\<rparr>))"
      by (subst ref_loop.simps)
        (use True assms(3) Some in \<open>simp add: Let_def b_def [symmetric] oc_def bad_def num_def split: option.split\<close>)
    have l: "read_length pos i =
       (if length b < n + 2 then (pos, Inl O_WAIT)
        else if b ! 0 \<noteq> ch CHR ''$'' then (pos, Inl oc)
        else case num of
          None \<Rightarrow> (pos, Inl bad)
        | Some ll \<Rightarrow> if ll < 0 \<or> ll > 512 * 1024 * 1024 then (pos, Inl bad)
            else if ll \<ge> REDIS_MBULK_BIG_ARG then (0, Inr (i\<lparr>in_buf := drop (n + 2) b, in_bulk := ll\<rparr>))
            else (pos + n + 2, Inr (i\<lparr>in_bulk := ll\<rparr>)))"
    proof -
      have q: "drop (pos + n + 2) (in_buf i) = drop (n + 2) b" by (simp add: b_def add.commute add.left_commute)
      show ?thesis
        by (simp only: read_length_def True f w x d q Let_def option.case oc_def bad_def num_def simp_thms if_False if_True)
    qed
    have "length b = length (in_buf i) - pos" "drop (n + 2) b = drop (pos + n + 2) (in_buf i)"
      by (simp_all add: b_def add.commute add.left_commute)
    then show ?thesis
      using n unfolding r l
      by (cases num; cases i) (auto simp: True)
  qed
qed

lemma read_arg_ref:
  assumes "in_bulk i \<ge> 0" and "pos \<le> length (in_buf i)" and "in_mbulk i > 0" and "read_arg pos i = (q, i')"
  shows "int (length (in_buf i) - pos) < in_bulk i + 2 \<Longrightarrow> ref_loop (from_pos pos i) = (from_pos pos i, O_WAIT)"
    and "\<not> int (length (in_buf i) - pos) < in_bulk i + 2 \<Longrightarrow>
      ref_loop (from_pos q (i'\<lparr>in_bulk := - 1, in_mbulk := in_mbulk i - 1\<rparr>)) = ref_loop (from_pos pos i) \<and>
      q \<le> length (in_buf i') \<and> length (in_buf i') \<le> length (in_buf i)"
proof -
  show "ref_loop (from_pos pos i) = (from_pos pos i, O_WAIT)" if "int (length (in_buf i) - pos) < in_bulk i + 2"
    by (subst ref_loop.simps) (use assms that in \<open>simp add: Let_def\<close>)
  assume a: "\<not> int (length (in_buf i) - pos) < in_bulk i + 2"
  define n where "n = nat (in_bulk i)"
  have n: "in_bulk i = int n" "in_bulk i \<noteq> - 1" "n + 2 \<le> length (in_buf i) - pos"
    "\<not> int (length (in_buf i)) - int pos < int n + 2"
    using assms(1,2) a by (auto simp: n_def)
  have "ref_loop (from_pos pos i) =
    ref_loop (i\<lparr>in_buf := drop (pos + n + 2) (in_buf i), in_args := in_args i @ [take n (drop pos (in_buf i))], in_bulk := - 1,
      in_mbulk := in_mbulk i - 1\<rparr>)"
    by (subst ref_loop.simps, cases i) (use assms(3) a n in \<open>simp add: Let_def add.commute add.left_commute\<close>)
  moreover have "from_pos q (i'\<lparr>in_bulk := - 1, in_mbulk := in_mbulk i - 1\<rparr>) =
      i\<lparr>in_buf := drop (pos + n + 2) (in_buf i), in_args := in_args i @ [take n (drop pos (in_buf i))], in_bulk := - 1,
        in_mbulk := in_mbulk i - 1\<rparr>" "q \<le> length (in_buf i')" "length (in_buf i') \<le> length (in_buf i)"
    using assms(4) n(1,3) by (auto simp: read_arg_def Let_def split: if_splits)
  ultimately show "ref_loop (from_pos q (i'\<lparr>in_bulk := - 1, in_mbulk := in_mbulk i - 1\<rparr>)) = ref_loop (from_pos pos i) \<and>
      q \<le> length (in_buf i') \<and> length (in_buf i') \<le> length (in_buf i)" by simp
qed

lemma mbulk_loop_ref:
  assumes "in_bulk i \<ge> - 1" and "pos \<le> length (in_buf i)"
    and "length (in_buf i) \<le> REDIS_INLINE_MAX_SIZE \<or> snd (ref_loop (from_pos pos i)) \<noteq> O_WAIT"
  shows "trimmed_at (mbulk_loop pos i) = ref_loop (from_pos pos i)"
  using assms
proof (induction pos i rule: mbulk_loop.induct)
  case (1 pos i)
  show ?case
  proof (cases "in_mbulk i \<le> 0")
    case True
    then show ?thesis by (simp add: mbulk_loop.simps [of pos i] ref_loop.simps [of "from_pos pos i"] trimmed_at_def)
  next
    case False
    then have m: "in_mbulk i > 0" by simp
    note len = read_length_ref [OF 1(2,3) m 1(4)]
    obtain p r where r: "read_length pos i = (p, r)" by force
    show ?thesis
    proof (cases r)
      case (Inl oc)
      then show ?thesis using len r m by (simp add: mbulk_loop.simps [of pos i] trimmed_at_def)
    next
      case (Inr i')
      then have i': "ref_loop (from_pos p i') = ref_loop (from_pos pos i)" "p \<le> length (in_buf i')" "in_bulk i' \<ge> 0"
        "in_mbulk i' = in_mbulk i" "length (in_buf i') \<le> length (in_buf i)" using len r by simp_all
      obtain q i2 where q: "read_arg p i' = (q, i2)" by force
      note arg = read_arg_ref [OF i'(3,2) _ q, unfolded i'(4), OF m]
      show ?thesis
      proof (cases "int (length (in_buf i') - p) < in_bulk i' + 2")
        case True
        then show ?thesis using arg(1) i'(1) r Inr m by (simp add: mbulk_loop.simps [of pos i] trimmed_at_def)
      next
        case w: False
        have step: "mbulk_loop pos i = mbulk_loop q (i2\<lparr>in_bulk := - 1, in_mbulk := in_mbulk i - 1\<rparr>)"
          using r Inr m w q by (simp add: mbulk_loop.simps [of pos i])
        have a: "ref_loop (from_pos q (i2\<lparr>in_bulk := - 1, in_mbulk := in_mbulk i - 1\<rparr>)) = ref_loop (from_pos pos i)"
          "q \<le> length (in_buf i2)" "length (in_buf i2) \<le> length (in_buf i')" using arg(2) [OF w] i'(1) by simp_all
        have "trimmed_at (mbulk_loop q (i2\<lparr>in_bulk := - 1, in_mbulk := in_mbulk i - 1\<rparr>)) =
            ref_loop (from_pos q (i2\<lparr>in_bulk := - 1, in_mbulk := in_mbulk i - 1\<rparr>))"
          by (rule 1(1) [OF False r [symmetric] Inr w refl q [symmetric]]) (use a i'(5) 1(4) in auto)
        then show ?thesis using step a(1) by simp
      qed
    qed
  qed
qed

section \<open>Requests that arrive in pieces\<close>

abbreviation more :: "input \<Rightarrow> bytes \<Rightarrow> input" where
  "more i b \<equiv> i\<lparr>in_buf := in_buf i @ b\<rparr>"

lemma more_upd:
  "more (i\<lparr>in_buf := x, in_bulk := y\<rparr>) b = i\<lparr>in_buf := x @ b, in_bulk := y\<rparr>"
  "more (i\<lparr>in_args := z, in_buf := x, in_bulk := y, in_mbulk := m\<rparr>) b =
    i\<lparr>in_args := z, in_buf := x @ b, in_bulk := y, in_mbulk := m\<rparr>"
  by (cases i; simp)+

text \<open>More data goes on where the grammar waits for it and is left over otherwise.\<close>

lemma ref_loop_more:
  assumes "ref_loop i = (i1, oc)" and "in_bulk i \<ge> - 1"
  shows "ref_loop (more i b) = (if oc = O_WAIT then ref_loop (more i1 b) else (more i1 b, oc))"
  using assms
proof (induction i rule: ref_loop.induct)
  case (1 i)
  note IH = 1(1,2)[OF refl] and prem = 1(3,4)
  show ?case
  proof (cases "in_mbulk i \<le> 0")
    case True
    then have "ref_loop i = (i, O_READY)" "ref_loop (more i b) = (more i b, O_READY)"
      by (simp_all add: ref_loop.simps [of i] ref_loop.simps [of "more i b"])
    then show ?thesis using prem(1) by auto
  next
    case m: False
    show ?thesis
    proof (cases "in_bulk i = - 1")
      case h: True
      show ?thesis
      proof (cases "\<exists>n. strchr_pos 13 (in_buf i) = Some n \<and> n + 2 \<le> length (in_buf i)")
        case False
        then have "ref_loop i = (i, O_WAIT)"
          using m h by (auto simp: ref_loop.simps [of i] Let_def split: option.split)
        then show ?thesis using prem(1) by simp
      next
        case True
        then obtain n where n: "strchr_pos 13 (in_buf i) = Some n" "n + 2 \<le> length (in_buf i)" by blast
        have n': "strchr_pos 13 (in_buf i @ b) = Some n" "(in_buf i @ b) ! 0 = in_buf i ! 0"
          "take (n - 1) (drop 1 (in_buf i @ b)) = take (n - 1) (drop 1 (in_buf i))"
          "drop (n + 2) (in_buf i @ b) = drop (n + 2) (in_buf i) @ b"
          using n strchr_pos_append by (auto simp: nth_append)
        define num where "num = string2ll (take (n - 1) (drop 1 (in_buf i)))"
        show ?thesis
        proof (cases "in_buf i ! 0 = ch CHR ''$'' \<and> (\<exists>ll. num = Some ll \<and> 0 \<le> ll \<and> ll \<le> 512 * 1024 * 1024)")
          case True
          then obtain ll where ll: "num = Some ll" "0 \<le> ll" "ll \<le> 512 * 1024 * 1024" "in_buf i ! 0 = ch CHR ''$''" by blast
          have r: "ref_loop i = ref_loop (i\<lparr>in_buf := drop (n + 2) (in_buf i), in_bulk := ll\<rparr>)"
            "ref_loop (more i b) = ref_loop (more (i\<lparr>in_buf := drop (n + 2) (in_buf i), in_bulk := ll\<rparr>) b)"
            unfolding more_upd using m h n n' ll by (simp_all add: ref_loop.simps [of i] ref_loop.simps [of "more i b"] Let_def num_def)
          show ?thesis
            unfolding r(2)
            by (rule IH(1) [OF m h n(1)]) (use n ll r(1) prem(1) in \<open>simp_all add: num_def\<close>)
        next
          case False
          then show ?thesis
            using m h n n' prem(1)
            by (auto simp: ref_loop.simps [of i] ref_loop.simps [of "more i b"] Let_def num_def split: option.splits)
        qed
      qed
    next
      case h: False
      show ?thesis
      proof (cases "int (length (in_buf i)) < in_bulk i + 2")
        case True
        then have "ref_loop i = (i, O_WAIT)" using m h by (simp add: ref_loop.simps [of i] Let_def)
        then show ?thesis using prem(1) by simp
      next
        case False
        define j where "j = i\<lparr>in_args := in_args i @ [take (nat (in_bulk i)) (in_buf i)],
          in_buf := drop (nat (in_bulk i) + 2) (in_buf i), in_bulk := - 1, in_mbulk := in_mbulk i - 1\<rparr>"
        have l: "nat (in_bulk i) + 2 \<le> length (in_buf i)" using False prem(2) h by arith
        have r: "ref_loop i = ref_loop j" "ref_loop (more i b) = ref_loop (more j b)"
          unfolding j_def more_upd using m h False l
          by (simp_all add: ref_loop.simps [of i] ref_loop.simps [of "more i b"] Let_def)
        show ?thesis
          unfolding r(2) j_def
          by (rule IH(2) [OF m h False refl]) (use r(1) prem(1) in \<open>simp_all add: j_def\<close>)
      qed
    qed
  qed
qed

section \<open>The whole request\<close>

definition ref_parse :: "input \<Rightarrow> (input \<times> outcome) option" where
  "ref_parse i =
     (let b = in_buf i in
      if in_mbulk i < 0 \<or> (in_mbulk i = 0 \<and> in_args i \<noteq> []) then None
      else if in_mbulk i > 0 then Some (ref_loop i)
      else
        case strchr_pos 13 b of
          None \<Rightarrow> Some (i, O_WAIT)
        | Some n \<Rightarrow>
            if length b < n + 2 then Some (i, O_WAIT)
            else if b ! 0 \<noteq> ch CHR ''*'' then None
            else
              case string2ll (take (n - 1) (drop 1 b)) of
                None \<Rightarrow> Some (i, O_ERROR (cstr ''Protocol error: invalid multibulk length''))
              | Some ll \<Rightarrow>
                  if ll > 1024 * 1024 then Some (i, O_ERROR (cstr ''Protocol error: invalid multibulk length''))
                  else if ll \<le> 0 then Some (i\<lparr>in_buf := drop (n + 2) b\<rparr>, O_READY)
                  else Some (ref_loop (i\<lparr>in_buf := drop (n + 2) b, in_mbulk := ll, in_args := []\<rparr>)))"

definition waits :: "(input \<times> outcome) option \<Rightarrow> bool" where
  "waits r \<longleftrightarrow> (case r of None \<Rightarrow> False | Some (i, oc) \<Rightarrow> oc = O_WAIT)"

lemma waits_simps [simp]: "waits (Some (i, oc)) = (oc = O_WAIT)" "\<not> waits None" "waits (Some r) = (snd r = O_WAIT)"
  by (auto simp: waits_def split: prod.split)

lemma loop_ref:
  assumes "in_bulk i \<ge> - 1" and "p \<le> length (in_buf i)"
    and "length (in_buf i) \<le> REDIS_INLINE_MAX_SIZE \<or> snd (ref_loop (from_pos p i)) \<noteq> O_WAIT"
  shows "(let (pos, i, oc) = mbulk_loop p i in Some (from_pos pos i, oc)) = Some (ref_loop (from_pos p i))"
  using mbulk_loop_ref [OF assms] by (auto simp: trimmed_at_def split: prod.splits)

text \<open>The parser is the grammar, within the limit on the size of the buffer or when no more data is needed.\<close>

lemma parse_multibulk_ref:
  assumes "in_bulk i \<ge> - 1" and "length (in_buf i) \<le> REDIS_INLINE_MAX_SIZE \<or> \<not> waits (ref_parse i)"
  shows "parse_multibulk i = ref_parse i"
proof (cases "in_mbulk i = 0 \<and> in_args i = []")
  case False
  have f: "from_pos 0 i = i" by simp
  show ?thesis
  proof (cases "in_mbulk i > 0")
    case True
    then show ?thesis
      using loop_ref [of i 0] assms by (simp add: parse_multibulk_def ref_parse_def)
  qed (use False in \<open>auto simp: parse_multibulk_def ref_parse_def read_count_def\<close>)
next
  case True
  define b where "b = in_buf i"
  show ?thesis
  proof (cases "strchr_pos 13 b")
    case None
    then have "ref_parse i = Some (i, O_WAIT)" using True by (simp add: ref_parse_def b_def)
    then show ?thesis
      using True None assms(2) by (simp add: parse_multibulk_def read_count_def find_cr_def b_def too_big_def)
  next
    case (Some n)
    then have n: "n < length b" "find_cr b 0 = Some n" using strchr_pos_less by (auto simp: find_cr_def option.map_id0 [unfolded id_def])
    have w: "int n > int (length b) - 2 \<longleftrightarrow> length b < n + 2" by linarith
    define num where "num = string2ll (take (n - 1) (drop 1 b))"
    show ?thesis
    proof (cases "n + 2 \<le> length b \<and> b ! 0 = ch CHR ''*'' \<and>
        (case num of None \<Rightarrow> False | Some ll \<Rightarrow> 0 < ll \<and> ll \<le> 1024 * 1024)")
      case ok: True
      then obtain ll where ll: "num = Some ll" "0 < ll" "ll \<le> 1024 * 1024" by (auto split: option.splits)
      define j where "j = i\<lparr>in_mbulk := ll, in_args := []\<rparr>"
      have j: "i\<lparr>in_buf := drop (n + 2) b, in_mbulk := ll, in_args := []\<rparr> = from_pos (n + 2) j"
        by (cases i) (simp add: j_def b_def)
      have r: "ref_parse i = Some (ref_loop (from_pos (n + 2) j))"
        using True Some ok ll unfolding j [symmetric] by (simp add: ref_parse_def b_def [symmetric] num_def Let_def)
      have c: "read_count i = Some (n + 2, Inr j)"
        using True n(2) w ok ll by (simp add: read_count_def b_def [symmetric] num_def Let_def j_def)
      have "length (in_buf j) \<le> REDIS_INLINE_MAX_SIZE \<or> snd (ref_loop (from_pos (n + 2) j)) \<noteq> O_WAIT"
        using assms(2) r by (auto simp: j_def)
      from loop_ref [OF _ _ this] show ?thesis
        using True c r ll ok assms(1) by (simp add: parse_multibulk_def j_def b_def)
    next
      case bad: False
      then show ?thesis
        using True Some n w
        by (auto simp: parse_multibulk_def ref_parse_def read_count_def b_def [symmetric] num_def Let_def
            split: option.splits)
    qed
  qed
qed

text \<open>The loop waits only in the middle of a request.\<close>

lemma ref_loop_waits:
  assumes "ref_loop i = (i1, O_WAIT)" and "in_bulk i \<ge> - 1"
  shows "in_mbulk i1 > 0 \<and> in_bulk i1 \<ge> - 1"
  using assms
proof (induction i rule: ref_loop.induct)
  case (1 i)
  have m: "\<not> in_mbulk i \<le> 0" using 1(3) by (auto simp: ref_loop.simps [of i])
  show ?case
  proof (cases "ref_loop i = (i, O_WAIT)")
    case True
    then show ?thesis using 1(3,4) m by simp
  next
    case False
    show ?thesis
    proof (cases "in_bulk i = - 1")
      case h: True
      obtain n ll where n: "strchr_pos 13 (in_buf i) = Some n" "\<not> length (in_buf i) < n + 2" "\<not> in_buf i ! 0 \<noteq> ch CHR ''$''"
        "string2ll (take (n - 1) (drop 1 (in_buf i))) = Some ll" "\<not> (ll < 0 \<or> ll > 512 * 1024 * 1024)"
        using False 1(3) m h by (auto simp: ref_loop.simps [of i] Let_def split: option.splits if_splits)
      have "ref_loop (i\<lparr>in_buf := drop (n + 2) (in_buf i), in_bulk := ll\<rparr>) = (i1, O_WAIT)"
        using 1(3) m h n by (simp add: ref_loop.simps [of i] Let_def)
      then show ?thesis using 1(1) [OF refl m h n] n(5) by simp
    next
      case h: False
      then show ?thesis
        using False 1(3) 1(2) [OF refl m h _ refl] m by (auto simp: ref_loop.simps [of i] Let_def split: if_splits)
    qed
  qed
qed

lemma ref_parse_more:
  assumes "ref_parse i = Some (i1, oc)" and "in_bulk i \<ge> - 1"
  shows "ref_parse (more i b) = (if oc = O_WAIT then ref_parse (more i1 b) else Some (more i1 b, oc))"
proof (cases "in_mbulk i = 0")
  case False
  then show ?thesis
    using assms ref_loop_more [of i i1 oc b] ref_loop_waits [of i i1]
    by (cases "in_mbulk i > 0") (auto simp: ref_parse_def)
next
  case True
  then have a: "in_args i = []" using assms(1) by (auto simp: ref_parse_def Let_def split: if_splits)
  define h where "h = in_buf i"
  show ?thesis
  proof (cases "\<exists>n. strchr_pos 13 h = Some n \<and> n + 2 \<le> length h")
    case False
    then have "ref_parse i = Some (i, O_WAIT)"
      using True a by (auto simp: ref_parse_def h_def Let_def split: option.split)
    then show ?thesis using assms(1) by simp
  next
    case c: True
    then obtain n where n: "strchr_pos 13 h = Some n" "n + 2 \<le> length h" by blast
    have n': "strchr_pos 13 (h @ b) = Some n" "(h @ b) ! 0 = h ! 0"
      "take (n - 1) (drop 1 (h @ b)) = take (n - 1) (drop 1 h)" "drop (n + 2) (h @ b) = drop (n + 2) h @ b"
      using n strchr_pos_append by (auto simp: nth_append)
    define num where "num = string2ll (take (n - 1) (drop 1 h))"
    show ?thesis
    proof (cases "h ! 0 = ch CHR ''*'' \<and> (case num of None \<Rightarrow> False | Some ll \<Rightarrow> 0 < ll \<and> ll \<le> 1024 * 1024)")
      case ok: True
      then obtain ll where ll: "num = Some ll" "0 < ll" "ll \<le> 1024 * 1024" by (auto split: option.splits)
      define j where "j = i\<lparr>in_buf := drop (n + 2) h, in_mbulk := ll, in_args := []\<rparr>"
      have mj: "more j b = (more i b)\<lparr>in_buf := drop (n + 2) h @ b, in_mbulk := ll, in_args := []\<rparr>"
        by (cases i) (simp add: j_def)
      have r: "ref_parse i = Some (ref_loop j)" "ref_parse (more i b) = Some (ref_loop (more j b))"
        unfolding mj
        using True a n n' ok ll by (simp_all add: ref_parse_def h_def [symmetric] num_def Let_def j_def)
      have "ref_loop j = (i1, oc)" using r(1) assms(1) by simp
      then show ?thesis
        using r(2) ref_loop_more [of j i1 oc b] ref_loop_waits [of j i1] assms(2) by (auto simp: ref_parse_def j_def)
    next
      case bad: False
      have r: "ref_parse (i\<lparr>in_buf := x\<rparr>) = (if x ! 0 \<noteq> ch CHR ''*'' then None
          else case num of
            None \<Rightarrow> Some (i\<lparr>in_buf := x\<rparr>, O_ERROR (cstr ''Protocol error: invalid multibulk length''))
          | Some ll \<Rightarrow>
              if ll > 1024 * 1024 then
                Some (i\<lparr>in_buf := x\<rparr>, O_ERROR (cstr ''Protocol error: invalid multibulk length''))
              else Some (i\<lparr>in_buf := drop (n + 2) x\<rparr>, O_READY))"
        if "x ! 0 = h ! 0" "strchr_pos 13 x = Some n" "n + 2 \<le> length x"
          "take (n - 1) (drop 1 x) = take (n - 1) (drop 1 h)" for x
        using True a that bad by (auto simp: ref_parse_def num_def split: option.splits)
      have l: "n + 2 \<le> length (h @ b)" and i: "i\<lparr>in_buf := h\<rparr> = i" using n(2) by (simp_all add: h_def)
      note r = r [OF refl n(1,2) refl, unfolded i] r [OF n'(2,1) l n'(3)]
      have "h ! 0 = ch CHR ''*''" using r(1) assms(1) by (auto split: if_splits)
      then show ?thesis
        using r assms(1) n'(2,4) by (auto simp: h_def [symmetric] split: option.splits if_splits)
    qed
  qed
qed

section \<open>Commands are read back\<close>

text \<open>The text of a command: a count, then every argument as a bulk.\<close>

definition bulk_text :: "bytes \<Rightarrow> bytes" where
  "bulk_text a = len_hdr CHR ''$'' (int (length a)) @ a @ crlf"

lemma cat_args_text: "cat_args dst av = dst @ concat (map bulk_text av)"
  by (induction av arbitrary: dst) (simp_all add: bulk_text_def)

lemma command_text:
  "catAppendOnlyGenericCommand [] av = len_hdr CHR ''*'' (int (length av)) @ concat (map bulk_text av)"
  by (simp add: catAppendOnlyGenericCommand_def cat_args_text)

lemma repr_plain: "x \<in> set (ll_repr (int n)) \<Longrightarrow> x \<noteq> 13 \<and> x \<noteq> 0"
  using dec_repr_digits [of n] by (auto simp: ll_repr_def)

lemma hdr_cr:
  assumes "p \<in> {CHR ''$'', CHR ''*''}"
  shows "strchr_pos 13 (len_hdr p (int n) @ x) = Some (Suc (length (ll_repr (int n))))"
proof -
  have "ch p \<noteq> 13 \<and> ch p \<noteq> (0 :: byte)" using assms by auto
  then show ?thesis
    using strchr_pos_skip [of 13 "ll_repr (int n)" "crlf @ x"] repr_plain by (auto simp: len_hdr_def crlf_def)
qed

lemma hdr_parts:
  assumes "n < 2 ^ 63" and "p \<in> {CHR ''$'', CHR ''*''}" and b: "b = len_hdr p (int n) @ x"
  obtains k where "strchr_pos 13 b = Some k" "\<not> length b < k + 2" "b ! 0 = ch p"
    "string2ll (take (k - 1) (drop 1 b)) = Some (int n)" "drop (k + 2) b = x"
proof
  define r where "r = ll_repr (int n)"
  have e: "b = ch p # r @ 13 # 10 # x" by (simp add: b r_def len_hdr_def crlf_def)
  have "srange 8 (int n)" using assms(1) by (simp add: srange_def)
  then have "string2ll r = Some (int n)" using string2ll_repr by (simp add: r_def)
  then show "string2ll (take (Suc (length r) - 1) (drop 1 b)) = Some (int n)" by (simp add: e)
  show "strchr_pos 13 b = Some (Suc (length r))" using hdr_cr [OF assms(2), of n x] by (simp add: b r_def)
  show "\<not> length b < Suc (length r) + 2" "b ! 0 = ch p" "drop (Suc (length r) + 2) b = x" by (simp_all add: e)
qed

text \<open>One argument.\<close>

lemma ref_loop_bulk:
  assumes "in_mbulk i > 0" and "in_bulk i = - 1" and "in_buf i = bulk_text a @ x" and "length a \<le> 512 * 1024 * 1024"
  shows "ref_loop i = ref_loop (i\<lparr>in_args := in_args i @ [a], in_buf := x, in_bulk := - 1, in_mbulk := in_mbulk i - 1\<rparr>)"
proof -
  have "length a < 2 ^ 63" using assms(4) by simp
  then obtain n where f: "strchr_pos 13 (in_buf i) = Some n" "\<not> length (in_buf i) < n + 2" "in_buf i ! 0 = ch CHR ''$''"
    "string2ll (take (n - 1) (drop 1 (in_buf i))) = Some (int (length a))" "drop (n + 2) (in_buf i) = a @ crlf @ x"
    by (rule hdr_parts [of "length a" "CHR ''$''" "in_buf i" "a @ crlf @ x"]) (simp_all add: assms(3) bulk_text_def)
  have "ref_loop i = ref_loop (i\<lparr>in_buf := a @ crlf @ x, in_bulk := int (length a)\<rparr>)"
    using assms(1,2,4) f by (simp add: ref_loop.simps [of i] Let_def)
  also have "\<dots> = ref_loop (i\<lparr>in_args := in_args i @ [a], in_buf := x, in_bulk := - 1, in_mbulk := in_mbulk i - 1\<rparr>)"
    by (subst ref_loop.simps, cases i) (use assms(1) in \<open>simp add: Let_def crlf_def\<close>)
  finally show ?thesis .
qed

lemma ref_loop_bulks:
  assumes "\<forall>a \<in> set av. length a \<le> 512 * 1024 * 1024"
  shows "ref_loop \<lparr>in_buf = concat (map bulk_text av) @ rest, in_mbulk = int (length av), in_bulk = - 1, in_args = done\<rparr> =
     (\<lparr>in_buf = rest, in_mbulk = 0, in_bulk = - 1, in_args = done @ av\<rparr>, O_READY)"
  using assms
proof (induction av arbitrary: "done")
  case Nil
  then show ?case by (simp add: ref_loop.simps)
next
  case (Cons a av)
  show ?case
    using Cons by (subst ref_loop_bulk [of _ a "concat (map bulk_text av) @ rest"]) auto
qed

definition fresh :: "bytes \<Rightarrow> input" where
  "fresh b = \<lparr>in_buf = b, in_mbulk = 0, in_bulk = - 1, in_args = []\<rparr>"

lemma ref_parse_command:
  assumes "av \<noteq> []" and "length av \<le> 1024 * 1024" and "\<forall>a \<in> set av. length a \<le> 512 * 1024 * 1024"
  shows "ref_parse (fresh (catAppendOnlyGenericCommand [] av @ rest)) = Some ((fresh rest)\<lparr>in_args := av\<rparr>, O_READY)"
proof -
  define x where "x = concat (map bulk_text av) @ rest"
  define b where "b = catAppendOnlyGenericCommand [] av @ rest"
  have "length av < 2 ^ 63" using assms(2) by simp
  then obtain n where f: "strchr_pos 13 b = Some n" "\<not> length b < n + 2" "b ! 0 = ch CHR ''*''"
    "string2ll (take (n - 1) (drop 1 b)) = Some (int (length av))" "drop (n + 2) b = x"
    by (rule hdr_parts [of "length av" "CHR ''*''" b x]) (simp_all add: b_def command_text x_def)
  have "ref_parse (fresh b) = Some (ref_loop \<lparr>in_buf = x, in_mbulk = int (length av), in_bulk = - 1, in_args = []\<rparr>)"
    using f assms(1,2) by (simp add: ref_parse_def fresh_def Let_def)
  then show ?thesis
    using ref_loop_bulks [OF assms(3), of rest "[]"] by (simp add: x_def b_def fresh_def)
qed

text \<open>C4: the text of a command, as it is written to the append only file and sent to replicas, is a
  request of the protocol that is parsed to exactly the same arguments, of arbitrary bytes, and leaves
  what follows it in the buffer; no assertion of the parser fails.\<close>

theorem command_roundtrip:
  assumes "av \<noteq> []" and "length av \<le> 1024 * 1024" and "\<forall>a \<in> set av. length a \<le> 512 * 1024 * 1024"
  shows "parse_multibulk (fresh (catAppendOnlyGenericCommand [] av @ rest)) =
     Some ((fresh rest)\<lparr>in_args := av\<rparr>, O_READY)"
  using parse_multibulk_ref [of "fresh (catAppendOnlyGenericCommand [] av @ rest)"]
    ref_parse_command [OF assms, of rest] by (simp add: fresh_def)

theorem command_roundtrip_witness:
  "parse_multibulk (fresh (catAppendOnlyGenericCommand [] [[83], [0, 13, 10], []] @ [42, 49])) =
     Some ((fresh [42, 49])\<lparr>in_args := [[83], [0, 13, 10], []]\<rparr>, O_READY)"
  by (rule command_roundtrip) simp_all

text \<open>Reading piece by piece, as long as the parser waits.\<close>

fun feed_pieces :: "input \<Rightarrow> bytes list \<Rightarrow> (input \<times> outcome \<times> bytes list) option" where
  "feed_pieces i [] = Some (i, O_WAIT, [])"
| "feed_pieces i (d # ds) = do {
     (i, oc) \<leftarrow> parse_multibulk (more i d);
     if oc = O_WAIT then feed_pieces i ds else Some (i, oc, ds) }"

text \<open>The loop only takes from the buffer; a failed assertion stays one whatever follows.\<close>

lemma ref_loop_shrinks: "in_bulk i \<ge> - 1 \<Longrightarrow> ref_loop i = (i1, oc) \<Longrightarrow> length (in_buf i1) \<le> length (in_buf i)"
proof (induction i rule: ref_loop.induct)
  case (1 i)
  show ?case
  proof (rule ccontr)
    assume c: "\<not> ?thesis"
    then have n: "i1 \<noteq> i" by auto
    have m: "\<not> in_mbulk i \<le> 0" using 1(4) n by (auto simp: ref_loop.simps [of i])
    show False
    proof (cases "in_bulk i = - 1")
      case h: True
      obtain n ll where n: "strchr_pos 13 (in_buf i) = Some n" "\<not> length (in_buf i) < n + 2" "\<not> in_buf i ! 0 \<noteq> ch CHR ''$''"
        "string2ll (take (n - 1) (drop 1 (in_buf i))) = Some ll" "\<not> (ll < 0 \<or> ll > 512 * 1024 * 1024)"
        using n 1(4) m h by (auto simp: ref_loop.simps [of i] Let_def split: option.splits if_splits)
      have "ref_loop (i\<lparr>in_buf := drop (n + 2) (in_buf i), in_bulk := ll\<rparr>) = (i1, oc)"
        using 1(4) m h n by (simp add: ref_loop.simps [of i] Let_def)
      then show False using 1(1) [OF refl m h n] n(5) c by simp
    next
      case h: False
      then show False
        using n 1(4) 1(2) [OF refl m h _ refl] m c by (auto simp: ref_loop.simps [of i] Let_def split: if_splits)
    qed
  qed
qed

lemma ref_parse_waits:
  assumes "ref_parse i = Some (i1, O_WAIT)" and "in_bulk i \<ge> - 1"
  shows "in_bulk i1 \<ge> - 1 \<and> length (in_buf i1) \<le> length (in_buf i)"
proof -
  have l: "in_bulk i1 \<ge> - 1 \<and> length (in_buf i1) \<le> length (in_buf i)"
    if "ref_loop j = (i1, O_WAIT)" "in_bulk j = in_bulk i" "length (in_buf j) \<le> length (in_buf i)" for j
    using ref_loop_waits [OF that(1)] ref_loop_shrinks [OF _ that(1)] that assms(2) by auto
  show ?thesis
    using assms l by (auto simp: ref_parse_def Let_def split: option.splits if_splits)
qed

lemma ref_parse_None:
  assumes "ref_parse i = None"
  shows "ref_parse (more i b) = None"
proof -
  have "strchr_pos 13 (in_buf i) = Some n \<Longrightarrow> \<not> length (in_buf i) < n + 2 \<Longrightarrow>
    strchr_pos 13 (in_buf i @ b) = Some n \<and> (in_buf i @ b) ! 0 = in_buf i ! 0" for n
    using strchr_pos_append by (auto simp: nth_append)
  then show ?thesis
    using assms by (auto simp: ref_parse_def Let_def split: option.splits if_splits)
qed

text \<open>What has been read so far together with the pieces still to come is what was sent.\<close>

lemma feed_pieces_ref:
  assumes "ref_parse (more i (concat ds)) = Some (i2, O_READY)" and "in_buf i2 = []" and "in_bulk i \<ge> - 1"
    and "length (in_buf i @ concat ds) \<le> REDIS_INLINE_MAX_SIZE" and "[] \<notin> set ds" and "ds \<noteq> []"
  shows "feed_pieces i ds = Some (i2, O_READY, [])"
  using assms
proof (induction ds arbitrary: i)
  case (Cons d ds)
  define j where "j = more i d"
  have m: "more i (concat (d # ds)) = more j (concat ds)" by (cases i) (simp add: j_def)
  have p: "parse_multibulk j = ref_parse j"
    using parse_multibulk_ref [of j] Cons.prems(3,4) by (simp add: j_def)
  have "ref_parse j \<noteq> None" using ref_parse_None [of j "concat ds"] Cons.prems(1) unfolding m by (metis option.distinct(1))
  then obtain i1 oc where r: "ref_parse j = Some (i1, oc)" by (cases "ref_parse j") auto
  note rest = ref_parse_more [OF r, of "concat ds"]
  show ?case
  proof (cases "oc = O_WAIT")
    case True
    have i1: "ref_parse (more i1 (concat ds)) = Some (i2, O_READY)"
      using rest True Cons.prems(1,3) unfolding m by (simp add: j_def)
    have "ds \<noteq> []"
    proof
      assume "ds = []"
      then show False using Cons.prems(1) r True unfolding m by simp
    qed
    moreover have "in_bulk i1 \<ge> - 1 \<and> length (in_buf i1) \<le> length (in_buf j)"
      using ref_parse_waits [of j i1] r True Cons.prems(3) by (simp add: j_def)
    ultimately have "feed_pieces i1 ds = Some (i2, O_READY, [])"
      using Cons.IH [OF i1] Cons.prems(2,4,5) by (auto simp: j_def)
    then show ?thesis using p r True by (simp add: j_def)
  next
    case False
    then have e: "i2 = more i1 (concat ds)" "oc = O_READY"
      using rest Cons.prems(1,3) unfolding m by (auto simp: j_def)
    then have "concat ds = []" using Cons.prems(2) by simp
    then have "ds = []" "i2 = i1" using Cons.prems(5) e(1) by (cases ds; auto)+
    then show ?thesis using p r e(2) by (simp add: j_def)
  qed
qed simp



section \<open>What the parsers get wrong\<close>

text \<open>C35: a line that ends with a line feed alone costs the first byte of the next line: two bytes are taken
  from the buffer for the end of the line, whether it is a carriage return with a line feed or not.\<close>

theorem inline_newline_drops_byte:
  assumes "10 \<notin> set l" and "0 \<notin> set l" and "13 \<notin> set l" and "sdssplitargs l = Some av"
  shows "parse_inline (fresh (l @ [10] @ x # rest)) = ((fresh rest)\<lparr>in_args := filter (\<lambda>a. a \<noteq> []) av\<rparr>, O_READY) \<and>
     parse_inline (fresh (l @ [13, 10] @ x # rest)) = ((fresh (x # rest))\<lparr>in_args := filter (\<lambda>a. a \<noteq> []) av\<rparr>, O_READY)"
proof -
  have "l = [] \<or> l ! (length l - 1) \<noteq> 13" using assms(3) by (cases l rule: rev_cases) auto
  then have "line_length (l @ 10 # x # rest) = Some (length l)"
    using strchr_pos_skip [OF assms(1,2), of "10 # x # rest"] by (auto simp: line_length_def nth_append)
  moreover have "line_length (l @ 13 # 10 # x # rest) = Some (length l)"
    using strchr_pos_skip [of 10 "l @ [13]" "10 # x # rest"] assms(1,2) by (simp add: line_length_def nth_append)
  ultimately show ?thesis
    using assms(4) by (simp add: parse_inline_def fresh_def)
qed

theorem inline_newline_drops_byte_witness:
  "parse_inline (fresh ([80] @ [10] @ 81 # [10])) = ((fresh [10])\<lparr>in_args := filter (\<lambda>a. a \<noteq> []) [[80]]\<rparr>, O_READY) \<and>
     parse_inline (fresh ([80] @ [13, 10] @ 81 # [10])) = ((fresh (81 # [10]))\<lparr>in_args := filter (\<lambda>a. a \<noteq> []) [[80]]\<rparr>, O_READY)"
  by (rule inline_newline_drops_byte) (simp_all, code_simp)

text \<open>C36: the limit on the length of a count is applied to the whole buffer, arguments that were already
  read included: a request with an argument of 64 kilobytes or more fails when it is cut right behind
  the \<open>$\<close> of the next argument.\<close>

theorem cut_after_large_argument_fails:
  assumes "REDIS_INLINE_MAX_SIZE \<le> length a" and "length a \<le> 512 * 1024 * 1024"
  shows "\<exists>i. parse_multibulk (fresh (len_hdr CHR ''*'' 2 @ bulk_text a @ [ch CHR ''$''])) =
     Some (i, O_ERROR (cstr ''Protocol error: too big bulk count string'')) \<and> in_args i = [a]"
proof -
  define t where "t = a @ crlf @ [ch CHR ''$'']"
  define x where "x = len_hdr CHR ''$'' (int (length a)) @ t"
  define b where "b = len_hdr CHR ''*'' (int 2) @ x"
  define msg where "msg = ''Protocol error: too big bulk count string''"
  have l: "length a < 2 ^ 63" using assms(2) by simp
  obtain k where k: "strchr_pos 13 b = Some k" "\<not> length b < k + 2" "b ! 0 = ch CHR ''*''"
    "string2ll (take (k - 1) (drop 1 b)) = Some (int 2)" "drop (k + 2) b = x"
    by (rule hdr_parts [of 2 "CHR ''*''" b x]) (simp_all add: b_def)
  obtain m where m: "strchr_pos 13 x = Some m" "\<not> length x < m + 2" "x ! 0 = ch CHR ''$''"
    "string2ll (take (m - 1) (drop 1 x)) = Some (int (length a))" "drop (m + 2) x = t"
    using l by (rule hdr_parts [of "length a" "CHR ''$''" x t]) (simp_all add: x_def)
  define j where "j = \<lparr>in_buf = b, in_mbulk = 2, in_bulk = - 1, in_args = []\<rparr>"
  have c: "read_count (fresh b) = Some (k + 2, Inr j)"
  proof -
    have "find_cr b 0 = Some k" "\<not> int k > int (length b) - 2" using k(1,2) by (auto simp: find_cr_def)
    then show ?thesis using k(3,4) by (simp add: read_count_def fresh_def j_def)
  qed
  have r: "read_length (k + 2) j = (0, Inr (j\<lparr>in_buf := t, in_bulk := int (length a)\<rparr>))"
  proof -
    have lx: "length x = length b - (k + 2)" "k + 2 \<le> length b" using k(2) by (simp_all flip: k(5))
    have "find_cr b (k + 2) = Some (k + 2 + m)" using m(1) unfolding find_cr_def k(5) by simp
    moreover have "\<not> int (k + 2 + m) > int (length b) - 2" using m(2) lx by linarith
    moreover have "b ! (k + 2) = ch CHR ''$''" using m(3) lx k(5) nth_drop [of "k + 2" b 0] by simp
    moreover have "take (k + 2 + m - (k + 2 + 1)) (drop (k + 2 + 1) b) = take (m - 1) (drop 1 x)"
      by (simp flip: k(5))
    moreover have "drop (k + 2 + m + 2) b = t" by (simp flip: m(5) k(5) add: add.commute add.left_commute)
    ultimately show ?thesis
      using m(4) assms unfolding read_length_def j_def input.simps Let_def
      by (simp only: option.case refl if_True if_False simp_thms)
        (simp add: REDIS_MBULK_BIG_ARG_def REDIS_INLINE_MAX_SIZE_def)
  qed
  define i where "i = \<lparr>in_buf = t, in_mbulk = 1, in_bulk = - 1, in_args = [a]\<rparr>"
  have "read_arg 0 (j\<lparr>in_buf := t, in_bulk := int (length a)\<rparr>) = (length a + 2, i\<lparr>in_mbulk := 2, in_bulk := int (length a)\<rparr>)"
    by (simp add: read_arg_def t_def crlf_def j_def i_def Let_def)
  then have one: "mbulk_loop (k + 2) j = mbulk_loop (length a + 2) i"
    by (subst mbulk_loop.simps, unfold r) (simp add: j_def i_def t_def crlf_def)
  have "read_length (length a + 2) i = (length a + 2, Inl (O_ERROR (cstr msg)))"
    using assms(1) by (simp add: read_length_def i_def find_cr_def t_def crlf_def too_big_def msg_def)
  then have two: "mbulk_loop (length a + 2) i = (length a + 2, i, O_ERROR (cstr msg))"
    by (subst mbulk_loop.simps) (simp add: i_def)
  have "parse_multibulk (fresh b) = Some (i\<lparr>in_buf := drop (length a + 2) t\<rparr>, O_ERROR (cstr msg))"
    using c one two by (simp add: parse_multibulk_def fresh_def j_def) (simp add: i_def)
  moreover have "b = len_hdr CHR ''*'' 2 @ bulk_text a @ [ch CHR ''$'']" by (simp add: b_def x_def t_def bulk_text_def)
  ultimately show ?thesis by (simp add: i_def msg_def)
qed

theorem cut_after_large_argument_fails_witness:
  "\<exists>i. parse_multibulk (fresh (len_hdr CHR ''*'' 2 @ bulk_text (replicate 70000 0) @ [ch CHR ''$''])) =
     Some (i, O_ERROR (cstr ''Protocol error: too big bulk count string'')) \<and> in_args i = [replicate 70000 0]"
  by (rule cut_after_large_argument_fails) (simp_all add: REDIS_INLINE_MAX_SIZE_def)

end
