(* ===== verification/Init_Server.thy ===== *)
theory Init_Server
  imports Process_Safe Cmd_Props "HOL-Library.List_Lexorder"
begin

text \<open>
  The server at its start (\<open>initServerConfig\<close> and \<open>initServer\<close> of \<open>redis.c\<close>, the default limits of
  \<open>config.c\<close>) and a new connection (\<open>networking.c\<close>). The initial state satisfies the invariant of the
  theory Process_Safe, which shows that the invariant can hold.
\<close>

section \<open>The initial state\<close>

text \<open>The default limits of the output buffers.\<close>

definition clientBufferLimitsDefaults :: "limit_class \<Rightarrow> limits_config" where
  "clientBufferLimitsDefaults k = (case k of
       CLASS_NORMAL \<Rightarrow> \<lparr>hard_limit_bytes = 0, soft_limit_bytes = 0, soft_limit_seconds = 0\<rparr>
     | CLASS_SLAVE \<Rightarrow> \<lparr>hard_limit_bytes = 1024 * 1024 * 256, soft_limit_bytes = 1024 * 1024 * 64,
         soft_limit_seconds = 60\<rparr>
     | CLASS_PUBSUB \<Rightarrow> \<lparr>hard_limit_bytes = 1024 * 1024 * 32, soft_limit_bytes = 1024 * 1024 * 8,
         soft_limit_seconds = 60\<rparr>)"

text \<open>What the system gives: the time in milliseconds, the size of allocations, the order of iterators.\<close>

record host =
  start_time :: int
  alloc_size :: "bytes \<Rightarrow> nat"
  key_order :: "bytes set \<Rightarrow> bytes list"

definition empty_db :: "'o redisDb" where
  "empty_db = \<lparr>ddict = Map.empty, dexpires = Map.empty, dwatched = Map.empty\<rparr>"

text \<open>The configuration and the state before the first event. Clients that do not exist are represented by
  a fresh client structure.\<close>

definition initServer :: "host \<Rightarrow> command_dict \<Rightarrow> 'o server" where
  "initServer h t = \<lparr>
     dbs = \<lambda>_. empty_db, dbnum = 16,
     clients = \<lambda>_. createClient (- 1) (start_time h div 1000), client_list = [], clients_to_close = [],
     monitors = [], commands = t, orig_commands = t,
     srv_channels = Map.empty, srv_patterns = [],
     notify_keyspace_events = {}, dirty = 0,
     stat_keyspace_hits = 0, stat_keyspace_misses = 0, stat_expiredkeys = 0, stat_numcommands = 0,
     cmd_calls = \<lambda>_. 0,
     loading = False, masterhost = False, lua_caller = None, lua_time_start = 0,
     mstime = start_time h, lruclock = nat (start_time h div 1000) mod (REDIS_LRU_CLOCK_MAX + 1),
     rdb_child = False, aof_child = False,
     aof_state = REDIS_AOF_OFF, aof_selected_db = - 1, aof_buf = [], aof_rewrite_buf = [],
     oenv = \<lparr>client_obuf_limits = clientBufferLimitsDefaults, unixtime = start_time h div 1000,
       zsize = alloc_size h\<rparr>,
     dict_order = key_order h,
     repl_log = [], monitor_log = [], slow_log = [], also_propagate = [],
     requirepass = None, maxmemory = 0, maxmemory_policy = REDIS_MAXMEMORY_VOLATILE_LRU,
     maxmemory_samples = 3, stat_evictedkeys = 0,
     stop_writes_on_bgsave_err = True, saveparamslen = 3, lastbgsave_ok = True,
     aof_last_write_ok = True, aof_write_error = [],
     repl_min_slaves_to_write = 0, repl_min_slaves_max_lag = 10, repl_good_slaves_count = 0,
     repl_slave_ro = True, repl_connected = False, repl_serve_stale_data = True,
     lua_timedout = False, lastsave = start_time h div 1000\<rparr>"

text \<open>The table of commands is filled first; a command that occurs twice would be a failed assertion.\<close>

definition startServer :: "host \<Rightarrow> 'o server option" where
  "startServer h = map_option (initServer h) populateCommandTable"

text \<open>A connection with descriptor \<open>f\<close> becomes client \<open>c\<close> (\<open>createClient\<close>).\<close>

definition newClient :: "nat \<Rightarrow> int \<Rightarrow> 'o server \<Rightarrow> 'o server" where
  "newClient c f s = s\<lparr>clients := (clients s)(c := createClient f (unixtime (oenv s))),
     client_list := client_list s @ [c]\<rparr>"

section \<open>The invariant holds at the start\<close>

definition host_ok :: "host \<Rightarrow> bool" where
  "host_ok h \<longleftrightarrow> (\<forall>A. finite A \<longrightarrow> distinct (key_order h A) \<and> set (key_order h A) = A)"

lemma startServer_inv:
  assumes "host_ok h"
  shows "\<exists>s :: 'o server. startServer h = Some s \<and> sys_inv s \<and> client_list s = []"
proof -
  obtain t where t: "populateCommandTable = Some t"
    using populate_loop_spec [OF table_rows table_names, of Map.empty] by (auto simp: populateCommandTable_def)
  have "sys_inv (initServer h t :: 'o server)"
    using assms t
    by (simp add: sys_inv_def core_inv_def data_inv_def watch_inv_def watchers_def pubsub_inv_def subscribers_def
        order_ok_def tables_ok_def initServer_def empty_db_def createClient_def host_ok_def)
  then show ?thesis by (simp add: startServer_def t) (simp add: initServer_def)
qed

lemma newClient_inv:
  assumes "sys_inv s" and "c \<notin> set (client_list s)" and "0 < dbnum s"
  shows "sys_inv (newClient c f s)"
proof -
  have c: "clients (newClient c f s) x = (if x = c then createClient f (unixtime (oenv s)) else clients s x)" for x
    by (simp add: newClient_def)
  have l: "set (client_list (newClient c f s)) = insert c (set (client_list s))" by (simp add: newClient_def)
  have o: "dbs (newClient c f s) = dbs s" "dbnum (newClient c f s) = dbnum s" "srv_channels (newClient c f s) = srv_channels s"
    "srv_patterns (newClient c f s) = srv_patterns s" "commands (newClient c f s) = commands s"
    "orig_commands (newClient c f s) = orig_commands s" "also_propagate (newClient c f s) = also_propagate s"
    "dict_order (newClient c f s) = dict_order s" "lua_caller (newClient c f s) = lua_caller s"
    by (simp_all add: newClient_def)
  have k: "data_inv s" "watch_inv s" "pubsub_inv s" "order_ok s" "tables_ok s" "lua_caller s = None"
    "\<forall>c \<in> set (client_list s). cdb (clients s c) < dbnum s" using assms(1) by (simp_all add: sys_inv_def core_inv_def)
  have "data_inv (newClient c f s)" using k(1) by (simp add: data_inv_def o)
  moreover have "watch_inv (newClient c f s)"
    using k(2) assms(2) by (auto simp: watch_inv_def watchers_def c l o createClient_def)
  moreover have "pubsub_inv (newClient c f s)"
    using k(3) assms(2) by (auto simp: pubsub_inv_def subscribers_def c l o createClient_def)
  moreover have "order_ok (newClient c f s)" "tables_ok (newClient c f s)"
    using k(4,5) by (simp_all add: order_ok_def tables_ok_def o)
  ultimately show ?thesis
    using k(6,7) assms(1,3) by (auto simp: sys_inv_def core_inv_def c l o createClient_def client_inv_def queue_ok_def)
qed

section \<open>The theorems apply\<close>

text \<open>A host, an environment and a first request, to which the theorems on commands are applied.\<close>

definition demo_host :: host where
  "demo_host = \<lparr>start_time = 1400000000000, alloc_size = length, key_order = sorted_list_of_set\<rparr>"

definition demo_env :: "'o exec_env" where
  "demo_env = \<lparr>cenv = \<lparr>rdb_saved = True\<rparr>,
     menv = \<lparr>used_memory = 2, slave_obufs = [], aof_pending = 0,
       samples = \<lambda>n j m A. replicate m (SOME k. k \<in> A), freed = \<lambda>_ _. 1\<rparr>,
     picks = \<lambda>_. [], other_cmd = \<lambda>p c s. Some s\<rparr>"

definition request :: "nat \<Rightarrow> bytes list \<Rightarrow> 'o server \<Rightarrow> 'o server" where
  "request c av = upd_client c (\<lambda>cl. cl\<lparr>argv := av\<rparr>)"

lemma demo_host: "host_ok demo_host"
  by (simp add: host_ok_def demo_host_def)

lemma demo_env: "env_ok (demo_env :: 'o exec_env)"
  by (auto simp: env_ok_def samples_ok_def demo_env_def) (metis someI)

lemma request_inv:
  assumes "sys_inv s"
  shows "sys_inv (request c av s)"
proof -
  have "core_inv (request c av s)"
    unfolding request_def using assms by (intro core_inv_upd) (auto simp: sys_inv_def core_inv_def)
  then show ?thesis
    using assms by (auto simp: sys_inv_def request_def upd_client_def client_inv_def queue_ok_def)
qed

text \<open>A server with one client that has sent a request.\<close>

definition demo :: "bytes list \<Rightarrow> unit server" where
  "demo av = request 0 av (newClient 0 5 (the (startServer demo_host)))"

lemma demo:
  "sys_inv (demo av)" "client_list (demo av) = [0]" "argv (clients (demo av) 0) = av"
  "notify_keyspace_events (demo av) = {}" "ready (demo av) 0"
proof -
  obtain s :: "unit server" where s: "startServer demo_host = Some s" "sys_inv s" "client_list s = []"
    using startServer_inv [OF demo_host] by blast
  obtain t where t: "s = initServer demo_host t" using s(1) by (auto simp: startServer_def)
  have n: "0 < dbnum s" "notify_keyspace_events s = {}" by (simp_all add: t initServer_def)
  show "sys_inv (demo av)"
    unfolding demo_def s(1) option.sel using newClient_inv [OF s(2)] s(3) n(1) by (intro request_inv) simp
  show "client_list (demo av) = [0]" "argv (clients (demo av) 0) = av" "notify_keyspace_events (demo av) = {}"
    using s(1,3) n(2) by (simp_all add: demo_def request_def newClient_def upd_client_def)
  show "ready (demo av) 0"
    by (simp add: demo_def request_def newClient_def upd_client_def ready_def out_ready_def out_wf_def accepts_def
        createClient_def prepareClientToWrite_def)
qed

theorem set_then_get_witness:
  "\<exists>s1 s2. setCommand 0 (demo [[83], [107], [48, 49]]) = Some s1 \<and>
     getCommand 0 (upd_client 0 (\<lambda>cl. cl\<lparr>argv := [[71], [107]]\<rparr>) s1) = Some s2 \<and>
     outp s2 0 = outp (demo [[83], [107], [48, 49]]) 0 @ shared_ok @ bulk [48, 49]"
  using set_then_get [of "demo [[83], [107], [48, 49]]" 0 "[83]" "[107]" "[48, 49]" "[71]"]
    demo [of "[[83], [107], [48, 49]]"]
  by (auto simp: sys_inv_def core_inv_def PROTO_MAX_def)

text \<open>Two keys, of which one may be evicted, and one byte too much in use.\<close>

definition full :: "unit server" where
  "full = (initServer demo_host Map.empty)\<lparr>maxmemory := 1,
     dbs := (\<lambda>_. empty_db)(3 := \<lparr>ddict = [[97] \<mapsto> \<lparr>rval = VString (Raw [7]), lru = 0\<rparr>, [98] \<mapsto> \<lparr>rval = VAgg REDIS_LIST (), lru = 0\<rparr>],
       dexpires = [[98] \<mapsto> 1500000000000], dwatched = Map.empty\<rparr>)\<rparr>"

lemma full_inv: "data_inv full"
  by (auto simp: full_def data_inv_def initServer_def empty_db_def val_ok_def PROTO_MAX_def split: if_splits)

theorem freeMemoryIfNeeded_ok_witness:
  "\<exists>s' ok. freeMemoryIfNeeded (menv (demo_env :: unit exec_env)) full = Some (s', ok) \<and> kv s' 3 [97] = (Some (VString (Raw [7])), None)"
proof -
  have "samples_ok (menv (demo_env :: unit exec_env)) (all_keys_of full)" using demo_env by (auto simp: env_ok_def)
  from freeMemoryIfNeeded_ok [OF full_inv this]
  obtain s' ok where "freeMemoryIfNeeded (menv (demo_env :: unit exec_env)) full = Some (s', ok)"
    "\<forall>j k. snd (kv full j k) = None \<longrightarrow> kv s' j k = kv full j k"
    by (auto simp: allkeys_def) (auto simp: full_def initServer_def)
  moreover have "kv full 3 [97] = (Some (VString (Raw [7])), None)" by (simp add: kv_def full_def)
  ultimately show ?thesis by (metis snd_conv)
qed


end
