(* ===== verification/Publish_Props.thy ===== *)
theory Publish_Props
  imports Init_Server
begin

text \<open>
  What subscribers receive (\<open>pubsub.c\<close>): the text of the messages, and that publishing delivers them to
  exactly the clients that are subscribed.
\<close>

definition channel_message :: "bytes \<Rightarrow> bytes \<Rightarrow> bytes" where
  "channel_message channel m = len_hdr CHR ''*'' 3 @ shared_messagebulk @ bulk channel @ bulk m"

definition pattern_message :: "bytes \<Rightarrow> bytes \<Rightarrow> bytes \<Rightarrow> bytes" where
  "pattern_message p channel m =
     len_hdr CHR ''*'' 4 @ shared_pmessagebulk @ bulk p @ bulk channel @ bulk m"

definition matching :: "bytes \<Rightarrow> (nat \<times> bytes) list \<Rightarrow> (nat \<times> bytes) list" where
  "matching channel = filter (\<lambda>(c, p). sds_match p channel = Some True)"

text \<open>What client \<open>c\<close> is to receive: the message once if it is subscribed to the channel, then once for each
  of its patterns that matches, in the order in which the patterns were subscribed.\<close>

definition delivery :: "nat \<Rightarrow> bytes \<Rightarrow> bytes \<Rightarrow> 'o server \<Rightarrow> bytes" where
  "delivery c channel m s =
     (if channel \<in> set (pubsub_channels (clients s c)) then channel_message channel m else []) @
     concat (map (\<lambda>(d, p). pattern_message p channel m) (filter (\<lambda>(d, p). d = c) (matching channel (srv_patterns s))))"

section \<open>Replies to other clients\<close>

lemma reply_to_other:
  assumes "d \<noteq> c"
  shows "clients (addReplyBulk d r s) c = clients s c" "clients (addReply d r s) c = clients s c"
  using assms
  by (simp_all add: addReplyBulk_def addReplyBulkLen_def addReplyLongLongWithPrefix_def addReplyStr_def
      addReply_def put_out_def Let_def)

lemma channel_step:
  assumes "ready s c" and "s' = addReplyBulk d (Raw m) (addReplyBulk d (Raw channel)
        (addReply d (Raw shared_messagebulk) (addReply d (Raw (len_hdr CHR ''*'' 3)) s)))"
  shows "outp s' c = outp s c @ (if d = c then channel_message channel m else [])" "ready s' c"
proof -
  have "outp s' c = outp s c @ (if d = c then channel_message channel m else []) \<and> ready s' c"
  proof (cases "d = c")
    case True
    note r1 = addReply_out [OF assms(1), of "Raw (len_hdr CHR ''*'' 3)"]
    note r2 = addReply_out [OF r1(2), of "Raw shared_messagebulk"]
    note r3 = addReplyBulk_out [OF r2(2), of "Raw channel"]
    note r4 = addReplyBulk_out [OF r3(2), of "Raw m"]
    show ?thesis using True r4 by (simp add: assms(2) r1(1) r2(1) r3(1) channel_message_def)
  next
    case False
    then show ?thesis using assms(1) by (simp add: assms(2) outp_def ready_def reply_to_other)
  qed
  then show "outp s' c = outp s c @ (if d = c then channel_message channel m else [])" "ready s' c" by simp_all
qed

lemma pattern_step:
  assumes "ready s c" and "s' = addReplyBulk d (Raw m) (addReplyBulk d (Raw channel) (addReplyBulk d (Raw p)
        (addReply d (Raw shared_pmessagebulk) (addReply d (Raw (len_hdr CHR ''*'' 4)) s))))"
  shows "outp s' c = outp s c @ (if d = c then pattern_message p channel m else [])" "ready s' c"
proof -
  have "outp s' c = outp s c @ (if d = c then pattern_message p channel m else []) \<and> ready s' c"
  proof (cases "d = c")
    case True
    note r1 = addReply_out [OF assms(1), of "Raw (len_hdr CHR ''*'' 4)"]
    note r2 = addReply_out [OF r1(2), of "Raw shared_pmessagebulk"]
    note r3 = addReplyBulk_out [OF r2(2), of "Raw p"]
    note r4 = addReplyBulk_out [OF r3(2), of "Raw channel"]
    note r5 = addReplyBulk_out [OF r4(2), of "Raw m"]
    show ?thesis using True r5 by (simp add: assms(2) r1(1) r2(1) r3(1) r4(1) pattern_message_def)
  next
    case False
    then show ?thesis using assms(1) by (simp add: assms(2) outp_def ready_def reply_to_other)
  qed
  then show "outp s' c = outp s c @ (if d = c then pattern_message p channel m else [])" "ready s' c" by simp_all
qed

lemma publish_channel_out:
  assumes "ready s c" and "distinct cs"
  shows "outp (publish_channel cs channel (Raw m) s) c =
      outp s c @ (if c \<in> set cs then channel_message channel m else []) \<and>
    ready (publish_channel cs channel (Raw m) s) c"
  using assms
proof (induction cs arbitrary: s)
  case (Cons d cs)
  note st = channel_step [OF Cons.prems(1) refl, of d m channel]
  show ?case using Cons.IH [OF st(2)] Cons.prems st(1) by auto
qed simp

lemma publish_patterns_out:
  assumes "ready s c" and "\<forall>(d, p) \<in> set ps. pat_safe p"
  shows "\<exists>s'. publish_patterns ps channel (Raw m) s n = Some (s', n + length (matching channel ps)) \<and>
     outp s' c = outp s c @ concat (map (\<lambda>(d, p). pattern_message p channel m) (filter (\<lambda>(d, p). d = c) (matching channel ps)))"
  using assms
proof (induction ps arbitrary: s n)
  case (Cons x ps)
  obtain d p where x: "x = (d, p)" by force
  have "pat_safe p" using Cons.prems(2) x by simp
  then obtain b where b: "sds_match p channel = Some b" by (metis pat_safe_def not_Some_eq)
  show ?case
  proof (cases b)
    case True
    note st = pattern_step [OF Cons.prems(1) refl, of d m channel p]
    show ?thesis using Cons.IH [OF st(2), of "n + 1"] Cons.prems(2) st(1) True b by (auto simp: x matching_def)
  next
    case False
    then show ?thesis using Cons.IH [OF Cons.prems(1), of n] Cons.prems(2) b by (auto simp: x matching_def)
  qed
qed (simp add: matching_def)

text \<open>C10: publishing delivers. For every consistent state of the subscriptions, a published message is appended
  to the output of each client exactly once for its subscription to the channel and once for each of its
  matching patterns, and a client without such a subscription receives nothing; the number of
  receivers that is returned counts the subscribed clients and the matching patterns.\<close>

theorem publish_delivers:
  assumes "pubsub_inv s" and "data_inv s" and "ready s c" and "c \<in> set (client_list s)"
  shows "\<exists>s'. pubsubPublishMessage channel (Raw m) s = Some (s',
       card {d \<in> set (client_list s). channel \<in> set (pubsub_channels (clients s d))} +
       length (matching channel (srv_patterns s))) \<and>
     outp s' c = outp s c @ delivery c channel m s"
proof -
  define s1 where "s1 = publish_channel (subscribers s channel) channel (Raw m) s"
  have d: "distinct (subscribers s channel)"
    "set (subscribers s channel) = {d \<in> set (client_list s). channel \<in> set (pubsub_channels (clients s d))}"
    using assms(1) by (auto simp: pubsub_inv_def)
  have n: "length (subscribers s channel) = card {d \<in> set (client_list s). channel \<in> set (pubsub_channels (clients s d))}"
    using distinct_card [OF d(1)] d(2) by simp
  note o1 = publish_channel_out [OF assms(3) d(1), of channel m, folded s1_def, THEN conjunct1]
    publish_channel_out [OF assms(3) d(1), of channel m, folded s1_def, THEN conjunct2]
  obtain s' where "publish_patterns (srv_patterns s) channel (Raw m) s1 (length (subscribers s channel)) =
      Some (s', length (subscribers s channel) + length (matching channel (srv_patterns s)))"
    "outp s' c = outp s1 c @ concat (map (\<lambda>(d, p). pattern_message p channel m)
       (filter (\<lambda>(d, p). d = c) (matching channel (srv_patterns s))))"
    using publish_patterns_out [OF o1(2) data_inv_patterns [OF assms(2)]] by blast
  moreover have "pubsubPublishMessage channel (Raw m) s =
      publish_patterns (srv_patterns s) channel (Raw m) s1 (length (subscribers s channel))"
    by (simp add: pubsubPublishMessage_def s1_def subscribers_def Let_def quiet_patterns [OF publish_channel_quiet])
  ultimately show ?thesis using assms(4) o1(1) d(2) by (simp add: n delivery_def)
qed

text \<open>A client that is subscribed to a channel.\<close>

theorem publish_delivers_witness:
  "\<exists>s'. pubsubPublishMessage [99] (Raw [109]) (add_chan 0 [99] (demo [])) = Some (s', 1) \<and>
     outp s' 0 = outp (demo []) 0 @ channel_message [99] [109]"
proof -
  define s where "s = add_chan 0 [99] (demo [])"
  obtain s0 :: "unit server" where s0: "startServer demo_host = Some s0" "sys_inv s0" "client_list s0 = []"
    using startServer_inv [OF demo_host] by blast
  have "core_inv (demo [])" "pubsub_inv (demo [])" using demo(1) by (simp_all add: sys_inv_def core_inv_def)
  have c: "pubsub_channels (clients (demo []) 0) = []"
    by (simp add: demo_def request_def newClient_def upd_client_def createClient_def)
  obtain t where "s0 = initServer demo_host t" using s0(1) by (auto simp: startServer_def)
  then have p: "srv_patterns (demo []) = []"
    by (simp only: demo_def s0(1) option.sel) (simp add: request_def newClient_def upd_client_def initServer_def)
  have k: "kept 0 (demo []) s"
    unfolding s_def by (rule kept_sub_changes(1)) (use \<open>core_inv (demo [])\<close> demo(2) c in simp_all)
  have out: "out_ready (cl\<lparr>pubsub_channels := q\<rparr>) = out_ready cl" for cl :: client and q
    by (simp add: out_ready_def out_wf_def accepts_def prepareClientToWrite_def)
  have "clients s 0 = (clients (demo []) 0)\<lparr>pubsub_channels := [[99]]\<rparr>" by (simp add: s_def add_chan_def upd_client_def c)
  then have r: "ready s 0" "outp s 0 = outp (demo []) 0" "pubsub_channels (clients s 0) = [[99]]"
    using demo(5) [of "[]"] out by (simp_all add: ready_def outp_def client_out_def)
  have l: "client_list s = [0]" "srv_patterns s = []" using demo(2) p by (simp_all add: s_def)
  have "{d. d = 0 \<and> [99] \<in> set (pubsub_channels (clients s d))} = {0}" using r(3) by auto
  then show ?thesis
    using publish_delivers [of s 0 "[99]" "[109]"] kept_inv [OF k] r l
    by (auto simp: core_inv_def delivery_def matching_def s_def [symmetric])
qed

end
