(* ===== verification/Txn_Props.thy ===== *)
theory Txn_Props
  imports Init_Server
begin

text \<open>
  Optimistic locking: what \<open>WATCH\<close> promises to a transaction, across \<open>t_string.c\<close>, \<open>db.c\<close> and
  \<open>multi.c\<close>. A command that changes a watched key makes the \<open>EXEC\<close> of the watching client do nothing;
  \<open>PERSIST\<close> is an exception.
\<close>

section \<open>The commands that signal\<close>

definition signalling :: "proc list" where
  "signalling =
    [''setCommand'', ''setnxCommand'', ''setexCommand'', ''psetexCommand'', ''appendCommand'', ''delCommand'',
     ''setrangeCommand'', ''incrCommand'', ''decrCommand'', ''incrbyCommand'', ''decrbyCommand'',
     ''getsetCommand'', ''msetCommand'', ''msetnxCommand'', ''renameCommand'', ''renamenxCommand'',
     ''flushdbCommand'']"

lemma signalling_good:
  assumes "map_of (base_procs e) p = Some f" and "p \<in> set signalling" and "core_inv s"
    and "args_ok s c (nargs p)" and "safe_argv p (argv (clients s c))"
  shows "holds (f c s) (good s)"
proof -
  have d: "data_inv s" "watch_inv s" using assms(3) by (simp_all add: core_inv_def)
  have r: "setrange_no_wrap s c" if "p = ''setrangeCommand''"
    using assms(5) that by (auto simp: setrange_no_wrap_def setrange_safe_def arg_def split: if_splits)
  have a: "args_ok s c n" if "n \<le> nargs p" for n using args_ok_mono [OF assms(4)] that by simp
  note g = setCommand_good setnxCommand_good setexCommand_good psetexCommand_good appendCommand_good delCommand_good
    setrangeCommand_good incr_good incrby_good getsetCommand_good mset_good renameGeneric_good flushdb_good
  show ?thesis
    using assms(2) d assms(1) a r
    by (auto simp: signalling_def base_procs_def renameCommand_def renamenxCommand_def intro!: g)
qed

text \<open>A client that watches a key that was changed is marked.\<close>

lemma watcher_marked:
  assumes "watch_inv s" and "good s s'" and "changed s s' j k"
    and "a \<in> set (client_list s)" and "(k, j) \<in> set (watched_keys (clients s a))"
  shows "REDIS_DIRTY_CAS \<in> cflags (clients s' a)"
proof -
  have "a \<in> set (watchers s j k)" using assms(1,4,5) by (simp add: watch_inv_def)
  moreover have "dwatched (dbs s' j) = dwatched (dbs s j)"
    using assms(2) by (simp add: good_def st_def frm_def srv_frame_def)
  ultimately have "a \<in> set (watchers s' j k)" by (simp add: watchers_def)
  then show ?thesis using assms(2,3) by (auto simp: good_def touched_def)
qed

section \<open>EXEC that is aborted\<close>

lemma exec_aborts:
  assumes "core_inv s" and "a \<in> set (client_list s)"
    and "REDIS_MULTI \<in> cflags (clients s a)" and "REDIS_DIRTY_CAS \<in> cflags (clients s a)"
    and "REDIS_DIRTY_EXEC \<notin> cflags (clients s a)"
  shows "\<exists>s'. execCommand run a s = Some s' \<and> kv s' = kv s \<and> dirty s' = dirty s \<and>
     mstate (clients s' a) = [] \<and> watched_keys (clients s' a) = [] \<and>
     cflags (clients s' a) \<inter> {REDIS_MULTI, REDIS_DIRTY_CAS, REDIS_DIRTY_EXEC} = {} \<and>
     (ready s a \<longrightarrow> outp s' a = outp s a @ shared_nullmultibulk)"
proof -
  define s1 where "s1 = addReply a (Raw shared_nullmultibulk) s"
  have q: "quiet s s1" unfolding s1_def by (rule quiet_addReply)
  have k1: "core_inv s1" "client_list s1 = client_list s"
    using kept_quiet [OF assms(1) q, of a] by (simp_all add: kept_def)
  obtain s2 where s2: "discardTransaction a s1 = Some s2" "unwatched a (upd_client a discarded s1) s2"
    using discardTransaction_kept [OF k1(1), of a] k1(2) assms(2) by (auto simp: holds_def)
  obtain w where w: "s2 = (upd_client a discarded s1)\<lparr>dbs := \<lambda>j. (dbs s1 j)\<lparr>dwatched := w j\<rparr>,
      clients := (clients s1)(a := (discarded (clients s1 a))\<lparr>watched_keys := []\<rparr>)\<rparr>"
    using s2(2) by (auto simp: unwatched_def upd_client_def)
  define s3 where "s3 = exec_monitor a s2"
  have m: "dbs s3 = dbs s2" "dirty s3 = dirty s2" "clients s3 = clients s2"
    by (simp_all add: s3_def exec_monitor_def replicationFeedMonitors_def)
  have c: "clients s3 a = (discarded (clients s1 a))\<lparr>watched_keys := []\<rparr>" "dirty s3 = dirty s1"
    by (simp_all add: m w upd_client_def)
  have "execCommand run a s = Some s3"
    using assms(3-5) s2(1) by (simp add: execCommand_def s1_def s3_def Let_def)
  moreover have "kv s3 = kv s" by (intro ext) (simp add: m w kv_def quiet_dbs [OF q])
  moreover have "outp s3 a = outp s1 a" by (simp add: outp_def c client_out_def discarded_def)
  moreover have "ready s a \<Longrightarrow> outp s1 a = outp s a @ shared_nullmultibulk"
    using addReply_out(1) [of s a "Raw shared_nullmultibulk"] by (simp add: s1_def)
  ultimately show ?thesis using quiet_dirty [OF q] by (auto simp: c discarded_def)
qed


text \<open>C37: \<open>PERSIST\<close> breaks optimistic locking: it removes the expire time of a key, which is a change that
  is counted and propagated, but a client that watches the key is not marked.\<close>

theorem persist_unsignalled:
  assumes "argv (clients s c) = [n, k]" and "ddict (dbs s (cdb (clients s c))) k \<noteq> None"
    and "dexpires (dbs s (cdb (clients s c))) k \<noteq> None"
  shows "\<exists>s'. persistCommand c s = Some s' \<and> dexpires (dbs s' (cdb (clients s c))) k = None \<and>
     dirty s' = dirty s + 1 \<and>
     (\<forall>a. REDIS_DIRTY_CAS \<in> cflags (clients s' a) \<longleftrightarrow> REDIS_DIRTY_CAS \<in> cflags (clients s a))"
proof -
  define j where "j = cdb (clients s c)"
  obtain v where v: "ddict (dbs s j) k = Some v" using assms(2) by (auto simp: j_def)
  obtain s1 where s1: "removeExpire j k s = Some (s1, True)" "clients s1 = clients s" "dirty s1 = dirty s"
    "dexpires (dbs s1 j) k = None"
    using assms(2,3) by (simp add: removeExpire_def upd_db_def j_def)
  have q: "quiet s1 (addReply c (Raw shared_cone) s1)" by (rule quiet_addReply)
  have "persistCommand c s = Some ((addReply c (Raw shared_cone) s1)\<lparr>dirty := dirty s1 + 1\<rparr>)"
    using assms(1) v s1(1) by (simp add: persistCommand_def arg_def j_def [symmetric] Let_def)
  then show ?thesis using s1 quiet_dbs [OF q] q by (simp add: quiet_def j_def)
qed


text \<open>The key \<open>b\<close> of the state \<open>full\<close> has an expire time.\<close>

theorem persist_unsignalled_witness:
  "\<exists>s'. persistCommand 0 (upd_client 0 (\<lambda>cl. cl\<lparr>cdb := 3, argv := [[80], [98]]\<rparr>) full) = Some s' \<and>
     dexpires (dbs s' 3) [98] = None"
  using persist_unsignalled [of "upd_client 0 (\<lambda>cl. cl\<lparr>cdb := 3, argv := [[80], [98]]\<rparr>) full" 0 "[80]" "[98]"]
  by (auto simp: upd_client_def full_def)

section \<open>A transaction that is aborted\<close>

lemma setCommand_kv:
  assumes "data_inv s" and "notify_keyspace_events s = {}" and "argv (clients s c) = [n, k, v]"
    and "length v \<le> PROTO_MAX"
  shows "\<exists>s1. setCommand c s = Some s1 \<and>
     kv s1 (cdb (clients s c)) k = (Some (VString (tryObjectEncoding False (Raw v))), None)"
proof -
  define j where "j = cdb (clients s c)"
  define x where "x = createObject s (VString (tryObjectEncoding False (Raw v)))"
  have x: "val_ok x" "rval x = VString (tryObjectEncoding False (Raw v))"
    using assms(4) by (simp_all add: x_def)
  have "holds (setKey j k x s) (\<lambda>s'. kv s' = kv_upd s j k (Some (rval x), None))"
    by (rule setKey_wp [OF st_refl [OF assms(1)] x(1)]) auto
  then obtain s0 where s0: "setKey j k x s = Some s0" "kv s0 = kv_upd s j k (Some (rval x), None)"
    by (auto simp: holds_def)
  have "notify_keyspace_events s0 = {}" using osame_setKey [OF assms(2) s0(1)] assms(2) by (simp add: osame_def)
  then have "setCommand c s = Some (addReply c (Raw shared_ok) (s0\<lparr>dirty := dirty s0 + 1\<rparr>))"
    using assms(3) s0(1)
    by (simp add: setCommand_def arg_def setGenericCommand_def set_expire_arg_def set_aborted_def Let_def
        j_def [symmetric] x_def [symmetric] notifyKeyspaceEvent_def)
  moreover have "kv (addReply c (Raw shared_ok) (s0\<lparr>dirty := dirty s0 + 1\<rparr>)) = kv s0"
    by (rule kv_dbs) (simp add: quiet_dbs [OF quiet_addReply])
  ultimately show ?thesis using s0(2) x(2) by (auto simp: j_def)
qed

text \<open>Client 0 watches a key and opens a transaction, client 1 connects and sends \<open>SET\<close>.\<close>

definition watching :: "unit server" where
  "watching = request 1 [[83], [107], [48]] (newClient 1 6
     (upd_client 0 (set_flag REDIS_MULTI) (the (watchCommand 0 (demo [[87], [107]])))))"

lemma watching:
  "sys_inv watching" "client_list watching = [0, 1]" "watched_keys (clients watching 0) = [([107], 0)]"
  "REDIS_MULTI \<in> cflags (clients watching 0)" "REDIS_DIRTY_EXEC \<notin> cflags (clients watching 0)" "cdb (clients watching 1) = 0"
  "argv (clients watching 1) = [[83], [107], [48]]" "notify_keyspace_events watching = {}"
  "kv watching 0 [107] = (None, None)"
proof -
  define d where "d = demo [[87], [107]]"
  define w where "w = addReply 0 (Raw shared_ok) (watchForKey 0 [107] d)"
  define m where "m = upd_client 0 (set_flag REDIS_MULTI) w"
  obtain s :: "unit server" where s: "startServer demo_host = Some s" using startServer_inv [OF demo_host] by blast
  obtain t where t: "s = initServer demo_host t" using s(1) by (auto simp: startServer_def)
  have d: "d = request 0 [[87], [107]] (newClient 0 5 (initServer demo_host t))"
    by (simp only: d_def demo_def s t option.sel)
  have f: "clients d 0 = (createClient 5 1400000000)\<lparr>argv := [[87], [107]]\<rparr>" "dbs d = (\<lambda>_. empty_db)" "dbnum d = 16"
    by (simp_all add: d request_def newClient_def upd_client_def initServer_def demo_host_def)
  note i = demo(1,2,4) [of "[[87], [107]]", folded d_def]
  have w: "watchCommand 0 d = Some w"
    by (simp add: watchCommand_def f createClient_def w_def)
  have k: "core_inv d" "client_list d = [0]" using i by (simp_all add: sys_inv_def)
  have "holds (watchCommand 0 d) (kept 0 d)"
    by (rule command.runs [OF multi_commands(4) [where P = "\<lambda>s c. True"]])
      (use k f in \<open>auto simp: args_ok_def argc_def createClient_def PROTO_MAX_def\<close>)
  then have kw: "kept 0 d w" by (simp add: w holds_def)
  have q: "quiet (watchForKey 0 [107] d) w" unfolding w_def by (rule quiet_addReply)
  then have cw: "client_frame (clients (watchForKey 0 [107] d) 0) (clients w 0)"
    "notify_keyspace_events w = {}" "dbs w = dbs (watchForKey 0 [107] d)"
    using i(3) by (auto simp: quiet_def frm_def srv_frame_def watchForKey_def Let_def upd_client_def upd_db_def)
  have wf: "watched_keys (clients w 0) = [([107], 0)]" "cflags (clients w 0) - {REDIS_CLOSE_ASAP} = {}" "cdb (clients w 0) = 0"
    using cw(1) q by (auto simp: client_frame_def watchForKey_def Let_def upd_client_def upd_db_def f createClient_def quiet_def)
  have "kept 0 w (upd_client 0 (set_flag REDIS_MULTI) w)"
    using kept_inv [OF kw] by (intro kept_upd) (auto simp: cmd_ok_def core_inv_def)
  then have km: "kept 0 d m" using kept_trans [OF kw] by (simp add: m_def)
  have lm: "client_list m = [0]" "dbnum m = 16" using km k(2) f(3) by (simp_all add: kept_def)
  have "sys_inv (newClient 1 6 m)"
    by (rule newClient_inv [OF sys_inv_kept [OF i(1) km]]) (simp_all add: lm)
  then have i1: "sys_inv (request 1 [[83], [107], [48]] (newClient 1 6 m))" by (rule request_inv)
  have e: "watching = request 1 [[83], [107], [48]] (newClient 1 6 m)"
    by (simp add: watching_def m_def d_def [symmetric] w)
  have c: "clients watching 0 = set_flag REDIS_MULTI (clients w 0)" "notify_keyspace_events watching = notify_keyspace_events w"
    "dbs watching = dbs w" "client_list watching = client_list w @ [1]"
    "clients watching 1 = (createClient 6 (unixtime (oenv w)))\<lparr>argv := [[83], [107], [48]]\<rparr>"
    by (simp_all add: e request_def newClient_def upd_client_def m_def)
  have "ddict (dbs w 0) = Map.empty" "dexpires (dbs w 0) = Map.empty"
    by (simp_all add: cw(3) watchForKey_def Let_def upd_client_def upd_db_def f empty_db_def createClient_def)
  then have kv: "kv watching 0 [107] = (None, None)" by (simp add: kv_def c)
  show "sys_inv watching" using i1 by (simp add: e)
  show "client_list watching = [0, 1]" using lm by (simp add: c m_def upd_client_def)
  show "watched_keys (clients watching 0) = [([107], 0)]" using wf by (simp add: c)
  show "REDIS_MULTI \<in> cflags (clients watching 0)" by (simp add: c)
  show "REDIS_DIRTY_EXEC \<notin> cflags (clients watching 0)" using wf(2) by (auto simp: c)
  show "cdb (clients watching 1) = 0" "argv (clients watching 1) = [[83], [107], [48]]" by (simp_all add: c [unfolded One_nat_def] createClient_def)
  show "notify_keyspace_events watching = {}" using cw(2) by (simp add: c)
  show "kv watching 0 [107] = (None, None)" by (rule kv)
qed


end
