(* ===== verification/Serve.thy ===== *)
theory Serve
  imports Init_Server Protocol_Props
begin

text \<open>
  The server as a whole: what happens when a client connects, sends data, can be written to, or
  disconnects (\<open>networking.c\<close>), and when time passes. From its start on, whatever happens, the server
  never meets a failed assertion or an access outside an object; \<open>reachable\<close> is the relation of the
  states it can be in, \<open>run_inv\<close> the invariant they all satisfy.
\<close>

section \<open>The end of a connection\<close>

text \<open>\<open>freeClient\<close> for a client that is not the connection to a master; of a replica only its place
  among the monitors is modelled. The structure is released, which is represented by a fresh one.\<close>

definition remove_from :: "nat \<Rightarrow> nat list \<Rightarrow> nat list option" where
  "remove_from c l = (if c \<in> set l then Some (remove1 c l) else None)"

definition freeClient :: "nat \<Rightarrow> 'o server \<Rightarrow> 'o server option" where
  "freeClient c s = do {
     s \<leftarrow> unwatchAllKeys c s;
     (s, _) \<leftarrow> pubsubUnsubscribeAllChannels c False s;
     (s, _) \<leftarrow> pubsubUnsubscribeAllPatterns c False s;
     s \<leftarrow> (if fd (clients s c) \<noteq> - 1
          then map_option (\<lambda>l. s\<lparr>client_list := l\<rparr>) (remove_from c (client_list s)) else Some s);
     s \<leftarrow> (if REDIS_SLAVE \<in> cflags (clients s c) \<and> REDIS_MONITOR \<in> cflags (clients s c)
          then map_option (\<lambda>l. s\<lparr>monitors := l\<rparr>) (remove_from c (monitors s)) else Some s);
     s \<leftarrow> (if REDIS_CLOSE_ASAP \<in> cflags (clients s c)
          then map_option (\<lambda>l. s\<lparr>clients_to_close := l\<rparr>) (remove_from c (clients_to_close s)) else Some s);
     Some (s\<lparr>clients := (clients s)(c := createClient (- 1) (unixtime (oenv s)))\<rparr>) }"

section \<open>Events\<close>

text \<open>The result of \<open>read\<close>; no bytes mean that the client closed the connection.\<close>

datatype read_result = Read bytes | Read_again | Read_error

definition REDIS_MAX_QUERYBUF_LEN :: nat where "REDIS_MAX_QUERYBUF_LEN = 1024 * 1024 * 1024"

definition readQueryFromClient :: "'o exec_env \<Rightarrow> nat \<Rightarrow> read_result \<Rightarrow> 'o server \<Rightarrow> 'o server option" where
  "readQueryFromClient e c r s =
     (case r of
        Read_again \<Rightarrow> Some s
      | Read_error \<Rightarrow> freeClient c s
      | Read data \<Rightarrow>
          if data = [] then freeClient c s
          else
            let s = upd_client c (\<lambda>cl. cl\<lparr>querybuf := querybuf cl @ data, lastinteraction := unixtime (oenv s)\<rparr>) s
            in if length (querybuf (clients s c)) > REDIS_MAX_QUERYBUF_LEN then freeClient c s
               else processInputBuffer e c s)"

text \<open>A client whose socket takes data.\<close>

definition write_handler :: "nat \<Rightarrow> bool \<Rightarrow> write_result list \<Rightarrow> 'o server \<Rightarrow> 'o server option" where
  "write_handler c pause ws s = do {
     (cl, sent, closed) \<leftarrow> sendReplyToClient (oenv s) pause (clients s c) ws;
     let s = upd_client c (\<lambda>_. cl) s;
     if closed then freeClient c s else Some s }"

text \<open>The clients whose output grew over the limits are released later. Releasing a client does not put
  another one into the queue, so the loop runs over the queue as it is at the start.\<close>

fun free_queue :: "nat list \<Rightarrow> 'o server \<Rightarrow> 'o server option" where
  "free_queue [] s = Some s"
| "free_queue (c # cs) s = do {
     s \<leftarrow> freeClient c (upd_client c (clr_flag REDIS_CLOSE_ASAP) s);
     free_queue cs (s\<lparr>clients_to_close := cs\<rparr>) }"

definition freeClientsInAsyncFreeQueue :: "'o server \<Rightarrow> 'o server option" where
  "freeClientsInAsyncFreeQueue s = free_queue (clients_to_close s) s"

text \<open>The clocks of the server (\<open>updateCachedTime\<close>, \<open>updateLRUClock\<close>).\<close>

definition updateCachedTime :: "int \<Rightarrow> 'o server \<Rightarrow> 'o server" where
  "updateCachedTime t s =
     s\<lparr>mstime := t, oenv := (oenv s)\<lparr>unixtime := t div 1000\<rparr>\<rparr>"

definition updateLRUClock :: "'o server \<Rightarrow> 'o server" where
  "updateLRUClock s = s\<lparr>lruclock := nat (unixtime (oenv s)) mod (REDIS_LRU_CLOCK_MAX + 1)\<rparr>"

datatype event =
    Connect nat int
  | Receive nat read_result
  | Writable nat bool "write_result list"
  | Clock int
  | Close_queued

definition serve :: "'o exec_env \<Rightarrow> event \<Rightarrow> 'o server \<Rightarrow> 'o server option" where
  "serve e ev s =
     (case ev of
        Connect c f \<Rightarrow> Some (newClient c f s)
      | Receive c r \<Rightarrow> readQueryFromClient e c r s
      | Writable c pause ws \<Rightarrow> write_handler c pause ws s
      | Clock t \<Rightarrow> Some (updateLRUClock (updateCachedTime t s))
      | Close_queued \<Rightarrow> freeClientsInAsyncFreeQueue s)"

section \<open>What the parser keeps\<close>

text \<open>The input of a client between two reads.\<close>

definition parse_ok :: "reqtype \<Rightarrow> input \<Rightarrow> bool" where
  "parse_ok t i \<longleftrightarrow> in_bulk i \<ge> - 1 \<and> in_mbulk i \<ge> 0 \<and>
     (t = REDIS_REQ_MULTIBULK \<and> in_mbulk i = 0 \<longrightarrow>
        in_args i = [] \<and> in_buf i \<noteq> [] \<and> in_buf i ! 0 = ch CHR ''*'') \<and>
     (t \<noteq> REDIS_REQ_MULTIBULK \<longrightarrow> in_mbulk i = 0 \<and> in_bulk i = - 1 \<and> in_args i = [])"

lemma find_cr_less: "find_cr b pos = Some n \<Longrightarrow> pos \<le> n \<and> n < length b"
  using strchr_pos_less [of 13 "drop pos b"] by (auto simp: find_cr_def)

lemma read_length_keeps:
  assumes "in_bulk i \<ge> - 1" and "pos \<le> length (in_buf i)" and "read_length pos i = (p, r)"
  shows "case r of
      Inl oc \<Rightarrow> p = pos \<and> oc \<noteq> O_READY
    | Inr i' \<Rightarrow> p \<le> length (in_buf i') \<and> in_bulk i' \<ge> 0 \<and> in_mbulk i' = in_mbulk i \<and>
        length (in_buf i') - p \<le> length (in_buf i) - pos"
proof (cases "in_bulk i = - 1")
  case False
  then show ?thesis using assms by (auto simp: read_length_def)
next
  case True
  then show ?thesis
    using assms find_cr_less [of "in_buf i" pos]
    by (auto simp: read_length_def too_big_def Let_def split: option.splits if_splits)
qed

lemma mbulk_loop_keeps:
  assumes "in_bulk i \<ge> - 1" and "pos \<le> length (in_buf i)" and "mbulk_loop pos i = (p, i', oc)"
  shows "in_bulk i' \<ge> - 1 \<and> (oc = O_WAIT \<longrightarrow> in_mbulk i' > 0) \<and>
     length (in_buf i') - p \<le> length (in_buf i) - pos \<and>
     (oc = O_READY \<and> in_mbulk i > 0 \<longrightarrow> length (in_buf i') - p < length (in_buf i) - pos)"
  using assms
proof (induction pos i rule: mbulk_loop.induct)
  case (1 pos i)
  show ?case
  proof (cases "in_mbulk i \<le> 0")
    case True
    then show ?thesis using 1(2-4) by (simp add: mbulk_loop.simps [of pos i])
  next
    case m: False
    obtain q r where r: "read_length pos i = (q, r)" by force
    note len = read_length_keeps [OF 1(2,3) r]
    show ?thesis
    proof (cases r)
      case (Inl oc')
      then show ?thesis using len r m 1(2,4) by (auto simp: mbulk_loop.simps [of pos i])
    next
      case (Inr j)
      then have j: "q \<le> length (in_buf j)" "in_bulk j \<ge> 0" "in_mbulk j = in_mbulk i"
        "length (in_buf j) - q \<le> length (in_buf i) - pos" using len by simp_all
      show ?thesis
      proof (cases "int (length (in_buf j) - q) < in_bulk j + 2")
        case True
        then show ?thesis using j r Inr m 1(4) by (simp add: mbulk_loop.simps [of pos i])
      next
        case w: False
        obtain q2 j2 where a: "read_arg q j = (q2, j2)" by force
        define k where "k = j2\<lparr>in_bulk := - 1, in_mbulk := in_mbulk i - 1\<rparr>"
        have step: "mbulk_loop q2 k = (p, i', oc)"
          using 1(4) r Inr m w a by (simp add: mbulk_loop.simps [of pos i] k_def)
        have "q2 \<le> length (in_buf k) \<and> length (in_buf k) - q2 < length (in_buf j) - q"
          using a j(1,2) w by (auto simp: k_def read_arg_def Let_def split: if_splits)
        moreover have "in_bulk k = - 1" by (simp add: k_def)
        ultimately show ?thesis
          using 1(1) [OF m r [symmetric] Inr w refl a [symmetric]] step j(4) by (auto simp: k_def)
      qed
    qed
  qed
qed

lemma read_count_keeps:
  assumes "read_count i = Some (p, r)" and "in_buf i \<noteq> []"
  shows "case r of
      Inl oc \<Rightarrow> oc = O_READY \<and> 2 \<le> p \<or> p = 0 \<and> oc \<noteq> O_READY
    | Inr j \<Rightarrow> in_buf j = in_buf i \<and> 2 \<le> p \<and> p \<le> length (in_buf i) \<and> in_bulk j = in_bulk i \<and> in_mbulk j > 0"
  using assms find_cr_less [of "in_buf i" 0]
  by (auto simp: read_count_def too_big_def Let_def split: option.splits if_splits)

text \<open>A request is never parsed without taking something from the buffer; a client that waits for more
  data is in a state from which the parser can go on.\<close>

lemma parse_multibulk_keeps:
  assumes "parse_ok REDIS_REQ_MULTIBULK i" and "in_buf i \<noteq> []"
  shows "\<exists>j oc. parse_multibulk i = Some (j, oc) \<and> (oc = O_READY \<longrightarrow> length (in_buf j) < length (in_buf i)) \<and>
     (oc = O_WAIT \<longrightarrow> parse_ok REDIS_REQ_MULTIBULK j)"
proof (cases "in_mbulk i = 0")
  case False
  then have m: "in_mbulk i > 0" using assms(1) by (simp add: parse_ok_def)
  obtain p j oc where l: "mbulk_loop 0 i = (p, j, oc)" by (cases "mbulk_loop 0 i") auto
  have "in_bulk i \<ge> - 1" using assms(1) by (simp add: parse_ok_def)
  from mbulk_loop_keeps [OF this _ l] show ?thesis
    using m l by (auto simp: parse_multibulk_def parse_ok_def)
next
  case True
  then have a: "in_args i = []" "in_buf i ! 0 = ch CHR ''*''" "in_bulk i \<ge> - 1" using assms(1) by (simp_all add: parse_ok_def)
  have "read_count i \<noteq> None"
    using a by (simp add: read_count_def Let_def split: option.split)
  then obtain p r where r: "read_count i = Some (p, r)" by auto
  note c = read_count_keeps [OF r assms(2)]
  show ?thesis
  proof (cases r)
    case (Inl oc)
    then have "parse_multibulk i = Some (from_pos p i, oc)" using True r by (simp add: parse_multibulk_def)
    moreover have "oc = O_READY \<Longrightarrow> length (drop p (in_buf i)) < length (in_buf i)" "oc \<noteq> O_READY \<Longrightarrow> p = 0"
      using c Inl assms(2) by auto
    ultimately show ?thesis using assms(1) by (cases "oc = O_READY") auto
  next
    case (Inr k)
    then have k: "in_buf k = in_buf i" "2 \<le> p" "p \<le> length (in_buf i)" "in_bulk k = in_bulk i" "in_mbulk k > 0"
      using c by simp_all
    obtain q j oc where l: "mbulk_loop p k = (q, j, oc)" by (cases "mbulk_loop p k") auto
    have "parse_multibulk i = Some (from_pos q j, oc)" using True r Inr k l by (simp add: parse_multibulk_def)
    then show ?thesis
      using mbulk_loop_keeps [OF _ _ l] k a(3) by (auto simp: parse_ok_def)
  qed
qed

lemma parse_inline_keeps:
  assumes "parse_ok REDIS_REQ_INLINE i" and "in_buf i \<noteq> []" and "parse_inline i = (j, oc)"
  shows "(oc = O_READY \<longrightarrow> length (in_buf j) < length (in_buf i)) \<and> (oc = O_WAIT \<longrightarrow> parse_ok REDIS_REQ_INLINE j)"
  using assms by (auto simp: parse_inline_def too_big_def Let_def split: option.splits if_splits)

section \<open>Reading and processing what a client sends\<close>

text \<open>The argument vectors that the parser finds in an input, in the order in which they are processed.\<close>

definition next_type :: "reqtype \<Rightarrow> bytes \<Rightarrow> reqtype" where
  "next_type t b =
     (if t = REQ_NONE then (if b ! 0 = ch CHR ''*'' then REDIS_REQ_MULTIBULK else REDIS_REQ_INLINE) else t)"

definition parse :: "reqtype \<Rightarrow> input \<Rightarrow> (input \<times> outcome) option" where
  "parse t i = (if t = REDIS_REQ_INLINE then Some (parse_inline i) else parse_multibulk i)"

fun requests :: "nat \<Rightarrow> reqtype \<Rightarrow> input \<Rightarrow> bytes list list" where
  "requests 0 t i = []"
| "requests (Suc n) t i =
     (if in_buf i = [] then []
      else case parse (next_type t (in_buf i)) i of
        Some (j, O_READY) \<Rightarrow> in_args j # requests n REQ_NONE (fresh (in_buf j))
      | _ \<Rightarrow> [])"

definition vector_ok :: "command_dict \<Rightarrow> bytes list \<Rightarrow> bool" where
  "vector_ok t av \<longleftrightarrow> av = [] \<or> args_len av \<and>
     (\<forall>cm. lookupCommand t (hd av) = Some cm \<longrightarrow> safe_argv (cproc cm) av)"

text \<open>The input of a client between two events; one that is to be closed is not read any more.\<close>

definition input_inv :: "client \<Rightarrow> bool" where
  "input_inv cl \<longleftrightarrow> REDIS_CLOSE_AFTER_REPLY \<in> cflags cl \<or> parse_ok (reqtype cl) (input_of cl)"

definition onward :: "nat \<Rightarrow> 'o server \<Rightarrow> 'o server \<Rightarrow> bool" where
  "onward c s s' \<longleftrightarrow> sys_inv s' \<and> client_list s' = client_list s \<and> dbnum s' = dbnum s \<and>
     (\<forall>x. x \<noteq> c \<longrightarrow> client_frame (clients s x) (clients s' x))"

lemma onward_trans: "onward c s s1 \<Longrightarrow> onward c s1 s2 \<Longrightarrow> onward c s s2"
  unfolding onward_def by (auto intro: client_frame_trans)

lemma onward_after: "after c s s' \<Longrightarrow> onward c s s'"
  by (simp add: after_def onward_def)

lemma sys_inv_table: "sys_inv s \<Longrightarrow> populateCommandTable = Some (commands s)"
  by (simp add: sys_inv_def core_inv_def tables_ok_def)

lemma onward_commands: "sys_inv s \<Longrightarrow> onward c s s' \<Longrightarrow> commands s' = commands s"
  using sys_inv_table [of s] sys_inv_table [of s'] by (metis onward_def option.inject)

text \<open>Changing the input of a client, its type of request or its clocks.\<close>

lemma onward_upd:
  assumes "sys_inv s"
    and "\<And>cl. watched_keys (f cl) = watched_keys cl \<and> pubsub_channels (f cl) = pubsub_channels cl \<and>
      pubsub_patterns (f cl) = pubsub_patterns cl \<and> cdb (f cl) = cdb cl \<and> mstate (f cl) = mstate cl \<and>
      (REDIS_MULTI \<in> cflags (f cl) \<longleftrightarrow> REDIS_MULTI \<in> cflags cl)"
  shows "onward c s (upd_client c f s)"
proof -
  have "core_inv (upd_client c f s)"
    using assms by (intro core_inv_upd) (auto simp: sys_inv_def core_inv_def)
  moreover have "client_inv (clients (upd_client c f s) x)" if "x \<in> set (client_list s)" for x
    using assms that by (auto simp: sys_inv_def client_inv_def queue_ok_def upd_client_def)
  ultimately show ?thesis
    by (simp add: onward_def sys_inv_def) (simp add: upd_client_def)
qed

lemma store_parsed_ok:
  assumes "sys_inv s"
  obtains s' where "store_parsed c (j, oc) s = (s', oc = O_READY)" "onward c s s'"
    "oc = O_READY \<or> oc = O_WAIT \<Longrightarrow> clients s' c = set_input j (clients s c)"
    "oc \<noteq> O_READY \<and> oc \<noteq> O_WAIT \<Longrightarrow> REDIS_CLOSE_AFTER_REPLY \<in> cflags (clients s' c)"
proof -
  define s1 where "s1 = upd_client c (set_input j) s"
  have o1: "onward c s s1" unfolding s1_def by (rule onward_upd [OF assms]) (simp add: set_input_def)
  have c1: "clients s1 c = set_input j (clients s c)" by (simp add: s1_def upd_client_def)
  show thesis
  proof (cases oc)
    case (O_ERROR msg)
    define s2 where "s2 = addReplyErrorFormat c msg s1"
    have i1: "sys_inv s1" using o1 by (simp add: onward_def)
    then have "after c s1 s2" unfolding s2_def
      by (intro after_kept kept_quiet quiet_replies) (simp_all add: sys_inv_def)
    then have o2: "onward c s s2" "sys_inv s2" using onward_trans [OF o1 onward_after] by (auto simp: after_def)
    have "onward c s2 (upd_client c setProtocolError s2)"
      by (rule onward_upd [OF o2(2)]) (simp add: setProtocolError_def)
    then show thesis
      using that [of "upd_client c setProtocolError s2"] onward_trans [OF o2(1)] O_ERROR
      by (simp add: store_parsed_def s1_def s2_def) (simp add: upd_client_def setProtocolError_def)
  qed (use that [of s1] o1 c1 in \<open>simp_all add: store_parsed_def s1_def\<close>)
qed

text \<open>One parsing step, for both types of request.\<close>

definition parse_step :: "nat \<Rightarrow> 'o server \<Rightarrow> ('o server \<times> bool) option" where
  "parse_step c s =
     (if reqtype (clients s c) = REDIS_REQ_INLINE then Some (processInlineBuffer c s) else processMultibulkBuffer c s)"

lemma request_type_fields:
  "input_of (request_type cl) = input_of cl" "reqtype (request_type cl) = next_type (reqtype cl) (querybuf cl)"
  "cflags (request_type cl) = cflags cl" "querybuf (request_type cl) = querybuf cl"
  by (simp_all add: request_type_def input_of_def next_type_def)

lemma parse_step_ok:
  assumes "sys_inv s" and "parse_ok (reqtype (clients s c)) (input_of (clients s c))"
    and "querybuf (clients s c) \<noteq> []" and "reqtype (clients s c) \<noteq> REQ_NONE"
  obtains s' j oc where "parse (reqtype (clients s c)) (input_of (clients s c)) = Some (j, oc)"
    "parse_step c s = Some (s', oc = O_READY)" "onward c s s'"
    "oc = O_READY \<Longrightarrow> length (in_buf j) < length (querybuf (clients s c)) \<and> querybuf (clients s' c) = in_buf j \<and>
       argv (clients s' c) = in_args j"
    "oc \<noteq> O_READY \<Longrightarrow> input_inv (clients s' c)"
proof (cases "reqtype (clients s c) = REDIS_REQ_INLINE")
  case True
  define i where "i = input_of (clients s c)"
  obtain j oc where p: "parse_inline i = (j, oc)" by force
  define s1 where "s1 = (if oc = O_READY \<and> line_length (querybuf (clients s c)) = Some 0 \<and> REDIS_SLAVE \<in> cflags (clients s c)
    then upd_client c (\<lambda>cl. cl\<lparr>repl_ack_time := unixtime (oenv s)\<rparr>) s else s)"
  have "onward c s (upd_client c (\<lambda>cl. cl\<lparr>repl_ack_time := unixtime (oenv s)\<rparr>) s)" by (rule onward_upd [OF assms(1)]) simp
  moreover have "onward c s s" using assms(1) by (simp add: onward_def)
  ultimately have o1: "onward c s s1" by (simp add: s1_def)
  then have i1: "sys_inv s1" by (simp add: onward_def)
  have t1: "reqtype (clients s1 c) = REDIS_REQ_INLINE" using True by (simp add: s1_def upd_client_def)
  from store_parsed_ok [OF i1, of c j oc] obtain s2 where s2: "store_parsed c (j, oc) s1 = (s2, oc = O_READY)" "onward c s1 s2"
    "oc = O_READY \<or> oc = O_WAIT \<Longrightarrow> clients s2 c = set_input j (clients s1 c)"
    "oc \<noteq> O_READY \<and> oc \<noteq> O_WAIT \<Longrightarrow> REDIS_CLOSE_AFTER_REPLY \<in> cflags (clients s2 c)" by blast
  have k: "(oc = O_READY \<longrightarrow> length (in_buf j) < length (in_buf i)) \<and> (oc = O_WAIT \<longrightarrow> parse_ok REDIS_REQ_INLINE j)"
    by (rule parse_inline_keeps [OF _ _ p]) (use assms True in \<open>simp_all add: i_def input_of_def\<close>)
  have e: "input_of (set_input j cl) = j" "reqtype (set_input j cl) = reqtype cl" "querybuf (set_input j cl) = in_buf j"
    "argv (set_input j cl) = in_args j" for cl by (simp_all add: input_of_def set_input_def)
  have "oc \<noteq> O_READY \<Longrightarrow> input_inv (clients s2 c)"
    using s2(3,4) k by (cases "oc = O_WAIT") (auto simp: input_inv_def e t1)
  moreover have "parse_step c s = Some (s2, oc = O_READY)"
    using True s2(1) p by (simp add: parse_step_def processInlineBuffer_def i_def [symmetric] s1_def)
  ultimately show thesis
    using that [of j oc s2] True p k s2(3) onward_trans [OF o1 s2(2)]
    by (auto simp: parse_def i_def input_of_def e)
next
  case False
  define i where "i = input_of (clients s c)"
  have t: "reqtype (clients s c) = REDIS_REQ_MULTIBULK" using False assms(4) by (cases "reqtype (clients s c)") auto
  obtain j oc where p: "parse_multibulk i = Some (j, oc)" and k: "oc = O_READY \<longrightarrow> length (in_buf j) < length (in_buf i)"
    "oc = O_WAIT \<longrightarrow> parse_ok REDIS_REQ_MULTIBULK j"
    using parse_multibulk_keeps [of i] assms(2,3) t by (auto simp: i_def input_of_def)
  from store_parsed_ok [OF assms(1), of c j oc] obtain s2 where s2: "store_parsed c (j, oc) s = (s2, oc = O_READY)" "onward c s s2"
    "oc = O_READY \<or> oc = O_WAIT \<Longrightarrow> clients s2 c = set_input j (clients s c)"
    "oc \<noteq> O_READY \<and> oc \<noteq> O_WAIT \<Longrightarrow> REDIS_CLOSE_AFTER_REPLY \<in> cflags (clients s2 c)" by blast
  have e: "input_of (set_input j cl) = j" "reqtype (set_input j cl) = reqtype cl" "querybuf (set_input j cl) = in_buf j"
    "argv (set_input j cl) = in_args j" for cl by (simp_all add: input_of_def set_input_def)
  have "oc \<noteq> O_READY \<Longrightarrow> input_inv (clients s2 c)"
    using s2(3,4) k by (cases "oc = O_WAIT") (auto simp: input_inv_def e t)
  moreover have "parse_step c s = Some (s2, oc = O_READY)"
    using False s2(1) p by (simp add: parse_step_def processMultibulkBuffer_def i_def)
  ultimately show thesis
    using that [of j oc s2] t p k s2(2,3) by (auto simp: parse_def i_def input_of_def e)
qed


definition requests_of :: "client \<Rightarrow> bytes list list" where
  "requests_of cl =
     (if stopped cl then [] else requests (length (querybuf cl) + 1) (reqtype cl) (input_of cl))"

lemma parse_ok_next: "parse_ok t i \<Longrightarrow> in_buf i \<noteq> [] \<Longrightarrow> parse_ok (next_type t (in_buf i)) i"
  by (auto simp: parse_ok_def next_type_def)

lemma parse_ok_fresh: "parse_ok REQ_NONE (fresh b)"
  by (simp add: parse_ok_def fresh_def)

lemma reset_fields:
  "input_of (resetClient cl) = fresh (querybuf cl)" "reqtype (resetClient cl) = REQ_NONE"
  "querybuf (resetClient cl) = querybuf cl"
  "REDIS_CLOSE_AFTER_REPLY \<in> cflags (resetClient cl) \<longleftrightarrow> REDIS_CLOSE_AFTER_REPLY \<in> cflags cl"
  by (simp_all add: resetClient_def input_of_def fresh_def Let_def)

lemma reset_onward: "sys_inv s \<Longrightarrow> onward c s (upd_client c resetClient s)"
  by (rule onward_upd) (auto simp: resetClient_def Let_def)

lemma type_onward: "sys_inv s \<Longrightarrow> onward c s (upd_client c request_type s)"
  by (rule onward_upd) (auto simp: request_type_def)

lemma onward_D: "onward c s s' \<Longrightarrow> sys_inv s' \<and> client_list s' = client_list s"
  by (simp add: onward_def)

lemma input_loop_step:
  "input_loop (Suc n) e c s =
     (if querybuf (clients s c) = [] \<or> stopped (clients s c) then Some s
      else do {
        (s, ok) \<leftarrow> parse_step c (upd_client c request_type s);
        if \<not> ok then Some s
        else if argv (clients s c) = [] then input_loop n e c (upd_client c resetClient s)
        else do {
          (s, executed) \<leftarrow> processCommand e c s;
          input_loop n e c (if executed then upd_client c resetClient s else s) } })"
  by (simp add: input_loop.simps(2) parse_step_def Let_def)

declare input_loop.simps(2) [simp del]

text \<open>Whatever is in the buffer, processing it ends, and the invariants hold again.\<close>

lemma input_loop_ok:
  assumes "env_ok e" and "sys_inv s" and "c \<in> set (client_list s)" and "input_inv (clients s c)"
    and "length (querybuf (clients s c)) < n"
    and "\<not> stopped (clients s c) \<Longrightarrow>
      \<forall>av \<in> set (requests n (reqtype (clients s c)) (input_of (clients s c))). vector_ok (commands s) av"
  shows "\<exists>s'. input_loop n e c s = Some s' \<and> onward c s s' \<and> input_inv (clients s' c)"
  using assms(2-)
proof (induction n arbitrary: s)
  case (Suc n)
  show ?case
  proof (cases "querybuf (clients s c) = [] \<or> stopped (clients s c)")
    case True
    then show ?thesis using Suc.prems by (simp add: onward_def input_loop_step)
  next
    case run: False
    define cl where "cl = clients s c"
    define s0 where "s0 = upd_client c request_type s"
    have o0: "onward c s s0" unfolding s0_def by (rule type_onward [OF Suc.prems(1)])
    have c0: "clients s0 c = request_type cl" by (simp add: s0_def upd_client_def cl_def)
    define t where "t = next_type (reqtype cl) (querybuf cl)"
    have nt: "t \<noteq> REQ_NONE" by (auto simp: t_def next_type_def)
    have po: "parse_ok t (input_of cl)"
      using Suc.prems(3) run parse_ok_next [of "reqtype cl" "input_of cl"]
      by (auto simp: input_inv_def stopped_def t_def cl_def input_of_def)
    obtain s1 j oc where p: "parse t (input_of cl) = Some (j, oc)" "parse_step c s0 = Some (s1, oc = O_READY)" "onward c s0 s1"
      "oc = O_READY \<Longrightarrow> length (in_buf j) < length (querybuf cl) \<and> querybuf (clients s1 c) = in_buf j \<and> argv (clients s1 c) = in_args j"
      "oc \<noteq> O_READY \<Longrightarrow> input_inv (clients s1 c)"
      using parse_step_ok [OF conjunct1 [OF onward_D [OF o0]], of c] po nt run
      unfolding c0 request_type_fields t_def [symmetric] cl_def [symmetric] by blast
    have o1: "onward c s s1" using onward_trans [OF o0 p(3)] .
    have i1: "sys_inv s1" "client_list s1 = client_list s" using onward_D [OF o1] by simp_all
    show ?thesis
    proof (cases "oc = O_READY")
      case False
      then show ?thesis using run p o1 by (auto simp: input_loop_step s0_def [symmetric])
    next
      case ready: True
      note q = p(4) [OF ready]
      have reqs: "requests (Suc n) (reqtype cl) (input_of cl) = in_args j # requests n REQ_NONE (fresh (in_buf j))"
        using run p(1) ready by (simp add: t_def input_of_def cl_def)
      have vs: "vector_ok (commands s) (in_args j)" "\<forall>av \<in> set (requests n REQ_NONE (fresh (in_buf j))). vector_ok (commands s) av"
        using Suc.prems(5) run reqs by (simp_all add: cl_def)
      have rest: "\<exists>s'. input_loop n e c (upd_client c resetClient x) = Some s' \<and> onward c s s' \<and> input_inv (clients s' c)"
        if x: "onward c s x" "querybuf (clients x c) = in_buf j" for x
      proof -
        define y where "y = upd_client c resetClient x"
        have ix: "sys_inv x" using onward_D [OF x(1)] by simp
        have oy: "onward c s y" unfolding y_def using onward_trans [OF x(1) reset_onward [OF ix]] .
        have cy: "clients y c = resetClient (clients x c)" by (simp add: y_def upd_client_def)
        have "\<exists>s'. input_loop n e c y = Some s' \<and> onward c y s' \<and> input_inv (clients s' c)"
        proof (rule Suc.IH)
          show "sys_inv y" "c \<in> set (client_list y)" using onward_D [OF oy] Suc.prems(2) by simp_all
          show "input_inv (clients y c)" by (simp add: input_inv_def cy reset_fields parse_ok_fresh)
          show "length (querybuf (clients y c)) < n"
            using q x(2) Suc.prems(4) by (simp add: cy reset_fields cl_def)
          show "\<forall>av \<in> set (requests n (reqtype (clients y c)) (input_of (clients y c))). vector_ok (commands y) av"
            using vs(2) onward_commands [OF Suc.prems(1) oy] by (simp add: cy reset_fields x(2))
        qed
        then show ?thesis using onward_trans [OF oy] by (auto simp: y_def)
      qed
      show ?thesis
      proof (cases "in_args j = []")
        case True
        then show ?thesis using rest [OF o1] q run p(2) ready by (simp add: input_loop_step s0_def [symmetric])
      next
        case False
        have "request_ok s1 c"
          using vs(1) False q onward_commands [OF Suc.prems(1) o1] by (simp add: request_ok_def vector_ok_def)
        then obtain s2 ok where s2: "processCommand e c s1 = Some (s2, ok)" "after c s1 s2"
          "\<not> ok \<longrightarrow> REDIS_CLOSE_AFTER_REPLY \<in> cflags (clients s2 c)"
          using process_ok [OF i1(1) assms(1), of c] Suc.prems(2) i1(2) by auto
        have o2: "onward c s s2" using onward_trans [OF o1 onward_after [OF s2(2)]] .
        have unfold: "input_loop (Suc n) e c s = input_loop n e c (if ok then upd_client c resetClient s2 else s2)"
          using run p(2) ready False q s2(1) by (simp add: input_loop_step s0_def [symmetric])
        show ?thesis
        proof (cases ok)
          case True
          have "querybuf (clients s2 c) = in_buf j" using s2(2) q by (simp add: after_def)
          then show ?thesis using rest [OF o2] True unfold by simp
        next
          case False
          obtain m where m: "n = Suc m" using q Suc.prems(4) by (cases n) (auto simp: cl_def)
          have "stopped (clients s2 c)" using False s2(3) by (simp add: stopped_def)
          then show ?thesis
            using False unfold m o2 s2(3) by (simp add: input_inv_def input_loop_step)
        qed
      qed
    qed
  qed
qed simp


section \<open>Closing a connection\<close>

text \<open>The lists of the server in which a client must be found when it is released.\<close>

definition connected :: "nat \<Rightarrow> 'o server \<Rightarrow> bool" where
  "connected c s \<longleftrightarrow> c \<in> set (client_list s) \<and> distinct (client_list s) \<and> fd (clients s c) \<noteq> - 1 \<and>
     (REDIS_SLAVE \<in> cflags (clients s c) \<and> REDIS_MONITOR \<in> cflags (clients s c) \<longrightarrow> c \<in> set (monitors s))"

definition listed :: "nat \<Rightarrow> 'o server \<Rightarrow> bool" where
  "listed c s \<longleftrightarrow> connected c s \<and>
     (REDIS_CLOSE_ASAP \<in> cflags (clients s c) \<longrightarrow> c \<in> set (clients_to_close s))"

text \<open>A client gives up watched keys and subscriptions, and nothing else changes.\<close>

definition sheds :: "nat \<Rightarrow> 'o server \<Rightarrow> 'o server \<Rightarrow> bool" where
  "sheds c s s' \<longleftrightarrow> kept c s s' \<and> fd (clients s' c) = fd (clients s c) \<and> cflags (clients s' c) = cflags (clients s c) \<and>
     monitors s' = monitors s \<and> clients_to_close s' = clients_to_close s \<and>
     set (watched_keys (clients s' c)) \<subseteq> set (watched_keys (clients s c)) \<and>
     set (pubsub_channels (clients s' c)) \<subseteq> set (pubsub_channels (clients s c)) \<and>
     set (pubsub_patterns (clients s' c)) \<subseteq> set (pubsub_patterns (clients s c))"

lemma sheds_refl: "core_inv s \<Longrightarrow> sheds c s s"
  by (simp add: sheds_def kept_refl)

lemma sheds_trans: "sheds c s s1 \<Longrightarrow> sheds c s1 s2 \<Longrightarrow> sheds c s s2"
  unfolding sheds_def by (auto intro: kept_trans)

lemma sheds_D: "sheds c s s' \<Longrightarrow> core_inv s' \<and> client_list s' = client_list s"
  by (simp add: sheds_def kept_def)

lemma del_sheds:
  assumes "core_inv s" and "c \<in> set (client_list s)"
  shows "sheds c s (del_chan c x s)" "sheds c s (del_pat c x s)"
proof -
  have e: "clients (del_chan c x s) c = (clients s c)\<lparr>pubsub_channels := remove1 x (pubsub_channels (clients s c))\<rparr>"
    "clients (del_pat c x s) c = (clients s c)\<lparr>pubsub_patterns := remove1 x (pubsub_patterns (clients s c))\<rparr>"
    "monitors (del_chan c x s) = monitors s" "monitors (del_pat c x s) = monitors s"
    "clients_to_close (del_chan c x s) = clients_to_close s" "clients_to_close (del_pat c x s) = clients_to_close s"
    by (simp_all add: sub_defs upd_client_def)
  show "sheds c s (del_chan c x s)" "sheds c s (del_pat c x s)"
    using kept_sub_changes(2,4) [OF assms, of x] by (simp_all add: sheds_def e set_remove1_subset)
qed

lemma unsub_loops_shed:
  assumes "core_inv s" and "c \<in> set (client_list s)"
  shows "\<exists>s' m. unsub_channels c xs False s n = Some (s', m) \<and> sheds c s s' \<and>
      set (pubsub_channels (clients s' c)) = set (pubsub_channels (clients s c)) - set xs"
    and "\<exists>s' m. unsub_patterns c xs False s n = Some (s', m) \<and> sheds c s s' \<and>
      set (pubsub_patterns (clients s' c)) = set (pubsub_patterns (clients s c)) - set xs"
proof -
  show "\<exists>s' m. unsub_channels c xs False s n = Some (s', m) \<and> sheds c s s' \<and>
      set (pubsub_channels (clients s' c)) = set (pubsub_channels (clients s c)) - set xs"
    using assms
  proof (induction xs arbitrary: s n)
    case (Cons x xs)
    have p: "pubsub_inv s" using Cons.prems(1) by (simp add: core_inv_def)
    define s1 where "s1 = (if x \<in> set (pubsub_channels (clients s c)) then del_chan c x s else s)"
    obtain r where r: "pubsubUnsubscribeChannel c x False s = Some (s1, r)"
      by (cases "x \<in> set (pubsub_channels (clients s c))") (auto simp: unsubscribe_eq [OF p Cons.prems(2)] s1_def)
    have d: "sheds c s s1" using del_sheds(1) [OF Cons.prems] sheds_refl [OF Cons.prems(1)] by (simp add: s1_def)
    have "distinct (pubsub_channels (clients s c))" using p by (simp add: pubsub_inv_def)
    then have e: "set (pubsub_channels (clients s1 c)) = set (pubsub_channels (clients s c)) - {x}"
      by (simp add: s1_def del_chan_def upd_client_def)
    obtain s2 m where "unsub_channels c xs False s1 (n + r) = Some (s2, m)" "sheds c s1 s2"
      "set (pubsub_channels (clients s2 c)) = set (pubsub_channels (clients s1 c)) - set xs"
      using Cons.IH [of s1] sheds_D [OF d] Cons.prems(2) by fastforce
    then show ?case using r d e by (auto intro: sheds_trans)
  qed (simp add: sheds_refl)
  show "\<exists>s' m. unsub_patterns c xs False s n = Some (s', m) \<and> sheds c s s' \<and>
      set (pubsub_patterns (clients s' c)) = set (pubsub_patterns (clients s c)) - set xs"
    using assms
  proof (induction xs arbitrary: s n)
    case (Cons x xs)
    have p: "pubsub_inv s" using Cons.prems(1) by (simp add: core_inv_def)
    define s1 where "s1 = (if x \<in> set (pubsub_patterns (clients s c)) then del_pat c x s else s)"
    obtain r where r: "pubsubUnsubscribePattern c x False s = Some (s1, r)"
      by (cases "x \<in> set (pubsub_patterns (clients s c))") (auto simp: unsubscribe_eq [OF p Cons.prems(2)] s1_def)
    have d: "sheds c s s1" using del_sheds(2) [OF Cons.prems] sheds_refl [OF Cons.prems(1)] by (simp add: s1_def)
    have "distinct (pubsub_patterns (clients s c))" using p by (simp add: pubsub_inv_def)
    then have e: "set (pubsub_patterns (clients s1 c)) = set (pubsub_patterns (clients s c)) - {x}"
      by (simp add: s1_def del_pat_def upd_client_def)
    obtain s2 m where "unsub_patterns c xs False s1 (n + r) = Some (s2, m)" "sheds c s1 s2"
      "set (pubsub_patterns (clients s2 c)) = set (pubsub_patterns (clients s1 c)) - set xs"
      using Cons.IH [of s1] sheds_D [OF d] Cons.prems(2) by fastforce
    then show ?case using r d e by (auto intro: sheds_trans)
  qed (simp add: sheds_refl)
qed

lemma sheds_all:
  assumes "core_inv s" and "c \<in> set (client_list s)"
  obtains s1 s2 s3 m n where "unwatchAllKeys c s = Some s1"
    "pubsubUnsubscribeAllChannels c False s1 = Some (s2, m)" "pubsubUnsubscribeAllPatterns c False s2 = Some (s3, n)"
    "sheds c s s3" "watched_keys (clients s3 c) = []" "pubsub_channels (clients s3 c) = []" "pubsub_patterns (clients s3 c) = []"
proof -
  obtain s1 where s1: "unwatchAllKeys c s = Some s1" "kept c s s1" "unwatched c s s1"
    using unwatchAllKeys_kept [OF assms] by (auto simp: holds_def)
  then have d1: "sheds c s s1" and w: "watched_keys (clients s1 c) = []"
    by (auto simp: sheds_def unwatched_def)
  have i1: "core_inv s1" "c \<in> set (client_list s1)" using sheds_D [OF d1] assms(2) by simp_all
  have "order_ok s1" using i1(1) by (simp add: core_inv_def)
  then have o: "set (dict_order s1 (set (pubsub_channels (clients s1 c)))) = set (pubsub_channels (clients s1 c))"
    by (simp add: order_ok_def)
  obtain s2 m where s2: "pubsubUnsubscribeAllChannels c False s1 = Some (s2, m)" "sheds c s1 s2" "pubsub_channels (clients s2 c) = []"
    using unsub_loops_shed(1) [OF i1, of "dict_order s1 (set (pubsub_channels (clients s1 c)))" 0] o
    by (auto simp: pubsubUnsubscribeAllChannels_def)
  have i2: "core_inv s2" "c \<in> set (client_list s2)" using sheds_D [OF s2(2)] i1(2) by simp_all
  obtain s3 n where s3: "pubsubUnsubscribeAllPatterns c False s2 = Some (s3, n)" "sheds c s2 s3" "pubsub_patterns (clients s3 c) = []"
    using unsub_loops_shed(2) [OF i2, of "pubsub_patterns (clients s2 c)" 0] by (auto simp: pubsubUnsubscribeAllPatterns_def)
  show thesis
    by (rule that [OF s1(1) s2(1) s3(1)])
      (use sheds_trans [OF sheds_trans [OF d1 s2(2)] s3(2)] s2 s3 w in \<open>auto simp: sheds_def\<close>)
qed


definition gone :: "nat \<Rightarrow> nat list \<Rightarrow> nat list \<Rightarrow> 'o server \<Rightarrow> 'o server" where
  "gone c m q s = s\<lparr>client_list := remove1 c (client_list s), monitors := m, clients_to_close := q,
     clients := (clients s)(c := createClient (- 1) (unixtime (oenv s)))\<rparr>"

lemma gone_inv:
  assumes "sys_inv s" and "distinct (client_list s)"
    and "watched_keys (clients s c) = []" and "pubsub_channels (clients s c) = []" and "pubsub_patterns (clients s c) = []"
  shows "sys_inv (gone c m q s)"
proof -
  define s' where "s' = gone c m q s"
  have c: "clients s' x = (if x = c then createClient (- 1) (unixtime (oenv s)) else clients s x)" for x
    by (simp add: s'_def gone_def)
  have l: "set (client_list s') = set (client_list s) - {c}" using assms(2) by (simp add: s'_def gone_def)
  have o: "dbs s' = dbs s" "dbnum s' = dbnum s" "srv_channels s' = srv_channels s" "srv_patterns s' = srv_patterns s"
    "commands s' = commands s" "orig_commands s' = orig_commands s" "also_propagate s' = also_propagate s"
    "dict_order s' = dict_order s" "lua_caller s' = lua_caller s"
    by (simp_all add: s'_def gone_def)
  have k: "data_inv s" "watch_inv s" "pubsub_inv s" "order_ok s" "tables_ok s" "lua_caller s = None"
    "\<forall>c \<in> set (client_list s). cdb (clients s c) < dbnum s" using assms(1) by (simp_all add: sys_inv_def core_inv_def)
  have "data_inv s'" using k(1) by (simp add: data_inv_def o)
  moreover have "watch_inv s'"
    using k(2) assms(3) by (auto simp: watch_inv_def watchers_def c l o createClient_def)
  moreover have "pubsub_inv s'"
    using k(3) assms(4,5) by (auto simp: pubsub_inv_def subscribers_def c l o createClient_def)
  moreover have "order_ok s'" "tables_ok s'"
    using k(4,5) by (simp_all add: order_ok_def tables_ok_def o)
  ultimately show ?thesis
    using k(6,7) assms(1) by (auto simp: sys_inv_def core_inv_def c l o s'_def [symmetric])
qed

lemma freeClient_ok:
  assumes "sys_inv s" and "listed c s"
  shows "\<exists>s'. freeClient c s = Some s' \<and> sys_inv s' \<and> client_list s' = remove1 c (client_list s) \<and>
 dbnum s' = dbnum s \<and> (\<forall>x. x \<noteq> c \<longrightarrow> client_frame (clients s x) (clients s' x)) \<and>
     (\<forall>x. x \<noteq> c \<longrightarrow> x \<in> set (monitors s) \<longrightarrow> x \<in> set (monitors s'))"
proof -
  have l: "c \<in> set (client_list s)" "distinct (client_list s)" using assms(2) by (simp_all add: listed_def connected_def)
  have core: "core_inv s" using assms(1) by (simp add: sys_inv_def)
  obtain s1 s2 s3 m n where s: "unwatchAllKeys c s = Some s1"
    "pubsubUnsubscribeAllChannels c False s1 = Some (s2, m)" "pubsubUnsubscribeAllPatterns c False s2 = Some (s3, n)"
    and d: "sheds c s s3" and e: "watched_keys (clients s3 c) = []" "pubsub_channels (clients s3 c) = []"
    "pubsub_patterns (clients s3 c) = []"
    by (rule sheds_all [OF core l(1)])
  have k: "kept c s s3" using d by (simp add: sheds_def)
  have f: "client_list s3 = client_list s" "dbnum s3 = dbnum s" "\<forall>x. x \<noteq> c \<longrightarrow> client_frame (clients s x) (clients s3 x)"
    using k by (simp_all add: kept_def)
  have l3: "listed c s3" using assms(2) d f(1) by (simp add: listed_def connected_def sheds_def)
  define m' where "m' = (if REDIS_SLAVE \<in> cflags (clients s3 c) \<and> REDIS_MONITOR \<in> cflags (clients s3 c)
    then remove1 c (monitors s3) else monitors s3)"
  define q' where "q' = (if REDIS_CLOSE_ASAP \<in> cflags (clients s3 c) then remove1 c (clients_to_close s3) else clients_to_close s3)"
  have "freeClient c s = Some (gone c m' q' s3)"
    using l3 s by (auto simp: freeClient_def remove_from_def listed_def connected_def gone_def m'_def q'_def intro!: server.equality)
  moreover have "sys_inv (gone c m' q' s3)"
    using gone_inv [OF sys_inv_kept [OF assms(1) k] _ e] l(2) f(1) by simp
  moreover have "monitors s3 = monitors s" using d by (simp add: sheds_def)
  ultimately show ?thesis using f by (simp add: gone_def m'_def)
qed


section \<open>Writing\<close>

definition only_output :: "client \<Rightarrow> client \<Rightarrow> bool" where
  "only_output a b \<longleftrightarrow> client_frame a b \<and> cflags b = cflags a"

lemma only_output_step:
  assumes "only_output a cl"
  shows "only_output a (buf_sent cl w)" "only_output a (chunk_sent e cl t w)" "only_output a (cl\<lparr>reply := q\<rparr>)"
  using assms by (simp_all add: only_output_def buf_sent_def chunk_sent_def Let_def client_frame_def)

lemma send_loop_frame:
  "send_loop e pause cl ws sent = Some (cl', sent', r) \<Longrightarrow> only_output a cl \<Longrightarrow> only_output a cl'"
proof (induction "length ws + length (reply cl)" arbitrary: ws cl sent rule: less_induct)
  case (less ws cl sent)
  note out = only_output_step [OF less.prems(2)]
  consider "buf cl = []" "reply cl = []"
    | n where "buf cl \<noteq> []" "next_write ws = WOk (Suc n)"
    | t q where "buf cl \<noteq> [] \<or> reply cl = Some t # q \<and> t \<noteq> []" "\<forall>n. next_write ws \<noteq> WOk (Suc n)"
    | q where "buf cl = []" "reply cl = Some [] # q"
    | t q n where "buf cl = []" "reply cl = Some t # q" "t \<noteq> []" "next_write ws = WOk (Suc n)"
    | q where "buf cl = []" "reply cl = None # q"
    by (cases "reply cl"; cases "\<exists>n. next_write ws = WOk (Suc n)") (metis option.exhaust)+
  then show ?case
  proof cases
    case (2 n)
    define w where "w = take (Suc n) (drop (sentlen cl) (buf cl))"
    have "length (tl ws) + length (reply (buf_sent cl w)) < length ws + length (reply cl)"
      using 2(2) by (cases ws) (auto simp: next_write_def buf_sent_def Let_def)
    from less.hyps [OF this _ out(1)] show ?thesis
      using less.prems(1) out(1) send_loop_simps(2) [OF 2 w_def, of e pause sent] by (auto split: if_splits)
  next
    case (4 q)
    have "length ws + length (reply (cl\<lparr>reply := q\<rparr>)) < length ws + length (reply cl)" using 4(2) by simp
    from less.hyps [OF this _ out(3)] show ?thesis using less.prems(1) send_loop_simps(4) [OF 4] by simp
  next
    case (5 t q n)
    define w where "w = take (Suc n) (drop (sentlen cl) t)"
    have "length (tl ws) + length (reply (chunk_sent e cl t w)) < length ws + length (reply cl)"
      using 5(2,4) by (cases ws) (auto simp: next_write_def chunk_sent_def Let_def)
    from less.hyps [OF this _ out(2)] show ?thesis
      using less.prems(1) out(2) send_loop_simps(5) [OF 5 w_def, of e pause sent] by (auto split: if_splits)
  next
    case (6 q)
    then show ?thesis using less.prems(1) by (simp add: send_loop.simps [of e pause cl])
  next
    case (3 t q)
    then show ?thesis using less.prems send_loop_simps(3) [OF 3, of e pause sent] by simp
  qed (use less.prems send_loop_simps(1) in simp)
qed

lemma sendReply_ok:
  assumes "out_wf cl" and "filled cl"
  obtains cl' sent closed where "sendReplyToClient e pause cl ws = Some (cl', sent, closed)" "only_output cl cl'"
proof -
  obtain cl' sent r where s: "send_loop e pause cl ws [] = Some (cl', sent, r)"
    using send_loop_spec [OF assms, of e pause ws "[]"] by (auto simp: send_ok_def)
  have o: "only_output cl cl'" by (rule send_loop_frame [OF s]) (simp add: only_output_def)
  define c2 where "c2 = (if sent \<noteq> [] \<and> REDIS_MASTER \<notin> cflags cl' then cl'\<lparr>lastinteraction := unixtime e\<rparr> else cl')"
  have o2: "only_output cl c2" "only_output cl (c2\<lparr>sentlen := 0, wr_event := False\<rparr>)"
    using o by (simp_all add: c2_def only_output_def client_frame_def)
  have "sendReplyToClient e pause cl ws =
    (if r = WErr then Some (cl', sent, True)
     else if buf c2 = [] \<and> reply c2 = [] then Some (c2\<lparr>sentlen := 0, wr_event := False\<rparr>, sent, REDIS_CLOSE_AFTER_REPLY \<in> cflags c2)
     else Some (c2, sent, False))"
    by (simp add: sendReplyToClient_def s Let_def c2_def [symmetric])
  then have "\<exists>x. sendReplyToClient e pause cl ws = Some x \<and> only_output cl (fst x)" using o o2 by auto
  then show thesis using that by (metis fst_conv prod_cases3)
qed


section \<open>Every reachable state\<close>

definition run_inv :: "'o server \<Rightarrow> bool" where
  "run_inv s \<longleftrightarrow> sys_inv s \<and> 0 < dbnum s \<and> distinct (client_list s) \<and>
     (\<forall>c \<in> set (client_list s). input_inv (clients s c))"

text \<open>What is assumed of an event. The descriptor of a connection is new and valid; every request that the
  data completes is within the limits of the protocol and one that \<open>processCommand_safe\<close> covers; output is
  written when no deferred length is missing; a client that is released is in the lists its flags name.\<close>

definition received :: "bytes \<Rightarrow> client \<Rightarrow> client" where
  "received data cl = cl\<lparr>querybuf := querybuf cl @ data\<rparr>"

definition event_ok :: "event \<Rightarrow> 'o server \<Rightarrow> bool" where
  "event_ok ev s \<longleftrightarrow>
     (case ev of
        Connect c f \<Rightarrow> c \<notin> set (client_list s) \<and> f \<noteq> - 1
      | Receive c r \<Rightarrow> listed c s \<and>
          (case r of Read data \<Rightarrow> \<forall>av \<in> set (requests_of (received data (clients s c))). vector_ok (commands s) av | _ \<Rightarrow> True)
      | Writable c pause ws \<Rightarrow> listed c s \<and> out_wf (clients s c) \<and> filled (clients s c)
      | Clock t \<Rightarrow> True
      | Close_queued \<Rightarrow> distinct (clients_to_close s) \<and> (\<forall>c \<in> set (clients_to_close s). connected c s))"

lemma input_inv_frame: "client_frame a b \<Longrightarrow> input_inv b = input_inv a"
  by (auto simp: client_frame_def input_inv_def input_of_def)

lemma run_inv_onward:
  assumes "run_inv s" and "onward c s s'" and "input_inv (clients s' c)"
  shows "run_inv s'"
proof -
  have "input_inv (clients s' x)" if "x \<in> set (client_list s)" for x
    using assms that input_inv_frame by (cases "x = c") (auto simp: run_inv_def onward_def)
  then show ?thesis using assms(1,2) by (simp add: run_inv_def onward_def)
qed

lemma free_run_inv:
  assumes "run_inv s" and "listed c s"
  shows "\<exists>s'. freeClient c s = Some s' \<and> run_inv s'"
proof -
  obtain s' where s': "freeClient c s = Some s'" "sys_inv s'" "client_list s' = remove1 c (client_list s)"
    "dbnum s' = dbnum s" "\<forall>x. x \<noteq> c \<longrightarrow> client_frame (clients s x) (clients s' x)"
    using freeClient_ok [OF _ assms(2)] assms(1) by (auto simp: run_inv_def)
  have "input_inv (clients s' x)" if "x \<in> set (client_list s')" for x
    using that s'(3,5) assms(1) input_inv_frame [of "clients s x" "clients s' x"] by (auto simp: run_inv_def)
  then show ?thesis using s' assms(1) by (auto simp: run_inv_def)
qed

lemma free_queue_ok:
  assumes "run_inv s" and "distinct q" and "\<forall>c \<in> set q. connected c s"
  shows "\<exists>s'. free_queue q s = Some s' \<and> run_inv s'"
  using assms
proof (induction q arbitrary: s)
  case (Cons c q)
  define s1 where "s1 = upd_client c (clr_flag REDIS_CLOSE_ASAP) s"
  have "onward c s s1" unfolding s1_def using Cons.prems(1) by (intro onward_upd) (auto simp: run_inv_def)
  moreover have "input_inv (clients s1 c)"
    using Cons.prems by (auto simp: s1_def upd_client_def run_inv_def input_inv_def input_of_def connected_def)
  ultimately have i1: "run_inv s1" using run_inv_onward Cons.prems(1) by blast
  have l1: "listed c s1" using Cons.prems(3) by (simp add: listed_def connected_def s1_def upd_client_def)
  obtain s2 where s2: "freeClient c s1 = Some s2" "run_inv s2" using free_run_inv [OF i1 l1] by blast
  have f: "client_list s2 = remove1 c (client_list s1)" "\<forall>x. x \<noteq> c \<longrightarrow> client_frame (clients s1 x) (clients s2 x)"
    "\<forall>x. x \<noteq> c \<longrightarrow> x \<in> set (monitors s1) \<longrightarrow> x \<in> set (monitors s2)"
    using freeClient_ok [OF _ l1] i1 s2(1) by (auto simp: run_inv_def)
  define s3 where "s3 = s2\<lparr>clients_to_close := q\<rparr>"
  have i3: "run_inv s3" using s2(2)
    by (simp add: s3_def run_inv_def sys_inv_def core_inv_def data_inv_def watch_inv_def watchers_def pubsub_inv_def
        subscribers_def order_ok_def tables_ok_def)
  have "connected x s3" if "x \<in> set q" for x
  proof -
    have "x \<noteq> c" "connected x s" using that Cons.prems(2,3) by auto
    then show ?thesis using f by (auto simp: connected_def s3_def s1_def upd_client_def client_frame_def)
  qed
  then obtain s' where "free_queue q s3 = Some s'" "run_inv s'" using Cons.IH [OF i3] Cons.prems(2) by auto
  then show ?case using s2(1) by (simp add: s1_def s3_def)
qed simp


lemma listed_upd:
  "(\<And>cl. fd (f cl) = fd cl \<and> cflags (f cl) = cflags cl) \<Longrightarrow> listed c (upd_client c f s) = listed c s"
  by (simp add: listed_def connected_def upd_client_def)

lemma read_ok:
  assumes "run_inv s" and "env_ok e" and "event_ok (Receive c r) s"
  shows "\<exists>s'. readQueryFromClient e c r s = Some s' \<and> run_inv s'"
proof -
  have l: "listed c s" "c \<in> set (client_list s)" using assms(3) by (auto simp: event_ok_def listed_def connected_def)
  show ?thesis
  proof (cases "\<exists>data. r = Read data \<and> data \<noteq> []")
    case False
    then show ?thesis using assms(1) free_run_inv [OF assms(1) l(1)]
      by (cases r) (auto simp: readQueryFromClient_def)
  next
    case True
    then obtain data where r: "r = Read data" "data \<noteq> []" by blast
    define f where "f = (\<lambda>cl :: client. cl\<lparr>querybuf := querybuf cl @ data, lastinteraction := unixtime (oenv s)\<rparr>)"
    define s1 where "s1 = upd_client c f s"
    have o1: "onward c s s1" unfolding s1_def using assms(1) by (intro onward_upd) (auto simp: run_inv_def f_def)
    have c1: "clients s1 c = f (clients s c)" by (simp add: s1_def upd_client_def)
    have "input_inv (clients s c)" using assms(1) l(2) by (simp add: run_inv_def)
    then have p: "input_inv (clients s1 c)"
      by (auto simp: c1 f_def input_inv_def input_of_def parse_ok_def nth_append)
    note i1 = run_inv_onward [OF assms(1) o1 p]
    have l1: "listed c s1" using l(1) unfolding s1_def by (subst listed_upd) (simp_all add: f_def)
    have q: "requests_of (clients s1 c) = requests_of (received data (clients s c))"
      by (simp add: requests_of_def c1 f_def received_def stopped_def input_of_def)
    have "\<forall>av \<in> set (requests_of (clients s1 c)). vector_ok (commands s1) av"
      using assms(3) r onward_commands [OF _ o1] assms(1) unfolding q by (simp add: event_ok_def run_inv_def)
    then obtain s2 where s2: "processInputBuffer e c s1 = Some s2" "onward c s1 s2" "input_inv (clients s2 c)"
      using input_loop_ok [OF assms(2), of s1 c "length (querybuf (clients s1 c)) + 1"] i1 l1 p
      by (auto simp: processInputBuffer_def requests_of_def run_inv_def listed_def connected_def)
    have "readQueryFromClient e c r s =
        (if length (querybuf (clients s1 c)) > REDIS_MAX_QUERYBUF_LEN then freeClient c s1 else processInputBuffer e c s1)"
      using r by (simp add: readQueryFromClient_def s1_def f_def Let_def)
    then show ?thesis using free_run_inv [OF i1 l1] run_inv_onward [OF i1 s2(2,3)] s2(1) by auto
  qed
qed

lemma write_ok:
  assumes "run_inv s" and "event_ok (Writable c pause ws) s"
  shows "\<exists>s'. write_handler c pause ws s = Some s' \<and> run_inv s'"
proof -
  have l: "listed c s" "c \<in> set (client_list s)" "out_wf (clients s c)" "filled (clients s c)"
    using assms(2) by (auto simp: event_ok_def listed_def connected_def)
  obtain cl' sent closed where w: "sendReplyToClient (oenv s) pause (clients s c) ws = Some (cl', sent, closed)"
    "only_output (clients s c) cl'" by (rule sendReply_ok [OF l(3,4)])
  define s1 where "s1 = upd_client c (\<lambda>_. cl') s"
  have c1: "clients s1 = (clients s)(c := cl')" "client_list s1 = client_list s" "dbnum s1 = dbnum s"
    by (simp_all add: s1_def upd_client_def)
  have "sys_inv s" using assms(1) by (simp add: run_inv_def)
  moreover have "core_inv s1" unfolding s1_def
    using calculation w(2) l(2) by (intro core_inv_upd) (auto simp: sys_inv_def core_inv_def only_output_def client_frame_def)
  moreover have "client_inv cl' = client_inv (clients s c)"
    using w(2) client_inv_frame by (simp add: only_output_def)
  ultimately have o1: "onward c s s1"
    using l(2) by (auto simp: onward_def sys_inv_def c1)
  have "input_inv (clients s1 c)"
    using w(2) input_inv_frame [of "clients s c" cl'] assms(1) l(2) by (simp add: c1 only_output_def run_inv_def)
  note i1 = run_inv_onward [OF assms(1) o1 this]
  have "listed c s1" using l(1) w(2) by (simp add: listed_def connected_def c1 only_output_def client_frame_def) (simp add: s1_def upd_client_def)
  from free_run_inv [OF i1 this] i1 show ?thesis
    by (simp add: write_handler_def w(1) s1_def Let_def)
qed

lemma clock_inv: "run_inv s \<Longrightarrow> run_inv (updateLRUClock (updateCachedTime t s))"
  by (simp add: run_inv_def updateLRUClock_def updateCachedTime_def sys_inv_def core_inv_def data_inv_def watch_inv_def
      watchers_def pubsub_inv_def subscribers_def order_ok_def tables_ok_def)

lemma connect_inv:
  assumes "run_inv s" and "c \<notin> set (client_list s)"
  shows "run_inv (newClient c f s)"
proof -
  have "sys_inv (newClient c f s)" using newClient_inv assms by (auto simp: run_inv_def)
  then show ?thesis
    using assms by (auto simp: run_inv_def newClient_def createClient_def input_inv_def parse_ok_def input_of_def)
qed

lemma serve_ok:
  assumes "run_inv s" and "env_ok e" and "event_ok ev s"
  shows "\<exists>s'. serve e ev s = Some s' \<and> run_inv s'"
proof (cases ev)
  case (Connect c f)
  then show ?thesis using connect_inv [OF assms(1)] assms(3) by (simp add: serve_def event_ok_def)
next
  case (Receive c r)
  then show ?thesis using read_ok [OF assms(1,2)] assms(3) by (simp add: serve_def)
next
  case (Writable c pause ws)
  then show ?thesis using write_ok [OF assms(1)] assms(3) by (simp add: serve_def)
next
  case (Clock t)
  then show ?thesis using clock_inv [OF assms(1)] by (simp add: serve_def)
next
  case Close_queued
  then show ?thesis using free_queue_ok [OF assms(1)] assms(3)
    by (simp add: serve_def freeClientsInAsyncFreeQueue_def event_ok_def)
qed

inductive reachable :: "host \<Rightarrow> 'o server \<Rightarrow> bool" for h where
  start: "startServer h = Some s \<Longrightarrow> reachable h s"
| step: "reachable h s \<Longrightarrow> env_ok e \<Longrightarrow> event_ok ev s \<Longrightarrow> serve e ev s = Some s' \<Longrightarrow> reachable h s'"

lemma start_run_inv:
  assumes "host_ok h" and "startServer h = Some s"
  shows "run_inv s"
proof -
  have "sys_inv s" "client_list s = []" using startServer_inv [OF assms(1)] assms(2) by (metis option.inject)+
  moreover have "dbnum s = 16" using assms(2) by (auto simp: startServer_def initServer_def)
  ultimately show ?thesis by (simp add: run_inv_def)
qed

lemma reachable_inv: "reachable h s \<Longrightarrow> host_ok h \<Longrightarrow> run_inv s"
proof (induction rule: reachable.induct)
  case (step s e ev s')
  then show ?case using serve_ok [of s e ev] by auto
qed (rule start_run_inv)



end
